theory Spec2Isabelle
  imports Main "HOL-Library.Monad_Syntax"
begin

section \<open>The merge tree of MergeTree.cpp\<close>

text \<open>
  The development embeds \<^verbatim>\<open>core/baseCode/taskedTree/MergeTree.cpp\<close>. Ids
  (\<^verbatim>\<open>idVertex\<close>, \<^verbatim>\<open>idNode\<close>, \<^verbatim>\<open>idSuperArc\<close>) are integers, since the
  code tests them against zero and returns negative ids on a refused call. Arrays are
  lists; a read or a write outside an array has no defined result in C++, and is the
  value \<open>None\<close> here, as is a dereferenced null pointer and a loop that has used up
  its fuel. The build modelled is the one without \<^verbatim>\<open>withKamikaze\<close> (the guards
  are compiled in); timers and debug prints are left out, the lines a guard writes
  to \<^verbatim>\<open>cout\<close> or \<^verbatim>\<open>cerr\<close> are kept as messages.
\<close>

subsection \<open>Arrays\<close>

definition inRange :: "int \<Rightarrow> 'a list \<Rightarrow> bool" where
  "inRange i xs \<longleftrightarrow> 0 \<le> i \<and> i < int (length xs)"

definition rd :: "'a list \<Rightarrow> int \<Rightarrow> 'a option" where
  "rd xs i = (if inRange i xs then Some (xs ! nat i) else None)"

definition wr :: "'a list \<Rightarrow> int \<Rightarrow> 'a \<Rightarrow> 'a list option" where
  "wr xs i v = (if inRange i xs then Some (xs[nat i := v]) else None)"

subsection \<open>Data\<close>

type_synonym idVertex = int
type_synonym idNode = int
type_synonym idSuperArc = int
type_synonym valence = int

datatype treeType = Join | Split | Contour

text \<open>
  Modelled from the spec: the scalars (section 6), declared outside this file. They
  give the number of vertices, the two strict orders, the vertices in ascending
  order and the position of each vertex in that order.
\<close>

record scalars =
  sizeS :: int
  isLower :: "idVertex \<Rightarrow> idVertex \<Rightarrow> bool"
  isHigher :: "idVertex \<Rightarrow> idVertex \<Rightarrow> bool"
  sortedVertices :: "idVertex list"
  mirrorVertices :: "idVertex list"

text \<open>
  Modelled from the spec: the mesh (section 6) answers neighbour queries only. A mesh
  is the function giving the neighbours of a vertex in the order of their index, so
  that \<^verbatim>\<open>getVertexNeighborNumber(v)\<close> is the length of the list and
  \<^verbatim>\<open>getVertexNeighbor(v, n, neigh)\<close> its \<open>n\<close>-th element.
\<close>

type_synonym mesh = "idVertex \<Rightarrow> idVertex list"

text \<open>
  Modelled from the spec: \<^verbatim>\<open>Node\<close> and \<^verbatim>\<open>SuperArc\<close> (section 3), declared
  outside this file. A node has its vertex, the vertex given as second argument of
  \<^verbatim>\<open>makeNode\<close> and the ordered lists of its up and down super-arcs; a super-arc
  has its two end nodes, its last visited vertex, its count of visited vertices
  and its region. \<open>nullNodes\<close> and \<open>nullVertex\<close> stand for the null ids of the
  headers: any id that is no index.
\<close>

definition nullVertex :: idVertex where "nullVertex = -1"
definition nullNodes :: idNode where "nullNodes = -1"

record node =
  vertexId :: idVertex
  terminaison :: idVertex
  upSuperArcs :: "idSuperArc list"
  downSuperArcs :: "idSuperArc list"

record superArc =
  downNodeId :: idNode
  upNodeId :: idNode
  lastVisited :: idVertex
  verticesSeen :: idVertex
  region :: "idVertex list"

definition newNode :: node where
  "newNode = \<lparr>vertexId = nullVertex, terminaison = nullVertex,
     upSuperArcs = [], downSuperArcs = []\<rparr>"

definition newSuperArc :: superArc where
  "newSuperArc = \<lparr>downNodeId = nullNodes, upNodeId = nullNodes,
     lastVisited = nullVertex, verticesSeen = 0, region = []\<rparr>"

text \<open>
  Modelled from the spec: an entry of \<^verbatim>\<open>vert2tree\<close> is in one of three states,
  nil, a node id or an arc id (section 3); the tagged sum of section 9 stands for
  the integer encoding of the headers.
\<close>

datatype corresp = CNil | CNode idNode | CArc idSuperArc

text \<open>
  Modelled from the spec: the front queue \<^verbatim>\<open>CurrentState\<close> (section 4.A) holds
  the vertex popped last and the candidate vertices, duplicates allowed.
\<close>

record currentState =
  vertex :: idVertex
  front :: "idVertex list"

text \<open>
  Modelled from the spec: an \<^verbatim>\<open>AtomicUF\<close> element (sections 3 and 4.B) has a
  parent link, the front queues and the opened arcs of its class, and an extremum.
  Elements and queues are objects reached through pointers: they live in two
  heaps and a pointer is an index in its heap.
\<close>

record atomicUF =
  parent :: nat
  extrema :: idVertex
  states :: "int list"
  openedArcs :: "idSuperArc list"

datatype message =
  OpenSuperArcInexistingNode
  | CloseSuperArcInexistingArc
  | CloseOpenedArcInexistingNode
  | MakeNodeWrongVertex idVertex int
  | DelNodeWontDelete idVertex nat nat
  | DelNodeMultipleChildrens

record treeData =
  treeType :: treeType
  superArcs :: "superArc list"
  nodes :: "node list"
  roots :: "idNode list"
  leaves :: "idNode list"
  vert2tree :: "corresp list"
  ufs :: "int option list"
  propagation :: "int option list"
  valences :: "valence list"
  openedNodes :: "int list"
  activeTasks :: idNode
  segments :: "idVertex list list"
  ufHeap :: "atomicUF list"
  stateHeap :: "currentState list"
  maxDepth :: idNode
  cout :: "message list"
  cerr :: "message list"

subsection \<open>The vertex to tree map\<close>

text \<open>
  Modelled from the spec: the accessors of \<^verbatim>\<open>vert2tree\<close> are inline functions
  of the header. Each reads or writes the entry of the vertex.
\<close>

definition isCorrespondingNull :: "treeData \<Rightarrow> idVertex \<Rightarrow> bool option" where
  "isCorrespondingNull t v = map_option (\<lambda>c. c = CNil) (rd (vert2tree t) v)"

definition isCorrespondingNode :: "treeData \<Rightarrow> idVertex \<Rightarrow> bool option" where
  "isCorrespondingNode t v =
     map_option (\<lambda>c. case c of CNode _ \<Rightarrow> True | _ \<Rightarrow> False) (rd (vert2tree t) v)"

definition isCorrespondingArc :: "treeData \<Rightarrow> idVertex \<Rightarrow> bool option" where
  "isCorrespondingArc t v =
     map_option (\<lambda>c. case c of CArc _ \<Rightarrow> True | _ \<Rightarrow> False) (rd (vert2tree t) v)"

definition getCorrespondingNodeId :: "treeData \<Rightarrow> idVertex \<Rightarrow> idNode option" where
  "getCorrespondingNodeId t v =
     (case rd (vert2tree t) v of Some (CNode n) \<Rightarrow> Some n | _ \<Rightarrow> None)"

definition getCorrespondingSuperArcId :: "treeData \<Rightarrow> idVertex \<Rightarrow> idSuperArc option" where
  "getCorrespondingSuperArcId t v =
     (case rd (vert2tree t) v of Some (CArc a) \<Rightarrow> Some a | _ \<Rightarrow> None)"

definition updateCorrespondingArc :: "idVertex \<Rightarrow> idSuperArc \<Rightarrow> treeData \<Rightarrow> treeData option" where
  "updateCorrespondingArc v a t =
     map_option (\<lambda>m. t\<lparr>vert2tree := m\<rparr>) (wr (vert2tree t) v (CArc a))"

definition updateCorrespondingNode :: "idVertex \<Rightarrow> idNode \<Rightarrow> treeData \<Rightarrow> treeData option" where
  "updateCorrespondingNode v n t =
     map_option (\<lambda>m. t\<lparr>vert2tree := m\<rparr>) (wr (vert2tree t) v (CNode n))"

definition getNumberOfNodes :: "treeData \<Rightarrow> int" where
  "getNumberOfNodes t = int (length (nodes t))"

definition getNumberOfSuperArcs :: "treeData \<Rightarrow> int" where
  "getNumberOfSuperArcs t = int (length (superArcs t))"

subsection \<open>Arcs and node manipulations\<close>

text \<open>
  \<^verbatim>\<open>getNext()\<close> of the node and arc vectors reserves the slot after the last
  one and returns its index (section 4.C): the new slot holds a fresh object.
\<close>

definition openSuperArc :: "idNode \<Rightarrow> treeData \<Rightarrow> (idSuperArc \<times> treeData) option" where
  "openSuperArc downNode t =
     (if downNode < 0 \<or> downNode \<ge> getNumberOfNodes t
      then Some (-2, t\<lparr>cout := cout t @ [OpenSuperArcInexistingNode]\<rparr>)
      else do {
        let newSuperArcId = int (length (superArcs t));
        let sas = superArcs t @ [newSuperArc\<lparr>downNodeId := downNode\<rparr>];
        n \<leftarrow> rd (nodes t) downNode;
        ns \<leftarrow> wr (nodes t) downNode (n\<lparr>upSuperArcs := upSuperArcs n @ [newSuperArcId]\<rparr>);
        Some (newSuperArcId, t\<lparr>superArcs := sas, nodes := ns\<rparr>)
      })"

definition makeSuperArc :: "idNode \<Rightarrow> idNode \<Rightarrow> treeData \<Rightarrow> (idSuperArc \<times> treeData) option" where
  "makeSuperArc downNode upNode t = do {
     let newSuperArcId = int (length (superArcs t));
     let sas = superArcs t @ [newSuperArc\<lparr>downNodeId := downNode, upNodeId := upNode\<rparr>];
     d \<leftarrow> rd (nodes t) downNode;
     ns1 \<leftarrow> wr (nodes t) downNode (d\<lparr>upSuperArcs := upSuperArcs d @ [newSuperArcId]\<rparr>);
     u \<leftarrow> rd ns1 upNode;
     ns2 \<leftarrow> wr ns1 upNode (u\<lparr>downSuperArcs := downSuperArcs u @ [newSuperArcId]\<rparr>);
     Some (newSuperArcId, t\<lparr>superArcs := sas, nodes := ns2\<rparr>)
   }"

definition closeSuperArc :: "idSuperArc \<Rightarrow> idNode \<Rightarrow> treeData \<Rightarrow> treeData option" where
  "closeSuperArc superArcId upNode t =
     (if superArcId < 0 \<or> superArcId \<ge> getNumberOfSuperArcs t
      then Some (t\<lparr>cout := cout t @ [CloseSuperArcInexistingArc]\<rparr>)
      else if upNode < 0 \<or> upNode \<ge> getNumberOfNodes t
      then Some (t\<lparr>cout := cout t @ [CloseOpenedArcInexistingNode]\<rparr>)
      else do {
        a \<leftarrow> rd (superArcs t) superArcId;
        sas \<leftarrow> wr (superArcs t) superArcId (a\<lparr>upNodeId := upNode\<rparr>);
        n \<leftarrow> rd (nodes t) upNode;
        ns \<leftarrow> wr (nodes t) upNode (n\<lparr>downSuperArcs := downSuperArcs n @ [superArcId]\<rparr>);
        Some (t\<lparr>superArcs := sas, nodes := ns\<rparr>)
      })"

definition makeNode :: "scalars \<Rightarrow> idVertex \<Rightarrow> idVertex \<Rightarrow> treeData \<Rightarrow> (idNode \<times> treeData) option" where
  "makeNode sc v term t =
     (if v < 0 \<or> v \<ge> sizeS sc
      then Some (-1, t\<lparr>cout := cout t @ [MakeNodeWrongVertex v (sizeS sc)]\<rparr>)
      else do {
        isNode \<leftarrow> isCorrespondingNode t v;
        if isNode then do { n \<leftarrow> getCorrespondingNodeId t v; Some (n, t) }
        else do {
          let newNodeId = int (length (nodes t));
          let t1 = t\<lparr>nodes := nodes t @ [newNode\<lparr>vertexId := v, terminaison := term\<rparr>]\<rparr>;
          t2 \<leftarrow> updateCorrespondingNode v newNodeId t1;
          Some (newNodeId, t2)
        }
      })"

text \<open>
  Modelled from the spec: \<^verbatim>\<open>removeUpSuperArc\<close> and \<^verbatim>\<open>removeDownSuperArc\<close>
  of a node take one occurrence of the arc out of the list, and
  \<^verbatim>\<open>concat\<close> of a super-arc appends the region of the other arc to its own.
\<close>

definition removeUpSuperArc :: "idSuperArc \<Rightarrow> node \<Rightarrow> node" where
  "removeUpSuperArc a n = n\<lparr>upSuperArcs := remove1 a (upSuperArcs n)\<rparr>"

definition removeDownSuperArc :: "idSuperArc \<Rightarrow> node \<Rightarrow> node" where
  "removeDownSuperArc a n = n\<lparr>downSuperArcs := remove1 a (downSuperArcs n)\<rparr>"

text \<open>
  \<^verbatim>\<open>delNode\<close> holds pointers into the node vector (\<^verbatim>\<open>mainNode\<close>,
  \<^verbatim>\<open>downNode\<close>, \<^verbatim>\<open>upNode\<close>): each write goes to the vector and each later
  read of a pointer reads the vector again.
\<close>

definition modNode :: "idNode \<Rightarrow> (node \<Rightarrow> node) \<Rightarrow> treeData \<Rightarrow> treeData option" where
  "modNode i f t = do {
     n \<leftarrow> rd (nodes t) i;
     ns \<leftarrow> wr (nodes t) i (f n);
     Some (t\<lparr>nodes := ns\<rparr>)
   }"

definition modSuperArc :: "idSuperArc \<Rightarrow> (superArc \<Rightarrow> superArc) \<Rightarrow> treeData \<Rightarrow> treeData option" where
  "modSuperArc i f t = do {
     a \<leftarrow> rd (superArcs t) i;
     sas \<leftarrow> wr (superArcs t) i (f a);
     Some (t\<lparr>superArcs := sas\<rparr>)
   }"

definition delNode :: "idNode \<Rightarrow> treeData \<Rightarrow> treeData option" where
  "delNode nodeId t = do {
     mainNode \<leftarrow> rd (nodes t) nodeId;
     if length (upSuperArcs mainNode) = 0 then
       (if length (downSuperArcs mainNode) \<noteq> 1
        then Some (t\<lparr>cout := cout t @ [DelNodeWontDelete (vertexId mainNode)
                        (length (downSuperArcs mainNode)) (length (upSuperArcs mainNode))]\<rparr>)
        else do {
          downArc \<leftarrow> rd (downSuperArcs mainNode) 0;
          da \<leftarrow> rd (superArcs t) downArc;
          t1 \<leftarrow> modNode (downNodeId da) (removeUpSuperArc downArc) t;
          modNode nodeId (\<lambda>n. n\<lparr>downSuperArcs := []\<rparr>) t1
        })
     else if length (downSuperArcs mainNode) < 2 then do {
       upArc \<leftarrow> rd (upSuperArcs mainNode) 0;
       ua \<leftarrow> rd (superArcs t) upArc;
       let upId = upNodeId ua;
       t1 \<leftarrow> modNode upId (removeDownSuperArc upArc) t;
       t2 \<leftarrow> modNode nodeId (\<lambda>n. n\<lparr>upSuperArcs := []\<rparr>) t1;
       m \<leftarrow> rd (nodes t2) nodeId;
       if length (downSuperArcs m) \<noteq> 0 then do {
         downArc \<leftarrow> rd (downSuperArcs m) 0;
         t3 \<leftarrow> modSuperArc downArc (\<lambda>a. a\<lparr>upNodeId := upId\<rparr>) t2;
         t4 \<leftarrow> modNode upId (\<lambda>n. n\<lparr>downSuperArcs := downSuperArcs n @ [downArc]\<rparr>) t3;
         t5 \<leftarrow> modNode nodeId (\<lambda>n. n\<lparr>downSuperArcs := []\<rparr>) t4;
         other \<leftarrow> rd (superArcs t5) upArc;
         modSuperArc downArc (\<lambda>a. a\<lparr>region := region a @ region other\<rparr>) t5
       } else Some t2
     }
     else Some (t\<lparr>cerr := cerr t @ [DelNodeMultipleChildrens]\<rparr>)
   }"

subsection \<open>Loops, order and chunks\<close>

text \<open>
  A loop over a range threads the state through its body and stops at the first
  step without a result. \<open>sortBy\<close> stands for \<^verbatim>\<open>std::sort\<close> with a
  comparator.
\<close>

fun forEach :: "'a list \<Rightarrow> ('a \<Rightarrow> 's \<Rightarrow> 's option) \<Rightarrow> 's \<Rightarrow> 's option" where
  "forEach [] body s = Some s"
| "forEach (x # xs) body s = (case body x s of None \<Rightarrow> None | Some s' \<Rightarrow> forEach xs body s')"

fun insortBy :: "('a \<Rightarrow> 'a \<Rightarrow> bool) \<Rightarrow> 'a \<Rightarrow> 'a list \<Rightarrow> 'a list" where
  "insortBy lt x [] = [x]"
| "insortBy lt x (y # ys) = (if lt y x then y # insortBy lt x ys else x # y # ys)"

definition sortBy :: "('a \<Rightarrow> 'a \<Rightarrow> bool) \<Rightarrow> 'a list \<Rightarrow> 'a list" where
  "sortBy lt xs = foldr (insortBy lt) xs []"

text \<open>
  \<^verbatim>\<open>build\<close> sets the comparators from the tree type: the sweep order is
  \<^verbatim>\<open>isLower\<close> for a join tree and \<^verbatim>\<open>isHigher\<close> otherwise.
\<close>

definition vertLower :: "scalars \<Rightarrow> treeData \<Rightarrow> idVertex \<Rightarrow> idVertex \<Rightarrow> bool" where
  "vertLower sc t a b = (if treeType t = Join then isLower sc a b else isHigher sc a b)"

definition vertHigher :: "scalars \<Rightarrow> treeData \<Rightarrow> idVertex \<Rightarrow> idVertex \<Rightarrow> bool" where
  "vertHigher sc t a b = (if treeType t = Join then isHigher sc a b else isLower sc a b)"

definition isJT :: "treeData \<Rightarrow> bool" where
  "isJT t \<longleftrightarrow> treeType t = Join"

text \<open>
  Modelled from the spec: the chunk size policy (section 6) is a tunable declared in
  the header. It is a parameter here: \<open>getChunkSize p n k\<close> and
  \<open>getChunkCount p n k\<close> are the size and the number of the chunks for \<open>n\<close>
  items, \<open>k\<close> being the number of tasks a call passes, if it passes one.
\<close>

record params =
  getChunkSize :: "int \<Rightarrow> int option \<Rightarrow> int"
  getChunkCount :: "int \<Rightarrow> int option \<Rightarrow> int"

text \<open>
  A chunked loop gives chunk \<open>chunkId\<close> the indices from
  \<open>chunkId * chunkSize\<close> up to \<open>min n ((chunkId + 1) * chunkSize)\<close>, the bound
  left out. The tasks of the chunks are run one after the other, in the order of
  their creation.
\<close>

definition chunkRange :: "int \<Rightarrow> int \<Rightarrow> int \<Rightarrow> int list" where
  "chunkRange chunkSize n chunkId =
     [chunkId * chunkSize .. min n ((chunkId + 1) * chunkSize) - 1]"

definition forChunks :: "int \<Rightarrow> int \<Rightarrow> int \<Rightarrow> (int \<Rightarrow> 's \<Rightarrow> 's option) \<Rightarrow> 's \<Rightarrow> 's option" where
  "forChunks chunkNb chunkSize n body =
     forEach [0 .. chunkNb - 1] (\<lambda>chunkId. forEach (chunkRange chunkSize n chunkId) body)"

subsection \<open>Precompute\<close>

definition precomputeVertex :: "scalars \<Rightarrow> mesh \<Rightarrow> idVertex \<Rightarrow> treeData \<Rightarrow> treeData option" where
  "precomputeVertex sc msh v t = do {
     let val = fold (\<lambda>neigh val. if vertLower sc t neigh v then val + 1 else val) (msh v) 0;
     vs \<leftarrow> wr (valences t) v val;
     let t1 = t\<lparr>valences := vs\<rparr>;
     if val = 0 then map_option snd (makeNode sc v nullVertex t1) else Some t1
   }"

definition precompute :: "params \<Rightarrow> scalars \<Rightarrow> mesh \<Rightarrow> treeData \<Rightarrow> (int \<times> treeData) option" where
  "precompute p sc msh t = do {
     (ret, t1) \<leftarrow>
       (if getNumberOfNodes t = 0
        then map_option (Pair 0)
          (forChunks (getChunkCount p (sizeS sc) None) (getChunkSize p (sizeS sc) None) (sizeS sc)
             (precomputeVertex sc msh) t)
        else Some (1, t));
     let nbLeaves = int (length (nodes t1));
     Some (ret, t1\<lparr>leaves := [0 .. nbLeaves - 1]\<rparr>)
   }"

subsection \<open>Front queues and the union-find\<close>

text \<open>
  Modelled from the spec: the operations of \<^verbatim>\<open>CurrentState\<close> (section 4.A).
  \<open>newCurrentState\<close> allocates a queue, \<open>addNewVertex\<close> inserts a vertex,
  \<open>getNextMinVertex\<close> removes the minimum of the sweep order and records it as
  the vertex of the queue.
\<close>

definition newCurrentState :: "idVertex \<Rightarrow> treeData \<Rightarrow> int \<times> treeData" where
  "newCurrentState v t =
     (int (length (stateHeap t)), t\<lparr>stateHeap := stateHeap t @ [\<lparr>vertex = v, front = []\<rparr>]\<rparr>)"

definition modState :: "int \<Rightarrow> (currentState \<Rightarrow> currentState) \<Rightarrow> treeData \<Rightarrow> treeData option" where
  "modState cs f t = do {
     st \<leftarrow> rd (stateHeap t) cs;
     h \<leftarrow> wr (stateHeap t) cs (f st);
     Some (t\<lparr>stateHeap := h\<rparr>)
   }"

definition addNewVertex :: "int \<Rightarrow> idVertex \<Rightarrow> treeData \<Rightarrow> treeData option" where
  "addNewVertex cs v t = modState cs (\<lambda>st. st\<lparr>front := front st @ [v]\<rparr>) t"

definition sweepMin :: "(idVertex \<Rightarrow> idVertex \<Rightarrow> bool) \<Rightarrow> idVertex \<Rightarrow> idVertex list \<Rightarrow> idVertex" where
  "sweepMin lt x xs = fold (\<lambda>y m. if lt y m then y else m) xs x"

definition getNextMinVertex :: "scalars \<Rightarrow> int \<Rightarrow> treeData \<Rightarrow> (idVertex \<times> treeData) option" where
  "getNextMinVertex sc cs t = do {
     st \<leftarrow> rd (stateHeap t) cs;
     (case front st of
        [] \<Rightarrow> None
      | x # xs \<Rightarrow> do {
          let m = sweepMin (vertLower sc t) x xs;
          t1 \<leftarrow> modState cs (\<lambda>st. st\<lparr>vertex := m, front := remove1 m (front st)\<rparr>) t;
          Some (m, t1)
        })
   }"

text \<open>
  Modelled from the spec: \<^verbatim>\<open>AtomicUF\<close> (section 4.B). \<open>find\<close> follows the
  parent links to the root and compresses the path behind it. The fuel bounds the
  length of the path: a path longer than the heap has a cycle, on which the search
  would not end. \<open>makeUnion\<close> attaches the root that is earlier in the sweep order
  under the later one and moves its opened arcs and its queues to it.
\<close>

definition newAtomicUF :: "idVertex \<Rightarrow> treeData \<Rightarrow> int \<times> treeData" where
  "newAtomicUF v t =
     (int (length (ufHeap t)),
      t\<lparr>ufHeap := ufHeap t @
          [\<lparr>parent = length (ufHeap t), extrema = v, states = [], openedArcs = []\<rparr>]\<rparr>)"

fun ufFind :: "nat \<Rightarrow> nat \<Rightarrow> atomicUF list \<Rightarrow> (nat \<times> atomicUF list) option" where
  "ufFind 0 i h = None"
| "ufFind (Suc k) i h =
     (if length h \<le> i then None
      else if parent (h ! i) = i then Some (i, h)
      else (case ufFind k (parent (h ! i)) h of
              None \<Rightarrow> None
            | Some (r, h') \<Rightarrow> Some (r, h'[i := (h' ! i)\<lparr>parent := r\<rparr>])))"

definition findUF :: "int \<Rightarrow> treeData \<Rightarrow> (int \<times> treeData) option" where
  "findUF u t =
     (if u < 0 then None
      else map_option (\<lambda>(r, h). (int r, t\<lparr>ufHeap := h\<rparr>))
             (ufFind (length (ufHeap t)) (nat u) (ufHeap t)))"

definition modUF :: "int \<Rightarrow> (atomicUF \<Rightarrow> atomicUF) \<Rightarrow> treeData \<Rightarrow> treeData option" where
  "modUF u f t = do {
     e \<leftarrow> rd (ufHeap t) u;
     h \<leftarrow> wr (ufHeap t) u (f e);
     Some (t\<lparr>ufHeap := h\<rparr>)
   }"

definition makeUnion :: "scalars \<Rightarrow> int \<Rightarrow> int \<Rightarrow> treeData \<Rightarrow> (int \<times> treeData) option" where
  "makeUnion sc uf0 uf1 t = do {
     (r0, t1) \<leftarrow> findUF uf0 t;
     (r1, t2) \<leftarrow> findUF uf1 t1;
     if r0 = r1 then Some (r0, t2)
     else do {
       e0 \<leftarrow> rd (ufHeap t2) r0;
       e1 \<leftarrow> rd (ufHeap t2) r1;
       let (child, rep) =
         (if vertLower sc t2 (extrema e0) (extrema e1) then (r0, r1) else (r1, r0));
       c \<leftarrow> rd (ufHeap t2) child;
       t3 \<leftarrow> modUF rep (\<lambda>e. e\<lparr>states := states e @ states c,
                                openedArcs := openedArcs e @ openedArcs c\<rparr>) t2;
       t4 \<leftarrow> modUF child (\<lambda>e. e\<lparr>parent := nat rep, states := [], openedArcs := []\<rparr>) t3;
       Some (rep, t4)
     }
   }"

text \<open>
  \<open>deref\<close> reads an entry of \<^verbatim>\<open>ufs\<close> or of \<^verbatim>\<open>propagation\<close> that the
  code dereferences: the null pointer has no result.
\<close>

definition deref :: "int option list \<Rightarrow> idVertex \<Rightarrow> int option" where
  "deref arr v = (case rd arr v of Some (Some u) \<Rightarrow> Some u | _ \<Rightarrow> None)"

definition mergeStates :: "int \<Rightarrow> treeData \<Rightarrow> treeData option" where
  "mergeStates u t = do {
     e \<leftarrow> rd (ufHeap t) u;
     (case states e of
        [] \<Rightarrow> Some t
      | s # ss \<Rightarrow> do {
          t1 \<leftarrow> forEach ss (\<lambda>s' t. do {
                  other \<leftarrow> rd (stateHeap t) s';
                  modState s (\<lambda>st. st\<lparr>front := front st @ front other\<rparr>) t
                }) t;
          modUF u (\<lambda>e. e\<lparr>states := [s]\<rparr>) t1
        })
   }"

text \<open>
  Modelled from the spec: the accessors of a super-arc. \<open>setLastVisited\<close> records
  the vertex and counts the visit, \<open>decrNbSeen\<close> and \<open>atomicIncVisited\<close>
  change the count of visited vertices, \<open>getNbVertSeen\<close> reads it.
\<close>

definition setLastVisited :: "idVertex \<Rightarrow> superArc \<Rightarrow> superArc" where
  "setLastVisited v a = a\<lparr>lastVisited := v, verticesSeen := verticesSeen a + 1\<rparr>"

definition decrNbSeen :: "superArc \<Rightarrow> superArc" where
  "decrNbSeen a = a\<lparr>verticesSeen := verticesSeen a - 1\<rparr>"

definition atomicIncVisited :: "idVertex \<Rightarrow> superArc \<Rightarrow> superArc" where
  "atomicIncVisited nb a = a\<lparr>verticesSeen := verticesSeen a + nb\<rparr>"

definition getNbVertSeen :: "superArc \<Rightarrow> idVertex" where
  "getNbVertSeen a = verticesSeen a"

subsection \<open>The sweep of a leaf task\<close>

definition propageNeigh ::
  "scalars \<Rightarrow> int \<Rightarrow> int \<Rightarrow> idVertex \<Rightarrow> idVertex \<Rightarrow> bool \<times> valence \<times> treeData
     \<Rightarrow> (bool \<times> valence \<times> treeData) option" where
  "propageNeigh sc cs curUFF v neigh = (\<lambda>(becameSaddle, decr, t).
     if vertLower sc t neigh v then do {
       neighUF \<leftarrow> rd (ufs t) neigh;
       (case neighUF of
          None \<Rightarrow> Some (True, decr, t)
        | Some nu \<Rightarrow> do {
            (r, t1) \<leftarrow> findUF nu t;
            if r \<noteq> curUFF then Some (True, decr, t1) else Some (becameSaddle, decr + 1, t1)
          })
     } else do {
       pr \<leftarrow> rd (propagation t) neigh;
       (other, t1) \<leftarrow>
         (case pr of
            None \<Rightarrow> Some (True, t)
          | Some pu \<Rightarrow> do { (r, t1) \<leftarrow> findUF pu t; Some (r \<noteq> curUFF, t1) });
       if other then do {
         t2 \<leftarrow> addNewVertex cs neigh t1;
         prs \<leftarrow> wr (propagation t2) neigh (Some curUFF);
         Some (becameSaddle, decr, t2\<lparr>propagation := prs\<rparr>)
       } else Some (becameSaddle, decr, t1)
     })"

definition propage :: "scalars \<Rightarrow> mesh \<Rightarrow> int \<Rightarrow> int \<Rightarrow> treeData \<Rightarrow> ((bool \<times> bool) \<times> treeData) option" where
  "propage sc msh cs curUF t = do {
     st \<leftarrow> rd (stateHeap t) cs;
     let v = vertex st;
     (curUFF, t1) \<leftarrow> findUF curUF t;
     (becameSaddle, decr, t2) \<leftarrow> forEach (msh v) (propageNeigh sc cs curUFF v) (False, 0, t1);
     oldVal \<leftarrow> rd (valences t2) v;
     vs \<leftarrow> wr (valences t2) v (oldVal - decr);
     Some ((becameSaddle, oldVal = decr), t2\<lparr>valences := vs\<rparr>)
   }"

definition closeArcsUF :: "idNode \<Rightarrow> int \<Rightarrow> treeData \<Rightarrow> treeData option" where
  "closeArcsUF closeNode uf t = do {
     (r, t1) \<leftarrow> findUF uf t;
     e \<leftarrow> rd (ufHeap t1) r;
     t2 \<leftarrow> forEach (openedArcs e) (\<lambda>sa. closeSuperArc sa closeNode) t1;
     (r', t3) \<leftarrow> findUF uf t2;
     modUF r' (\<lambda>e. e\<lparr>openedArcs := []\<rparr>) t3
   }"

definition unionNeigh :: "scalars \<Rightarrow> idVertex \<Rightarrow> idVertex \<Rightarrow> treeData \<Rightarrow> treeData option" where
  "unionNeigh sc saddleVert neigh t = do {
     nu \<leftarrow> deref (ufs t) neigh;
     su \<leftarrow> deref (ufs t) saddleVert;
     (rn, t1) \<leftarrow> findUF nu t;
     (rs, t2) \<leftarrow> findUF su t1;
     if rn \<noteq> rs then do {
       (r, t3) \<leftarrow> makeUnion sc su nu t2;
       us \<leftarrow> wr (ufs t3) saddleVert (Some r);
       Some (t3\<lparr>ufs := us\<rparr>)
     } else Some t2
   }"

definition closeAndMergeOnSaddle :: "scalars \<Rightarrow> mesh \<Rightarrow> idVertex \<Rightarrow> treeData \<Rightarrow> treeData option" where
  "closeAndMergeOnSaddle sc msh saddleVert t = do {
     (closeNode, t1) \<leftarrow> makeNode sc saddleVert nullVertex t;
     t2 \<leftarrow> forEach (msh saddleVert) (\<lambda>neigh t.
             if vertLower sc t neigh saddleVert then unionNeigh sc saddleVert neigh t
             else Some t) t1;
     su \<leftarrow> deref (ufs t2) saddleVert;
     t3 \<leftarrow> closeArcsUF closeNode su t2;
     su3 \<leftarrow> deref (ufs t3) saddleVert;
     (r, t4) \<leftarrow> findUF su3 t3;
     t5 \<leftarrow> mergeStates r t4;
     su5 \<leftarrow> deref (ufs t5) saddleVert;
     (r', t6) \<leftarrow> findUF su5 t5;
     modUF r' (\<lambda>e. e\<lparr>extrema := saddleVert\<rparr>) t6
   }"

definition closeOnBackBone :: "scalars \<Rightarrow> mesh \<Rightarrow> idVertex \<Rightarrow> treeData \<Rightarrow> treeData option" where
  "closeOnBackBone sc msh saddleVert t = do {
     (closeNode, t1) \<leftarrow> makeNode sc saddleVert nullVertex t;
     t2 \<leftarrow> forEach (msh saddleVert) (\<lambda>neigh t.
             if vertLower sc t neigh saddleVert then do {
               nu \<leftarrow> rd (ufs t) neigh;
               if nu \<noteq> None then unionNeigh sc saddleVert neigh t else Some t
             } else Some t) t1;
     su \<leftarrow> deref (ufs t2) saddleVert;
     closeArcsUF closeNode su t2
   }"

definition closeRoot :: "scalars \<Rightarrow> idSuperArc \<Rightarrow> treeData \<Rightarrow> treeData option" where
  "closeRoot sc currentArc t = do {
     a \<leftarrow> rd (superArcs t) currentArc;
     let closeVert = lastVisited a;
     existCloseNode \<leftarrow> isCorrespondingNode t closeVert;
     (closeNode, t1) \<leftarrow>
       (if existCloseNode then do { n \<leftarrow> getCorrespondingNodeId t closeVert; Some (n, t) }
        else makeNode sc closeVert nullVertex t);
     t2 \<leftarrow> closeSuperArc currentArc closeNode t1;
     t3 \<leftarrow> modSuperArc currentArc decrNbSeen t2;
     Some (t3\<lparr>roots := roots t3 @ [closeNode]\<rparr>)
   }"

text \<open>
  \<^verbatim>\<open>processTask\<close> in three parts. \<open>setUpTask\<close> is the code before the
  loop: it gives the representative, the queue and the arc opened. \<open>nextVertex\<close>
  is the head of a turn of the loop: the queue is drained, or the vertex popped is
  skipped, or it is accepted (with the new value of \<^verbatim>\<open>seenFirst\<close>).
  \<open>visitVertex\<close> is the rest of the turn on an accepted vertex: the task stops
  at a saddle, or it has merged the fronts at the saddle and goes on from there, or
  it has propagated over a regular vertex. The depth statistic (\<^verbatim>\<open>_maxDepth\<close>
  of the builds with \<^verbatim>\<open>withStatsHeight\<close>) is kept: it is what the depth of a
  task is passed for.
\<close>

definition setUpTask ::
  "scalars \<Rightarrow> idVertex \<Rightarrow> idNode \<Rightarrow> treeData \<Rightarrow> (int \<times> int \<times> idSuperArc \<times> treeData) option" where
  "setUpTask sc startVert d t = do {
     let t0 = (if d > maxDepth t then t\<lparr>maxDepth := d\<rparr> else t);
     su \<leftarrow> deref (ufs t0) startVert;
     (startUF, t1) \<leftarrow> findUF su t0;
     e \<leftarrow> rd (ufHeap t1) startUF;
     (currentState, t2) \<leftarrow>
       (case states e of
          s # _ \<Rightarrow> Some (s, t1)
        | [] \<Rightarrow> do {
            let (s, t') = newCurrentState startVert t1;
            t'' \<leftarrow> modUF startUF (\<lambda>e. e\<lparr>states := states e @ [s]\<rparr>) t';
            Some (s, t'')
          });
     t3 \<leftarrow> addNewVertex currentState startVert t2;
     startNode \<leftarrow> getCorrespondingNodeId t3 startVert;
     (currentArc, t4) \<leftarrow> openSuperArc startNode t3;
     t5 \<leftarrow> modUF startUF (\<lambda>e. e\<lparr>openedArcs := openedArcs e @ [currentArc]\<rparr>) t4;
     Some (startUF, currentState, currentArc, t5)
   }"

datatype chosen = Drained | Skipped treeData | Accepted bool idVertex treeData

definition nextVertex :: "scalars \<Rightarrow> idVertex \<Rightarrow> int \<Rightarrow> bool \<Rightarrow> treeData \<Rightarrow> chosen option" where
  "nextVertex sc startVert currentState seenFirst t = do {
     st \<leftarrow> rd (stateHeap t) currentState;
     if front st = [] then Some Drained
     else do {
       (currentVert, t1) \<leftarrow> getNextMinVertex sc currentState t;
       isNull \<leftarrow> isCorrespondingNull t1 currentVert;
       isNode \<leftarrow> isCorrespondingNode t1 currentVert;
       if \<not> isNull \<and> \<not> isNode then Some (Skipped t1)
       else if currentVert = startVert
       then (if \<not> seenFirst then Some (Accepted True currentVert t1) else Some (Skipped t1))
       else Some (Accepted seenFirst currentVert t1)
     }
   }"

datatype visited = Stopped treeData | Merged treeData | Propagated treeData

definition visitVertex ::
  "scalars \<Rightarrow> mesh \<Rightarrow> idVertex \<Rightarrow> int \<Rightarrow> int \<Rightarrow> idSuperArc \<Rightarrow> idVertex \<Rightarrow> treeData
     \<Rightarrow> visited option" where
  "visitVertex sc msh startVert startUF currentState currentArc currentVert t = do {
     ((isSaddle, isLast), t2) \<leftarrow> propage sc msh currentState startUF t;
     us \<leftarrow> wr (ufs t2) currentVert (Some startUF);
     let t3 = t2\<lparr>ufs := us\<rparr>;
     if isSaddle then do {
       opened \<leftarrow> wr (openedNodes t3) currentVert 1;
       let t4 = t3\<lparr>openedNodes := opened\<rparr>;
       if isLast then
         (if activeTasks t4 = 1 then Some (Stopped t4)
          else do {
            t5 \<leftarrow> closeAndMergeOnSaddle sc msh currentVert t4;
            closed \<leftarrow> wr (openedNodes t5) currentVert 0;
            Some (Merged (t5\<lparr>openedNodes := closed\<rparr>))
          })
       else Some (Stopped (t4\<lparr>activeTasks := activeTasks t4 - 1\<rparr>))
     } else do {
       t4 \<leftarrow> (if currentVert \<noteq> startVert
              then updateCorrespondingArc currentVert currentArc t3 else Some t3);
       t5 \<leftarrow> modSuperArc currentArc (setLastVisited currentVert) t4;
       Some (Propagated t5)
     }
   }"

text \<open>
  The task recurses at a saddle and its loop has no bound in the code:
  \<open>processTask\<close> and its loop \<open>taskLoop\<close> take fuel, one unit for each call
  and each turn of the loop.
\<close>

fun processTask ::
  "nat \<Rightarrow> scalars \<Rightarrow> mesh \<Rightarrow> idVertex \<Rightarrow> idNode \<Rightarrow> idVertex \<Rightarrow> treeData \<Rightarrow> treeData option"
and taskLoop ::
  "nat \<Rightarrow> scalars \<Rightarrow> mesh \<Rightarrow> idVertex \<Rightarrow> idNode \<Rightarrow> idVertex \<Rightarrow> int \<Rightarrow> int \<Rightarrow> idSuperArc \<Rightarrow> bool
     \<Rightarrow> treeData \<Rightarrow> treeData option" where
  "processTask 0 sc msh startVert d orig t = None"
| "processTask (Suc k) sc msh startVert d orig t =
     (case setUpTask sc startVert d t of
        None \<Rightarrow> None
      | Some (startUF, currentState, currentArc, t') \<Rightarrow>
          taskLoop k sc msh startVert d orig startUF currentState currentArc False t')"
| "taskLoop 0 sc msh startVert d orig startUF currentState currentArc seenFirst t = None"
| "taskLoop (Suc k) sc msh startVert d orig startUF currentState currentArc seenFirst t =
     (case nextVertex sc startVert currentState seenFirst t of
        None \<Rightarrow> None
      | Some Drained \<Rightarrow> closeRoot sc currentArc t
      | Some (Skipped t1) \<Rightarrow>
          taskLoop k sc msh startVert d orig startUF currentState currentArc seenFirst t1
      | Some (Accepted seenFirst' currentVert t1) \<Rightarrow>
          (case visitVertex sc msh startVert startUF currentState currentArc currentVert t1 of
             None \<Rightarrow> None
           | Some (Stopped t2) \<Rightarrow> Some t2
           | Some (Merged t2) \<Rightarrow> processTask k sc msh currentVert (d + 1) orig t2
           | Some (Propagated t2) \<Rightarrow>
               taskLoop k sc msh startVert d orig startUF currentState currentArc seenFirst' t2))"

text \<open>
  \<^verbatim>\<open>leaves\<close> launches one task for each leaf. The tasks are run one after the
  other in the order of their creation, each to its end: the schedule of one
  thread. The function is named \<open>launchLeaves\<close>, \<open>leaves\<close> being the list.
\<close>

definition launchLeaves :: "nat \<Rightarrow> scalars \<Rightarrow> mesh \<Rightarrow> treeData \<Rightarrow> treeData option" where
  "launchLeaves fuel sc msh t =
     (let nbLeaves = int (length (leaves t)) in
      if nbLeaves = 1 then do {
        n0 \<leftarrow> rd (nodes t) 0;
        let v = vertexId n0;
        opened \<leftarrow> wr (openedNodes t) v 1;
        let (u, t1) = newAtomicUF v (t\<lparr>openedNodes := opened\<rparr>);
        us \<leftarrow> wr (ufs t1) v (Some u);
        Some (t1\<lparr>ufs := us\<rparr>)
      } else
        (if \<not> list_all (\<lambda>l. inRange l (nodes t)) (leaves t) then None
         else do {
           let t1 = t\<lparr>activeTasks := nbLeaves\<rparr>;
           let comp = (\<lambda>a b. vertLower sc t1 (vertexId (nodes t1 ! nat a))
                                            (vertexId (nodes t1 ! nat b)));
           let t2 = t1\<lparr>leaves := sortBy comp (leaves t1)\<rparr>;
           forEach [0 .. nbLeaves - 1] (\<lambda>n t. do {
               l \<leftarrow> rd (leaves t) n;
               nd \<leftarrow> rd (nodes t) l;
               let v = vertexId nd;
               let (u, t') = newAtomicUF v t;
               us \<leftarrow> wr (ufs t') v (Some u);
               processTask fuel sc msh v 0 n (t'\<lparr>ufs := us\<rparr>)
             }) t2
         }))"

subsection \<open>Trunk\<close>

function getVertInRange ::
  "(idVertex \<Rightarrow> idVertex \<Rightarrow> bool) \<Rightarrow> idVertex list \<Rightarrow> idVertex \<Rightarrow> idNode \<Rightarrow> idNode option" where
  "getVertInRange lt rng v idRes =
     (if idRes + 1 < int (length rng)
      then (case rd rng (idRes + 1) of
              None \<Rightarrow> None
            | Some r \<Rightarrow> if lt r v then getVertInRange lt rng v (idRes + 1) else Some idRes)
      else Some idRes)"
  by pat_completeness auto
termination
  by (relation "measure (\<lambda>(lt, rng, v, idRes). nat (int (length rng) - idRes))") auto

definition getBoundsFromVerts :: "scalars \<Rightarrow> treeData \<Rightarrow> idVertex list \<Rightarrow> (idVertex \<times> idVertex) option" where
  "getBoundsFromVerts sc t nds = do {
     n0 \<leftarrow> rd nds 0;
     begin \<leftarrow> rd (mirrorVertices sc) n0;
     Some (begin, if isJT t then sizeS sc else -1)
   }"

text \<open>
  Modelled from the spec: \<^verbatim>\<open>upArcFromVert\<close> is declared in the header; it is
  the first up super-arc of the node on the vertex (section 4.F, step 4).
\<close>

definition upArcFromVert :: "treeData \<Rightarrow> idVertex \<Rightarrow> idSuperArc option" where
  "upArcFromVert t v = do {
     n \<leftarrow> getCorrespondingNodeId t v;
     nd \<leftarrow> rd (nodes t) n;
     rd (upSuperArcs nd) 0
   }"

definition assignChunkTrunk ::
  "scalars \<Rightarrow> idVertex list \<Rightarrow> idVertex \<Rightarrow> idNode \<times> idVertex \<times> treeData
     \<Rightarrow> (idNode \<times> idVertex \<times> treeData) option" where
  "assignChunkTrunk sc pendingVerts v = (\<lambda>(lastVertInRange, acc, t). do {
     s \<leftarrow> rd (sortedVertices sc) v;
     isNull \<leftarrow> isCorrespondingNull t s;
     if isNull then do {
       let oldVertInRange = lastVertInRange;
       lastVertInRange \<leftarrow> getVertInRange (vertLower sc t) pendingVerts s lastVertInRange;
       pv \<leftarrow> rd pendingVerts lastVertInRange;
       thisArc \<leftarrow> upArcFromVert t pv;
       t1 \<leftarrow> updateCorrespondingArc s thisArc t;
       if oldVertInRange = lastVertInRange then Some (lastVertInRange, acc + 1, t1)
       else do {
         po \<leftarrow> rd pendingVerts oldVertInRange;
         oldArc \<leftarrow> upArcFromVert t1 po;
         t2 \<leftarrow> modSuperArc oldArc (atomicIncVisited acc) t1;
         Some (lastVertInRange, 1, t2)
       }
     } else Some (lastVertInRange, acc, t)
   })"

text \<open>
  The first part of \<^verbatim>\<open>trunk\<close>, up to the closing of the last arc on the root:
  it gives the pending vertices and the tree.
\<close>

definition pendingVertsOf :: "scalars \<Rightarrow> treeData \<Rightarrow> idVertex list option" where
  "pendingVertsOf sc t =
     map_option (sortBy (vertLower sc t))
       (forEach [0 .. sizeS sc - 1] (\<lambda>v pending. do {
            opened \<leftarrow> rd (openedNodes t) v;
            Some (if opened \<noteq> 0 then pending @ [v] else pending)
          }) [])"

definition trunkArcs :: "scalars \<Rightarrow> mesh \<Rightarrow> treeData \<Rightarrow> (idVertex list \<times> treeData) option" where
  "trunkArcs sc msh t = do {
     pendingVerts \<leftarrow> pendingVertsOf sc t;
     t1 \<leftarrow> forEach pendingVerts (closeOnBackBone sc msh) t;
     let nbNodes = int (length pendingVerts);
     t2 \<leftarrow> forEach [1 .. nbNodes - 1] (\<lambda>n t. do {
             pd \<leftarrow> rd pendingVerts (n - 1);
             pu \<leftarrow> rd pendingVerts n;
             d \<leftarrow> getCorrespondingNodeId t pd;
             u \<leftarrow> getCorrespondingNodeId t pu;
             (na, t') \<leftarrow> makeSuperArc d u t;
             modSuperArc na (setLastVisited pu) t'
           }) t1;
     if nbNodes = 0 then Some (pendingVerts, t2)
     else do {
       pl \<leftarrow> rd pendingVerts (nbNodes - 1);
       d \<leftarrow> getCorrespondingNodeId t2 pl;
       (lastArc, t3) \<leftarrow> openSuperArc d t2;
       extremum \<leftarrow> rd (sortedVertices sc) (if isJT t3 then sizeS sc - 1 else 0);
       (rootNode, t4) \<leftarrow> makeNode sc extremum nullVertex t3;
       t5 \<leftarrow> closeSuperArc lastArc rootNode t4;
       rn \<leftarrow> rd (nodes t5) rootNode;
       t6 \<leftarrow> modSuperArc lastArc (setLastVisited (vertexId rn)) t5;
       Some (pendingVerts, t6)
     }
   }"

text \<open>
  The second part of \<^verbatim>\<open>trunk\<close> assigns the vertices of the backbone to the
  arcs, by chunks. \<^verbatim>\<open>lastVertInRange\<close> and \<^verbatim>\<open>acc\<close> are local variables
  of \<^verbatim>\<open>trunk\<close> that the task of a chunk names in no clause: the task works on
  its own copies, which start from the values at its creation, both 0.
\<close>

definition trunkChunk :: "scalars \<Rightarrow> idVertex list \<Rightarrow> idVertex list \<Rightarrow> treeData \<Rightarrow> treeData option" where
  "trunkChunk sc pendingVerts vs t = do {
     (lastVertInRange, acc, t1) \<leftarrow> forEach vs (assignChunkTrunk sc pendingVerts) (0, 0, t);
     pv \<leftarrow> rd pendingVerts lastVertInRange;
     baseNode \<leftarrow> getCorrespondingNodeId t1 pv;
     nd \<leftarrow> rd (nodes t1) baseNode;
     upArc \<leftarrow> rd (upSuperArcs nd) 0;
     modSuperArc upArc (atomicIncVisited acc) t1
   }"

definition trunk :: "params \<Rightarrow> scalars \<Rightarrow> mesh \<Rightarrow> treeData \<Rightarrow> (idVertex \<times> treeData) option" where
  "trunk p sc msh t = do {
     (pendingVerts, t1) \<leftarrow> trunkArcs sc msh t;
     if pendingVerts = [] then Some (0, t1)
     else do {
       (begin, stop) \<leftarrow> getBoundsFromVerts sc t1 pendingVerts;
       let sizeBackBone = \<bar>stop - begin\<bar>;
       let chunkSize = getChunkSize p sizeBackBone (Some 40);
       let chunkNb = getChunkCount p sizeBackBone (Some 40);
       t2 \<leftarrow>
         (if isJT t1 then
            forEach [0 .. chunkNb - 1] (\<lambda>chunkId.
              trunkChunk sc pendingVerts
                [begin + chunkId * chunkSize .. min stop (begin + (chunkId + 1) * chunkSize) - 1]) t1
          else
            forEach (rev [0 .. chunkNb - 1]) (\<lambda>chunkId.
              trunkChunk sc pendingVerts
                (rev [max stop (begin - (chunkId + 1) * chunkSize) + 1 .. begin - chunkId * chunkSize])) t1);
       Some (sizeBackBone, t2)
     }
   }"

subsection \<open>Segmentation\<close>

text \<open>
  Modelled from the spec: the segments (\<^verbatim>\<open>treeData_.segments_\<close>) and their
  operations \<^verbatim>\<open>resize\<close> and \<^verbatim>\<open>sortAll\<close> are declared outside this file.
  \<open>resizeSegments\<close> allocates one segment for each size. \<open>sortAll\<close> sorts
  every segment in the sweep order of the tree (section 4.F, step 5: "Finally sort
  every arc's region in sweep order"), which is the order \<open>vertLower\<close>.
\<close>

definition resizeSegments :: "idVertex list \<Rightarrow> idVertex list list" where
  "resizeSegments sizes = map (\<lambda>n. replicate (nat n) nullVertex) sizes"

definition sortAll :: "scalars \<Rightarrow> treeData \<Rightarrow> idVertex list list \<Rightarrow> idVertex list list" where
  "sortAll sc t segs = map (sortBy (vertLower sc t)) segs"

definition fillSegment :: "scalars \<Rightarrow> int \<Rightarrow> int list \<times> treeData \<Rightarrow> (int list \<times> treeData) option" where
  "fillSegment sc i = (\<lambda>(posSegm, t). do {
     vert \<leftarrow> rd (sortedVertices sc) i;
     isArc \<leftarrow> isCorrespondingArc t vert;
     if isArc then do {
       sa \<leftarrow> getCorrespondingSuperArcId t vert;
       vertToAdd \<leftarrow> rd posSegm sa;
       posSegm' \<leftarrow> wr posSegm sa (vertToAdd + 1);
       seg \<leftarrow> rd (segments t) sa;
       seg' \<leftarrow> wr seg vertToAdd vert;
       segs \<leftarrow> wr (segments t) sa seg';
       Some (posSegm', t\<lparr>segments := segs\<rparr>)
     } else Some (posSegm, t)
   })"

definition buildSegmentation :: "params \<Rightarrow> scalars \<Rightarrow> treeData \<Rightarrow> treeData option" where
  "buildSegmentation p sc t = do {
     let nbArcs = int (length (superArcs t));
     let arcChunkSize = getChunkSize p nbArcs None;
     let arcChunkNb = getChunkCount p nbArcs None;
     sizes \<leftarrow> forChunks arcChunkNb arcChunkSize nbArcs (\<lambda>a sizes. do {
                arc \<leftarrow> rd (superArcs t) a;
                wr sizes a (max 0 (getNbVertSeen arc - 1))
              }) (replicate (nat nbArcs) 0);
     let t1 = t\<lparr>segments := resizeSegments sizes\<rparr>;
     let nbVert = sizeS sc;
     (posSegm, t2) \<leftarrow> forChunks (getChunkCount p nbVert None) (getChunkSize p nbVert None) nbVert
                        (fillSegment sc) (replicate (nat nbArcs) 0, t1);
     let t3 = t2\<lparr>segments := sortAll sc t2 (segments t2)\<rparr>;
     forChunks arcChunkNb arcChunkSize nbArcs (\<lambda>a t. do {
         seg \<leftarrow> rd (segments t) a;
         if length seg \<noteq> 0 then modSuperArc a (\<lambda>arc. arc\<lparr>region := region arc @ seg\<rparr>) t
         else Some t
       }) t3
   }"

subsection \<open>Build\<close>

definition build :: "params \<Rightarrow> scalars \<Rightarrow> mesh \<Rightarrow> nat \<Rightarrow> bool \<Rightarrow> treeData \<Rightarrow> treeData option" where
  "build p sc msh fuel ct t = do {
     (alreadyDone, t1) \<leftarrow> precompute p sc msh t;
     t2 \<leftarrow> launchLeaves fuel sc msh t1;
     (bbSize, t3) \<leftarrow> trunk p sc msh t2;
     if ct then buildSegmentation p sc t3 else Some t3
   }"

text \<open>
  Modelled from the spec: the tree before a build (section 4.C) has no node and no
  arc, and its flat arrays have one entry for each vertex: \<^verbatim>\<open>vert2tree\<close> nil,
  the valences 0, no union-find pointer and no opened node.
\<close>

definition initTree :: "treeType \<Rightarrow> scalars \<Rightarrow> treeData" where
  "initTree tt sc =
     \<lparr>treeType = tt, superArcs = [], nodes = [], roots = [], leaves = [],
      vert2tree = replicate (nat (sizeS sc)) CNil,
      ufs = replicate (nat (sizeS sc)) None,
      propagation = replicate (nat (sizeS sc)) None,
      valences = replicate (nat (sizeS sc)) 0,
      openedNodes = replicate (nat (sizeS sc)) 0,
      activeTasks = 0, segments = [], ufHeap = [], stateHeap = [],
      maxDepth = 1, cout = [], cerr = []\<rparr>"

subsection \<open>Views of the tree\<close>

text \<open>
  The fields that no operation on nodes, super-arcs, queues and union-find
  elements writes: the proofs carry them across such operations in one piece.
\<close>

definition untouched ::
  "treeData \<Rightarrow> treeType \<times> int list \<times> valence list \<times> int option list \<times> idNode list
     \<times> idNode list \<times> idNode \<times> idVertex list list \<times> idNode \<times> message list" where
  "untouched t = (treeType t, openedNodes t, valences t, propagation t, roots t, leaves t,
     activeTasks t, segments t, maxDepth t, cerr t)"

text \<open>
  The number of the neighbours of a vertex that are lower in the sweep order, and
  the node that \<^verbatim>\<open>precompute\<close> creates for a leaf.
\<close>

definition lowerCount :: "scalars \<Rightarrow> treeData \<Rightarrow> mesh \<Rightarrow> idVertex \<Rightarrow> valence" where
  "lowerCount sc t msh v = int (length (filter (\<lambda>neigh. vertLower sc t neigh v) (msh v)))"

definition leafNode :: "idVertex \<Rightarrow> node" where
  "leafNode v = \<lparr>vertexId = v, terminaison = nullVertex, upSuperArcs = [], downSuperArcs = []\<rparr>"

text \<open>
  The class of a union-find element, read without changing the heap: \<open>ufRoot\<close>
  follows the parent links to the root, with the fuel of \<open>ufFind\<close>, and
  \<open>ufClass\<close> is the root of a pointer. A heap is well formed when every
  element reaches a root. \<open>compressed h h'\<close> says that \<open>h'\<close> is \<open>h\<close> with
  some parent links replaced by the root of their element.
\<close>

fun ufRoot :: "nat \<Rightarrow> nat \<Rightarrow> atomicUF list \<Rightarrow> nat option" where
  "ufRoot 0 i h = None"
| "ufRoot (Suc k) i h =
     (if length h \<le> i then None
      else if parent (h ! i) = i then Some i
      else ufRoot k (parent (h ! i)) h)"

definition ufClass :: "treeData \<Rightarrow> int \<Rightarrow> int option" where
  "ufClass t u =
     (if u < 0 then None
      else map_option int (ufRoot (length (ufHeap t)) (nat u) (ufHeap t)))"

definition ufWf :: "atomicUF list \<Rightarrow> bool" where
  "ufWf h \<longleftrightarrow> list_all (\<lambda>i. ufRoot (length h) i h \<noteq> None) [0 ..< length h]"

definition compressed :: "atomicUF list \<Rightarrow> atomicUF list \<Rightarrow> bool" where
  "compressed h h' \<longleftrightarrow> length h' = length h
     \<and> (\<forall>j < length h. parent (h' ! j) = parent (h ! j)
           \<or> (\<exists>k. ufRoot k j h = Some (parent (h' ! j))))"

definition ufSame :: "atomicUF list \<Rightarrow> atomicUF list \<Rightarrow> bool" where
  "ufSame h h' \<longleftrightarrow> length h' = length h
     \<and> (\<forall>j. ufRoot (length h) j h' = ufRoot (length h) j h)"

text \<open>
  The neighbours of a vertex that are lower in the sweep order and owned by the
  class of a union-find element: \<^verbatim>\<open>propage\<close> counts them in \<^verbatim>\<open>decr\<close>.
\<close>

definition ownedLower :: "scalars \<Rightarrow> treeData \<Rightarrow> mesh \<Rightarrow> idVertex \<Rightarrow> int \<Rightarrow> idVertex list" where
  "ownedLower sc t msh v curUF =
     filter (\<lambda>neigh. vertLower sc t neigh v
               \<and> (case rd (ufs t) neigh of
                    Some (Some nu) \<Rightarrow> ufClass t nu = ufClass t curUF
                  | _ \<Rightarrow> False))
       (msh v)"

text \<open>
  The vertices that \<^verbatim>\<open>vert2tree\<close> gives to an arc, in the order of the scan of
  \<^verbatim>\<open>buildSegmentation\<close>, and a list sorted in the sweep order of the tree.
\<close>

definition arcVertices :: "scalars \<Rightarrow> treeData \<Rightarrow> idSuperArc \<Rightarrow> idVertex list" where
  "arcVertices sc t a =
     filter (\<lambda>v. rd (vert2tree t) v = Some (CArc a))
       (map (\<lambda>i. sortedVertices sc ! nat i) [0 .. sizeS sc - 1])"

definition sweepSorted :: "scalars \<Rightarrow> treeData \<Rightarrow> idVertex list \<Rightarrow> bool" where
  "sweepSorted sc t xs \<longleftrightarrow> sorted_wrt (\<lambda>x y. \<not> vertLower sc t y x) xs"

text \<open>
  The state of the second pass of \<^verbatim>\<open>buildSegmentation\<close>: the segment of
  every arc \<open>a\<close> starts with the vertices \<open>pre a\<close> written so far, the rest being
  as allocated, and \<^verbatim>\<open>posSegm\<close> holds their number.
\<close>

definition filled :: "(nat \<Rightarrow> idVertex list) \<Rightarrow> int list \<Rightarrow> idVertex list list \<Rightarrow> bool" where
  "filled pre pos segs \<longleftrightarrow> length pos = length segs
     \<and> (\<forall>a < length segs. \<exists>k. pos ! a = int (length (pre a))
           \<and> segs ! a = pre a @ replicate k nullVertex)"

text \<open>
  The elements that \<open>ufRoot\<close> visits from an element to its root.
\<close>

fun ufPath :: "nat \<Rightarrow> nat \<Rightarrow> atomicUF list \<Rightarrow> nat list" where
  "ufPath 0 i h = []"
| "ufPath (Suc k) i h =
     (if length h \<le> i then []
      else if parent (h ! i) = i then [i]
      else i # ufPath k (parent (h ! i)) h)"

text \<open>
  The arcs of the trunk. \<open>nodeOf\<close> is the node that \<^verbatim>\<open>vert2tree\<close> gives
  for a vertex, \<open>trunkExtremum\<close> the last vertex of the sweep, \<open>rootOf\<close> the
  node of this vertex, which is new when the vertex has none: \<open>rootedNodes\<close> and
  \<open>rootedVert2tree\<close> are the nodes and \<^verbatim>\<open>vert2tree\<close> with it.
  \<open>backboneArcs\<close> lists the arcs between the nodes of the consecutive pending
  vertices and the arc from the last of them to the root. \<open>attachArcs m new ns\<close>
  is \<open>ns\<close> where every node has received, in the order of their ids, the ids
  of the arcs of \<open>new\<close> that leave it, in \<^verbatim>\<open>upSuperArcs\<close>, and of those that
  reach it, in \<^verbatim>\<open>downSuperArcs\<close>; the first arc of \<open>new\<close> has the id \<open>m\<close>.
\<close>

definition nodeOf :: "treeData \<Rightarrow> idVertex \<Rightarrow> idNode" where
  "nodeOf t v = (case getCorrespondingNodeId t v of Some n \<Rightarrow> n | None \<Rightarrow> nullNodes)"

definition trunkExtremum :: "scalars \<Rightarrow> treeData \<Rightarrow> idVertex" where
  "trunkExtremum sc t = sortedVertices sc ! nat (if isJT t then sizeS sc - 1 else 0)"

definition rootOf :: "scalars \<Rightarrow> treeData \<Rightarrow> idNode" where
  "rootOf sc t = (case getCorrespondingNodeId t (trunkExtremum sc t) of
                    Some n \<Rightarrow> n | None \<Rightarrow> int (length (nodes t)))"

definition rootedNodes :: "scalars \<Rightarrow> treeData \<Rightarrow> node list" where
  "rootedNodes sc t = (case getCorrespondingNodeId t (trunkExtremum sc t) of
       Some n \<Rightarrow> nodes t
     | None \<Rightarrow> nodes t @ [newNode\<lparr>vertexId := trunkExtremum sc t, terminaison := nullVertex\<rparr>])"

definition rootedVert2tree :: "scalars \<Rightarrow> treeData \<Rightarrow> corresp list" where
  "rootedVert2tree sc t = (case getCorrespondingNodeId t (trunkExtremum sc t) of
       Some n \<Rightarrow> vert2tree t
     | None \<Rightarrow> (vert2tree t)[nat (trunkExtremum sc t) := CNode (int (length (nodes t)))])"

definition chainArcs :: "treeData \<Rightarrow> idVertex list \<Rightarrow> superArc list" where
  "chainArcs t pv =
     map (\<lambda>n. \<lparr>downNodeId = nodeOf t (pv ! (n - 1)), upNodeId = nodeOf t (pv ! n),
               lastVisited = pv ! n, verticesSeen = 1, region = []\<rparr>) [1 ..< length pv]"

definition backboneArcs :: "scalars \<Rightarrow> treeData \<Rightarrow> idVertex list \<Rightarrow> superArc list" where
  "backboneArcs sc t pv = chainArcs t pv
     @ [\<lparr>downNodeId = nodeOf t (last pv), upNodeId = rootOf sc t,
         lastVisited = vertexId (rootedNodes sc t ! nat (rootOf sc t)),
         verticesSeen = 1, region = []\<rparr>]"

definition attachArcs :: "nat \<Rightarrow> superArc list \<Rightarrow> node list \<Rightarrow> node list" where
  "attachArcs m new ns =
     map (\<lambda>i. (ns ! i)
            \<lparr>upSuperArcs := upSuperArcs (ns ! i)
               @ map (\<lambda>k. int (m + k))
                   (filter (\<lambda>k. downNodeId (new ! k) = int i) [0 ..< length new]),
             downSuperArcs := downSuperArcs (ns ! i)
               @ map (\<lambda>k. int (m + k))
                   (filter (\<lambda>k. upNodeId (new ! k) = int i) [0 ..< length new])\<rparr>)
       [0 ..< length ns]"

text \<open>
  The states on which the first part of \<^verbatim>\<open>trunk\<close> returns. In \<open>trunkInv\<close>
  the arrays \<^verbatim>\<open>vert2tree\<close> and \<^verbatim>\<open>ufs\<close> have one entry for each vertex,
  the nodes that \<^verbatim>\<open>vert2tree\<close> names exist, the pointers of \<^verbatim>\<open>ufs\<close> are
  in the heap, and every element of the heap reaches a root. \<open>trunkReady\<close>
  adds that \<^verbatim>\<open>openedNodes\<close> and \<^verbatim>\<open>sortedVertices\<close> have one entry for each
  vertex, that the sorted vertices are vertices, and that every opened vertex has
  a union-find pointer and neighbours that are vertices.
\<close>

definition trunkInv :: "scalars \<Rightarrow> treeData \<Rightarrow> bool" where
  "trunkInv sc t \<longleftrightarrow> int (length (vert2tree t)) = sizeS sc \<and> int (length (ufs t)) = sizeS sc
     \<and> (\<forall>c\<in>set (vert2tree t). case c of CNode n \<Rightarrow> inRange n (nodes t) | _ \<Rightarrow> True)
     \<and> (\<forall>u\<in>set (ufs t). case u of Some p \<Rightarrow> inRange p (ufHeap t) | None \<Rightarrow> True)
     \<and> ufWf (ufHeap t)"

definition trunkReady :: "scalars \<Rightarrow> mesh \<Rightarrow> treeData \<Rightarrow> bool" where
  "trunkReady sc msh t \<longleftrightarrow> trunkInv sc t
     \<and> int (length (openedNodes t)) = sizeS sc
     \<and> int (length (sortedVertices sc)) = sizeS sc
     \<and> (\<forall>x\<in>set (sortedVertices sc). 0 \<le> x \<and> x < sizeS sc)
     \<and> (\<forall>v\<in>set [0 .. sizeS sc - 1]. openedNodes t ! nat v \<noteq> 0 \<longrightarrow>
           ufs t ! nat v \<noteq> None \<and> (\<forall>n\<in>set (msh v). 0 \<le> n \<and> n < sizeS sc))"

subsection \<open>Examples\<close>

text \<open>
  Small inputs for the concrete instances below: scalars given by the list of the
  vertices in ascending order, the mesh of a path, chunk policies, and a tree with
  two leaves under one root.
\<close>

fun indexOf :: "int list \<Rightarrow> int \<Rightarrow> int" where
  "indexOf [] v = 0"
| "indexOf (x # xs) v = (if x = v then 0 else 1 + indexOf xs v)"

definition mkScalars :: "idVertex list \<Rightarrow> scalars" where
  "mkScalars srt = \<lparr>sizeS = int (length srt),
     isLower = (\<lambda>a b. indexOf srt a < indexOf srt b),
     isHigher = (\<lambda>a b. indexOf srt a > indexOf srt b),
     sortedVertices = srt,
     mirrorVertices = map (indexOf srt) [0 .. int (length srt) - 1]\<rparr>"

definition noScalars :: scalars where
  "noScalars = mkScalars []"

definition pathMesh :: "int \<Rightarrow> mesh" where
  "pathMesh n v = (if 0 < v \<and> v < n then [v - 1] else [])
     @ (if 0 \<le> v \<and> v < n - 1 then [v + 1] else [])"

definition oneChunk :: params where
  "oneChunk = \<lparr>getChunkSize = (\<lambda>n k. max 1 n), getChunkCount = (\<lambda>n k. 1)\<rparr>"

definition unitChunks :: params where
  "unitChunks = \<lparr>getChunkSize = (\<lambda>n k. 1), getChunkCount = (\<lambda>n k. 1 + n)\<rparr>"

definition exTree :: treeData where
  "exTree = (initTree Join (mkScalars [0, 1, 2]))
     \<lparr>nodes := [\<lparr>vertexId = 0, terminaison = nullVertex, upSuperArcs = [0], downSuperArcs = []\<rparr>,
                \<lparr>vertexId = 1, terminaison = nullVertex, upSuperArcs = [1], downSuperArcs = []\<rparr>,
                \<lparr>vertexId = 2, terminaison = nullVertex, upSuperArcs = [], downSuperArcs = [0, 1]\<rparr>],
      superArcs := [newSuperArc\<lparr>downNodeId := 0, upNodeId := 2\<rparr>,
                    newSuperArc\<lparr>downNodeId := 1, upNodeId := 2\<rparr>],
      vert2tree := [CNode 0, CNode 1, CNode 2]\<rparr>"

text \<open>
  A sweep in progress on the path \<open>0 - 1 - 2\<close> whose ascending order is
  \<open>0, 2, 1\<close>: the join tree has the leaves 0 and 2 and the saddle 1. In
  \<open>exSweep\<close> the task of the leaf 0 has visited its start vertex and holds the
  vertex 1 in its queue; the task of the leaf 2 has not started; two tasks are
  active.
\<close>

definition exScalars :: scalars where
  "exScalars = mkScalars [0, 2, 1]"

definition exSweep :: treeData where
  "exSweep =
     \<lparr>treeType = Join,
      superArcs = [\<lparr>downNodeId = 0, upNodeId = -1, lastVisited = 0, verticesSeen = 1,
                    region = []\<rparr>],
      nodes = [\<lparr>vertexId = 0, terminaison = -1, upSuperArcs = [0], downSuperArcs = []\<rparr>,
               \<lparr>vertexId = 2, terminaison = -1, upSuperArcs = [], downSuperArcs = []\<rparr>],
      roots = [], leaves = [0, 1], vert2tree = [CNode 0, CNil, CNode 1],
      ufs = [Some 0, None, None], propagation = [None, Some 0, None],
      valences = [0, 2, 0], openedNodes = [0, 0, 0], activeTasks = 2,
      segments = [],
      ufHeap = [\<lparr>parent = 0, extrema = 0, states = [0], openedArcs = [0]\<rparr>],
      stateHeap = [\<lparr>vertex = 0, front = [1]\<rparr>], maxDepth = 1, cout = [], cerr = []\<rparr>"

text \<open>
  In \<open>exLast\<close> the first task has stopped at the saddle 1, as not the last to
  arrive, and the task of the leaf 2, the only one active, has visited its start
  vertex and holds the vertex 1 in its queue.
\<close>

definition exLast :: treeData where
  "exLast =
     \<lparr>treeType = Join,
      superArcs = [\<lparr>downNodeId = 0, upNodeId = -1, lastVisited = 0, verticesSeen = 1,
                    region = []\<rparr>,
                   \<lparr>downNodeId = 1, upNodeId = -1, lastVisited = 2, verticesSeen = 1,
                    region = []\<rparr>],
      nodes = [\<lparr>vertexId = 0, terminaison = -1, upSuperArcs = [0], downSuperArcs = []\<rparr>,
               \<lparr>vertexId = 2, terminaison = -1, upSuperArcs = [1], downSuperArcs = []\<rparr>],
      roots = [], leaves = [0, 1], vert2tree = [CNode 0, CNil, CNode 1],
      ufs = [Some 0, Some 0, Some 1], propagation = [None, Some 1, None],
      valences = [0, 1, 0], openedNodes = [0, 1, 0], activeTasks = 1,
      segments = [],
      ufHeap = [\<lparr>parent = 0, extrema = 0, states = [0], openedArcs = [0]\<rparr>,
                \<lparr>parent = 1, extrema = 2, states = [1], openedArcs = [1]\<rparr>],
      stateHeap = [\<lparr>vertex = 1, front = []\<rparr>, \<lparr>vertex = 2, front = [1]\<rparr>],
      maxDepth = 1, cout = [], cerr = []\<rparr>"

text \<open>
  A sweep on the path \<open>0 - 1 - 2 - 3 - 4\<close> whose ascending order is
  \<open>0, 2, 4, 1, 3\<close>: the leaves are 0, 2 and 4, the saddles 1 and 3. In
  \<open>exMerge\<close> the task of the leaf 0 has stopped at the saddle 1, the task of
  the leaf 2 has visited its start vertex and holds 1 and 3 in its queue, and the
  task of the leaf 4 has not started: two tasks are active.
\<close>

definition exScalars5 :: scalars where
  "exScalars5 = mkScalars [0, 2, 4, 1, 3]"

definition exMerge :: treeData where
  "exMerge =
     \<lparr>treeType = Join,
      superArcs = [\<lparr>downNodeId = 0, upNodeId = -1, lastVisited = 0, verticesSeen = 1,
                    region = []\<rparr>,
                   \<lparr>downNodeId = 1, upNodeId = -1, lastVisited = 2, verticesSeen = 1,
                    region = []\<rparr>],
      nodes = [\<lparr>vertexId = 0, terminaison = -1, upSuperArcs = [0], downSuperArcs = []\<rparr>,
               \<lparr>vertexId = 2, terminaison = -1, upSuperArcs = [1], downSuperArcs = []\<rparr>,
               \<lparr>vertexId = 4, terminaison = -1, upSuperArcs = [], downSuperArcs = []\<rparr>],
      roots = [], leaves = [0, 1, 2],
      vert2tree = [CNode 0, CNil, CNode 1, CNil, CNode 2],
      ufs = [Some 0, Some 0, Some 1, None, None],
      propagation = [None, Some 1, None, Some 1, None],
      valences = [0, 1, 0, 2, 0], openedNodes = [0, 1, 0, 0, 0],
      activeTasks = 2, segments = [],
      ufHeap = [\<lparr>parent = 0, extrema = 0, states = [0], openedArcs = [0]\<rparr>,
                \<lparr>parent = 1, extrema = 2, states = [1], openedArcs = [1]\<rparr>],
      stateHeap = [\<lparr>vertex = 1, front = []\<rparr>, \<lparr>vertex = 2, front = [1, 3]\<rparr>],
      maxDepth = 1, cout = [], cerr = []\<rparr>"

text \<open>
  The split tree of the path \<open>0 - 1 - 2 - 3\<close> with ascending order
  \<open>0, 1, 2, 3\<close>, as \<^verbatim>\<open>build\<close> leaves it before the segmentation: the leaf is
  on the vertex 3, the root on the vertex 0, and the one arc owns the vertices 1
  and 2. The sweep of a split tree goes down: 2 comes before 1.
\<close>

definition exScalars4 :: scalars where
  "exScalars4 = mkScalars [0, 1, 2, 3]"

definition exSplit :: treeData where
  "exSplit =
     \<lparr>treeType = Split,
      superArcs = [\<lparr>downNodeId = 0, upNodeId = 1, lastVisited = 0, verticesSeen = 3,
                    region = []\<rparr>],
      nodes = [\<lparr>vertexId = 3, terminaison = -1, upSuperArcs = [0], downSuperArcs = []\<rparr>,
               \<lparr>vertexId = 0, terminaison = -1, upSuperArcs = [], downSuperArcs = [0]\<rparr>],
      roots = [], leaves = [0],
      vert2tree = [CNode 1, CArc 0, CArc 0, CNode 0],
      ufs = [None, None, None, Some 0],
      propagation = [None, None, None, None], valences = [1, 1, 1, 0],
      openedNodes = [0, 0, 0, 1], activeTasks = 0, segments = [],
      ufHeap = [\<lparr>parent = 0, extrema = 3, states = [], openedArcs = []\<rparr>],
      stateHeap = [], maxDepth = 1, cout = [], cerr = []\<rparr>"

text \<open>
  A mesh with three minima 0, 1 and 2: the vertices 0 and 1 meet at the saddle
  3, the vertex 2 joins them at the saddle 4, and 5 is the maximum; the
  ascending order is \<open>2, 0, 1, 3, 4, 5\<close>. \<open>exTrunk\<close> is the join tree after
  the leaf tasks, as \<^verbatim>\<open>trunk\<close> finds it: the saddles 3 and 4 are opened and
  no arc is closed.
\<close>

definition forkMesh :: mesh where
  "forkMesh v = (if v = 0 then [3] else if v = 1 then [3] else if v = 2 then [4]
     else if v = 3 then [0, 1, 4] else if v = 4 then [2, 3, 5] else if v = 5 then [4] else [])"

definition exScalars6 :: scalars where
  "exScalars6 = mkScalars [2, 0, 1, 3, 4, 5]"

definition exTrunk :: treeData where
  "exTrunk =
     \<lparr>treeType = Join,
      superArcs = [\<lparr>downNodeId = 2, upNodeId = -1, lastVisited = 2, verticesSeen = 1,
                    region = []\<rparr>,
                   \<lparr>downNodeId = 0, upNodeId = -1, lastVisited = 0, verticesSeen = 1,
                    region = []\<rparr>,
                   \<lparr>downNodeId = 1, upNodeId = -1, lastVisited = 1, verticesSeen = 1,
                    region = []\<rparr>],
      nodes = [\<lparr>vertexId = 0, terminaison = -1, upSuperArcs = [1], downSuperArcs = []\<rparr>,
               \<lparr>vertexId = 1, terminaison = -1, upSuperArcs = [2], downSuperArcs = []\<rparr>,
               \<lparr>vertexId = 2, terminaison = -1, upSuperArcs = [0], downSuperArcs = []\<rparr>],
      roots = [], leaves = [2, 0, 1],
      vert2tree = [CNode 0, CNode 1, CNode 2, CNil, CNil, CNil],
      ufs = [Some 1, Some 2, Some 0, Some 2, Some 0, None],
      propagation = [None, None, None, Some 2, Some 2, Some 0],
      valences = [0, 0, 0, 0, 1, 1], openedNodes = [0, 0, 0, 1, 1, 0],
      activeTasks = 1, segments = [],
      ufHeap = [\<lparr>parent = 0, extrema = 2, states = [0], openedArcs = [0]\<rparr>,
                \<lparr>parent = 1, extrema = 0, states = [1], openedArcs = [1]\<rparr>,
                \<lparr>parent = 2, extrema = 1, states = [2], openedArcs = [2]\<rparr>],
      stateHeap = [\<lparr>vertex = 4, front = [5]\<rparr>, \<lparr>vertex = 3, front = [4]\<rparr>,
                   \<lparr>vertex = 3, front = [4]\<rparr>],
      maxDepth = 1, cout = [], cerr = []\<rparr>"

text \<open>
  \<open>exTrunkClosed\<close> is \<open>exTrunk\<close> after \<^verbatim>\<open>closeOnBackBone\<close> on the saddles 3
  and 4: both have a node, the three arcs of the leaves are closed on them, and
  the three union-find elements are one class.
\<close>

definition exTrunkClosed :: treeData where
  "exTrunkClosed = exTrunk
     \<lparr>superArcs := [\<lparr>downNodeId = 2, upNodeId = 4, lastVisited = 2, verticesSeen = 1,
                      region = []\<rparr>,
                     \<lparr>downNodeId = 0, upNodeId = 3, lastVisited = 0, verticesSeen = 1,
                      region = []\<rparr>,
                     \<lparr>downNodeId = 1, upNodeId = 3, lastVisited = 1, verticesSeen = 1,
                      region = []\<rparr>],
      nodes := [\<lparr>vertexId = 0, terminaison = -1, upSuperArcs = [1], downSuperArcs = []\<rparr>,
                \<lparr>vertexId = 1, terminaison = -1, upSuperArcs = [2], downSuperArcs = []\<rparr>,
                \<lparr>vertexId = 2, terminaison = -1, upSuperArcs = [0], downSuperArcs = []\<rparr>,
                \<lparr>vertexId = 3, terminaison = -1, upSuperArcs = [], downSuperArcs = [2, 1]\<rparr>,
                \<lparr>vertexId = 4, terminaison = -1, upSuperArcs = [], downSuperArcs = [0]\<rparr>],
      vert2tree := [CNode 0, CNode 1, CNode 2, CNode 3, CNode 4, CNil],
      ufs := [Some 1, Some 2, Some 0, Some 2, Some 2, None],
      ufHeap := [\<lparr>parent = 2, extrema = 2, states = [], openedArcs = []\<rparr>,
                 \<lparr>parent = 2, extrema = 0, states = [], openedArcs = []\<rparr>,
                 \<lparr>parent = 2, extrema = 1, states = [2, 1, 0], openedArcs = []\<rparr>]\<rparr>"

section \<open>Properties\<close>

subsection \<open>Arrays\<close>

lemma inRange_nat: "inRange i xs \<Longrightarrow> nat i < length xs"
  by (auto simp: inRange_def)

lemma rd_in: "inRange i xs \<Longrightarrow> rd xs i = Some (xs ! nat i)"
  by (simp add: rd_def)

lemma wr_in: "inRange i xs \<Longrightarrow> wr xs i v = Some (xs[nat i := v])"
  by (simp add: wr_def)

subsection \<open>Nodes and super-arcs\<close>

lemma makeNode_existing:
  assumes "inRange v (vert2tree t)" "v < sizeS sc" "vert2tree t ! nat v = CNode n"
  shows "makeNode sc v term t = Some (n, t)"
  using assms
  by (simp add: makeNode_def isCorrespondingNode_def getCorrespondingNodeId_def rd_in inRange_def)

lemma makeNode_fresh:
  assumes "inRange v (vert2tree t)" "v < sizeS sc" "\<forall>n. vert2tree t ! nat v \<noteq> CNode n"
  shows "makeNode sc v term t =
           Some (int (length (nodes t)),
                 t\<lparr>nodes := nodes t @ [newNode\<lparr>vertexId := v, terminaison := term\<rparr>],
                   vert2tree := (vert2tree t)[nat v := CNode (int (length (nodes t)))]\<rparr>)"
proof -
  have "isCorrespondingNode t v = Some False"
    using assms by (cases "vert2tree t ! nat v") (simp_all add: isCorrespondingNode_def rd_in)
  then show ?thesis using assms
    by (simp add: makeNode_def updateCorrespondingNode_def wr_def inRange_def Let_def)
qed

text \<open>
  C7. \<^verbatim>\<open>makeNode\<close> is idempotent on a vertex in range: when \<^verbatim>\<open>vert2tree\<close>
  records a node for the vertex, it returns the id of that node and changes
  nothing; otherwise it appends a node with this vertex, records its id for the
  vertex in \<^verbatim>\<open>vert2tree\<close> and returns the id; a second call on the result
  returns the same id and leaves the tree as it is.
\<close>

theorem makeNode_idempotent:
  assumes v: "0 \<le> v" "v < sizeS sc" and len: "int (length (vert2tree t)) = sizeS sc"
  shows "(\<forall>n. vert2tree t ! nat v = CNode n \<longrightarrow> makeNode sc v term t = Some (n, t))
    \<and> ((\<forall>n. vert2tree t ! nat v \<noteq> CNode n) \<longrightarrow>
         makeNode sc v term t =
           Some (int (length (nodes t)),
                 t\<lparr>nodes := nodes t @ [newNode\<lparr>vertexId := v, terminaison := term\<rparr>],
                   vert2tree := (vert2tree t)[nat v := CNode (int (length (nodes t)))]\<rparr>))
    \<and> (\<exists>n t'. makeNode sc v term t = Some (n, t')
          \<and> makeNode sc v term' t' = Some (n, t'))"
proof -
  have r: "inRange v (vert2tree t)" using v len by (simp add: inRange_def)
  show ?thesis
  proof (cases "\<exists>n. vert2tree t ! nat v = CNode n")
    case True
    then obtain n where n: "vert2tree t ! nat v = CNode n" by blast
    have "makeNode sc v term t = Some (n, t)" "makeNode sc v term' t = Some (n, t)"
      using makeNode_existing [OF r v(2) n] by simp_all
    then show ?thesis using n by simp
  next
    case False
    then have f: "\<forall>n. vert2tree t ! nat v \<noteq> CNode n" by simp
    let ?k = "int (length (nodes t))"
    let ?t' = "t\<lparr>nodes := nodes t @ [newNode\<lparr>vertexId := v, terminaison := term\<rparr>],
                   vert2tree := (vert2tree t)[nat v := CNode ?k]\<rparr>"
    have m: "makeNode sc v term t = Some (?k, ?t')" by (rule makeNode_fresh [OF r v(2) f])
    have r': "inRange v (vert2tree ?t')" using r by (simp add: inRange_def)
    have n': "vert2tree ?t' ! nat v = CNode ?k" using inRange_nat [OF r] by simp
    have "makeNode sc v term' ?t' = Some (?k, ?t')" by (rule makeNode_existing [OF r' v(2) n'])
    with m f show ?thesis by simp
  qed
qed

theorem makeNode_idempotent_witness:
  "makeNode (mkScalars [0, 1, 2]) 1 nullVertex (initTree Join (mkScalars [0, 1, 2])) =
     Some (0, (initTree Join (mkScalars [0, 1, 2]))
                \<lparr>nodes := [newNode\<lparr>vertexId := 1\<rparr>], vert2tree := [CNil, CNode 0, CNil]\<rparr>)
   \<and> makeNode (mkScalars [0, 1, 2]) 1 nullVertex ((initTree Join (mkScalars [0, 1, 2]))
                \<lparr>nodes := [newNode\<lparr>vertexId := 1\<rparr>], vert2tree := [CNil, CNode 0, CNil]\<rparr>) =
     Some (0, (initTree Join (mkScalars [0, 1, 2]))
                \<lparr>nodes := [newNode\<lparr>vertexId := 1\<rparr>], vert2tree := [CNil, CNode 0, CNil]\<rparr>)"
proof -
  let ?sc = "mkScalars [0, 1, 2]"
  let ?t0 = "initTree Join ?sc"
  let ?t1 = "?t0\<lparr>nodes := [newNode\<lparr>vertexId := 1\<rparr>], vert2tree := [CNil, CNode 0, CNil]\<rparr>"
  have s: "sizeS ?sc = 3" by (simp add: mkScalars_def)
  have v: "vert2tree ?t0 = [CNil, CNil, CNil]" "nodes ?t0 = []"
    by (simp_all add: initTree_def s eval_nat_numeral)
  have "makeNode ?sc 1 nullVertex ?t0 = Some (0, ?t1)"
    using makeNode_idempotent [of 1 ?sc ?t0 nullVertex nullVertex]
    by (simp add: s v newNode_def)
  moreover have "makeNode ?sc 1 nullVertex ?t1 = Some (0, ?t1)"
    using makeNode_idempotent [of 1 ?sc ?t1 nullVertex nullVertex]
    by (simp add: s)
  ultimately show ?thesis by simp
qed

text \<open>
  C8. With the guard compiled in, \<^verbatim>\<open>closeSuperArc\<close> on a super-arc id outside
  the super-arcs, or on an up node id outside the nodes, writes its message and
  returns the tree as it was, every super-arc and node unchanged; on two valid
  ids it sets the up node of the arc and appends the arc to the down arcs of that
  node.
\<close>

theorem closeSuperArc_guarded:
  "(superArcId < 0 \<or> int (length (superArcs t)) \<le> superArcId \<longrightarrow>
      closeSuperArc superArcId upNode t = Some (t\<lparr>cout := cout t @ [CloseSuperArcInexistingArc]\<rparr>))
   \<and> (inRange superArcId (superArcs t) \<and> (upNode < 0 \<or> int (length (nodes t)) \<le> upNode) \<longrightarrow>
      closeSuperArc superArcId upNode t = Some (t\<lparr>cout := cout t @ [CloseOpenedArcInexistingNode]\<rparr>))
   \<and> (inRange superArcId (superArcs t) \<and> inRange upNode (nodes t) \<longrightarrow>
      closeSuperArc superArcId upNode t =
        Some (t\<lparr>superArcs := (superArcs t)[nat superArcId :=
                   (superArcs t ! nat superArcId)\<lparr>upNodeId := upNode\<rparr>],
               nodes := (nodes t)[nat upNode :=
                   (nodes t ! nat upNode)\<lparr>downSuperArcs :=
                      downSuperArcs (nodes t ! nat upNode) @ [superArcId]\<rparr>]\<rparr>))"
  by (auto simp: closeSuperArc_def getNumberOfSuperArcs_def getNumberOfNodes_def rd_def wr_def
      inRange_def)

theorem closeSuperArc_guarded_witness:
  "closeSuperArc 2 0 exTree = Some (exTree\<lparr>cout := [CloseSuperArcInexistingArc]\<rparr>)
   \<and> closeSuperArc (-1) 0 exTree = Some (exTree\<lparr>cout := [CloseSuperArcInexistingArc]\<rparr>)
   \<and> closeSuperArc 0 3 exTree = Some (exTree\<lparr>cout := [CloseOpenedArcInexistingNode]\<rparr>)
   \<and> closeSuperArc 0 1 exTree =
       Some (exTree\<lparr>superArcs := [newSuperArc\<lparr>downNodeId := 0, upNodeId := 1\<rparr>,
                                   newSuperArc\<lparr>downNodeId := 1, upNodeId := 2\<rparr>],
               nodes := [\<lparr>vertexId = 0, terminaison = nullVertex, upSuperArcs = [0], downSuperArcs = []\<rparr>,
                \<lparr>vertexId = 1, terminaison = nullVertex, upSuperArcs = [1], downSuperArcs = [0]\<rparr>,
                \<lparr>vertexId = 2, terminaison = nullVertex, upSuperArcs = [], downSuperArcs = [0, 1]\<rparr>]\<rparr>)"
  using closeSuperArc_guarded [of 2 exTree 0] closeSuperArc_guarded [of "-1" exTree 0]
    closeSuperArc_guarded [of 0 exTree 3] closeSuperArc_guarded [of 0 exTree 1]
  by (simp add: exTree_def initTree_def inRange_def newSuperArc_def)

text \<open>
  C9. \<^verbatim>\<open>delNode\<close> on a root, a node with no up super-arc, that has more than
  one down super-arc writes its message and does nothing else: the lists of the
  node, the super-arcs and the other nodes are as before.
\<close>

theorem delNode_root_no_op:
  assumes "inRange nodeId (nodes t)"
    and "upSuperArcs (nodes t ! nat nodeId) = []"
    and "1 < length (downSuperArcs (nodes t ! nat nodeId))"
  shows "delNode nodeId t =
           Some (t\<lparr>cout := cout t @ [DelNodeWontDelete (vertexId (nodes t ! nat nodeId))
                      (length (downSuperArcs (nodes t ! nat nodeId))) 0]\<rparr>)"
  using assms by (simp add: delNode_def rd_in)

theorem delNode_root_no_op_witness:
  "delNode 2 exTree = Some (exTree\<lparr>cout := [DelNodeWontDelete 2 2 0]\<rparr>)"
  using delNode_root_no_op [of 2 exTree]
  by (simp add: exTree_def initTree_def inRange_def)

subsection \<open>The empty mesh\<close>

lemma forEach_all_empty:
  "\<forall>c \<in> set cs. f c = [] \<Longrightarrow> forEach cs (\<lambda>c. forEach (f c) body) s = Some s"
  by (induction cs) simp_all

lemma chunkRange_empty:
  assumes "n \<le> 0" "0 \<le> c"
  shows "chunkRange cs n c = []"
proof (cases "0 \<le> cs")
  case True
  then have "0 \<le> c * cs" using assms by simp
  then show ?thesis using assms by (simp add: chunkRange_def)
next
  case False
  then have "(c + 1) * cs < c * cs + 1" by (simp add: distrib_right)
  then show ?thesis by (simp add: chunkRange_def)
qed

lemma forChunks_empty: "n \<le> 0 \<Longrightarrow> forChunks cn cs n body s = Some s"
  unfolding forChunks_def
  by (rule forEach_all_empty) (simp add: chunkRange_empty)

lemma precompute_empty:
  assumes "sizeS sc = 0" "nodes t = []"
  shows "precompute p sc msh t = Some (0, t\<lparr>leaves := []\<rparr>)"
  using assms by (simp add: precompute_def getNumberOfNodes_def forChunks_empty)

lemma launchLeaves_empty:
  assumes "leaves t = []"
  shows "launchLeaves fuel sc msh t = Some (t\<lparr>activeTasks := 0\<rparr>)"
  using assms by (simp add: launchLeaves_def sortBy_def)

lemma trunkArcs_empty:
  assumes "sizeS sc = 0"
  shows "trunkArcs sc msh t = Some ([], t)"
  using assms by (simp add: trunkArcs_def pendingVertsOf_def sortBy_def)

lemma trunk_empty:
  assumes "sizeS sc = 0"
  shows "trunk p sc msh t = Some (0, t)"
  using assms by (simp add: trunk_def trunkArcs_empty)

lemma buildSegmentation_empty:
  assumes "sizeS sc = 0" "superArcs t = []"
  shows "buildSegmentation p sc t = Some (t\<lparr>segments := []\<rparr>)"
  using assms
  by (simp add: buildSegmentation_def forChunks_empty resizeSegments_def sortAll_def)

text \<open>
  C10. On scalars of size 0 and a tree with no node and no super-arc,
  \<^verbatim>\<open>precompute\<close> creates no node and leaves the list of leaves empty,
  \<^verbatim>\<open>leaves\<close> launches no task (it only sets the counter of active tasks to 0),
  \<^verbatim>\<open>trunk\<close> returns 0 with the tree as it was, and \<^verbatim>\<open>build\<close> returns a
  tree whose numbers of nodes and of super-arcs are 0, whatever the chunk policy,
  the mesh and the fuel.
\<close>

theorem build_empty_mesh:
  assumes "sizeS sc = 0" "nodes t = []" "superArcs t = []"
  shows "precompute p sc msh t = Some (0, t\<lparr>leaves := []\<rparr>)
    \<and> launchLeaves fuel sc msh (t\<lparr>leaves := []\<rparr>) = Some (t\<lparr>leaves := [], activeTasks := 0\<rparr>)
    \<and> trunk p sc msh (t\<lparr>leaves := [], activeTasks := 0\<rparr>)
         = Some (0, t\<lparr>leaves := [], activeTasks := 0\<rparr>)
    \<and> build p sc msh fuel ct t =
         Some (if ct then t\<lparr>leaves := [], activeTasks := 0, segments := []\<rparr>
               else t\<lparr>leaves := [], activeTasks := 0\<rparr>)
    \<and> (\<exists>t'. build p sc msh fuel ct t = Some t'
           \<and> getNumberOfNodes t' = 0 \<and> getNumberOfSuperArcs t' = 0)"
proof -
  have b: "build p sc msh fuel ct t =
     Some (if ct then t\<lparr>leaves := [], activeTasks := 0, segments := []\<rparr>
           else t\<lparr>leaves := [], activeTasks := 0\<rparr>)"
    using assms
    by (simp add: build_def precompute_empty launchLeaves_empty trunk_empty
        buildSegmentation_empty)
  then have "\<exists>t'. build p sc msh fuel ct t = Some t'
           \<and> getNumberOfNodes t' = 0 \<and> getNumberOfSuperArcs t' = 0"
    using assms by (simp add: getNumberOfNodes_def getNumberOfSuperArcs_def)
  with b show ?thesis
    using assms by (simp add: precompute_empty launchLeaves_empty trunk_empty)
qed

theorem build_empty_mesh_witness:
  "build unitChunks noScalars (\<lambda>v. []) 0 True (initTree Join noScalars)
     = Some (initTree Join noScalars)
   \<and> nodes (initTree Join noScalars) = [] \<and> superArcs (initTree Join noScalars) = []"
  using build_empty_mesh [of noScalars "initTree Join noScalars" unitChunks "\<lambda>v. []" 0 True]
  by (simp add: noScalars_def mkScalars_def initTree_def)

subsection \<open>What the merge at a saddle leaves alone\<close>

lemma forEach_preserves:
  assumes "forEach xs body s = Some s'"
    and "\<And>x a b. x \<in> set xs \<Longrightarrow> body x a = Some b \<Longrightarrow> f b = f a"
  shows "f s' = f s"
  using assms
proof (induction xs arbitrary: s)
  case Nil
  then show ?case by simp
next
  case (Cons x xs)
  from Cons.prems(1) obtain s1 where b: "body x s = Some s1" and r: "forEach xs body s1 = Some s'"
    by (auto split: option.splits)
  have "f s' = f s1"
  proof (rule Cons.IH [OF r])
    fix y a b assume "y \<in> set xs" "body y a = Some b"
    then show "f b = f a" using Cons.prems(2) [of y a b] by simp
  qed
  moreover have "f s1 = f s" using Cons.prems(2) [OF _ b] by simp
  ultimately show ?case by simp
qed

lemma findUF_untouched: "findUF u t = Some (r, t') \<Longrightarrow> untouched t' = untouched t"
  by (auto simp: findUF_def untouched_def split: if_splits)

lemma modUF_untouched: "modUF u f t = Some t' \<Longrightarrow> untouched t' = untouched t"
  by (auto simp: modUF_def untouched_def split: bind_splits)

lemma modState_untouched: "modState u f t = Some t' \<Longrightarrow> untouched t' = untouched t"
  by (auto simp: modState_def untouched_def split: bind_splits)

lemma modSuperArc_untouched: "modSuperArc u f t = Some t' \<Longrightarrow> untouched t' = untouched t"
  by (auto simp: modSuperArc_def untouched_def split: bind_splits)

lemma modNode_untouched: "modNode u f t = Some t' \<Longrightarrow> untouched t' = untouched t"
  by (auto simp: modNode_def untouched_def split: bind_splits)

lemma makeNode_untouched: "makeNode sc v term t = Some (n, t') \<Longrightarrow> untouched t' = untouched t"
  by (auto simp: makeNode_def untouched_def updateCorrespondingNode_def Let_def
      split: bind_splits if_splits)

lemma closeSuperArc_untouched: "closeSuperArc a n t = Some t' \<Longrightarrow> untouched t' = untouched t"
  by (auto simp: closeSuperArc_def untouched_def split: bind_splits if_splits)

lemma openSuperArc_untouched: "openSuperArc n t = Some (a, t') \<Longrightarrow> untouched t' = untouched t"
  by (auto simp: openSuperArc_def untouched_def Let_def split: bind_splits if_splits)

lemma makeSuperArc_untouched: "makeSuperArc d u t = Some (a, t') \<Longrightarrow> untouched t' = untouched t"
  by (auto simp: makeSuperArc_def untouched_def Let_def split: bind_splits if_splits)

lemma makeUnion_untouched: "makeUnion sc a b t = Some (r, t') \<Longrightarrow> untouched t' = untouched t"
  by (auto simp: makeUnion_def Let_def split: bind_splits if_splits prod.splits
      dest!: findUF_untouched modUF_untouched)

lemma unionNeigh_untouched: "unionNeigh sc s n t = Some t' \<Longrightarrow> untouched t' = untouched t"
  by (auto simp: unionNeigh_def split: bind_splits if_splits
      dest!: findUF_untouched makeUnion_untouched)
    (auto simp: untouched_def)

lemma closeArcsUF_untouched:
  assumes "closeArcsUF n u t = Some t'"
  shows "untouched t' = untouched t"
proof -
  from assms obtain r t1 e t2 r' t3 where
    1: "findUF u t = Some (r, t1)" and
    0: "rd (ufHeap t1) r = Some e" and
    2: "forEach (openedArcs e) (\<lambda>sa. closeSuperArc sa n) t1 = Some t2" and
    3: "findUF u t2 = Some (r', t3)" and
    4: "modUF r' (\<lambda>e. e\<lparr>openedArcs := []\<rparr>) t3 = Some t'"
    by (auto simp: closeArcsUF_def split: bind_splits)
  have "untouched t2 = untouched t1"
    using 2 by (rule forEach_preserves) (rule closeSuperArc_untouched)
  then show ?thesis
    using findUF_untouched [OF 1] findUF_untouched [OF 3] modUF_untouched [OF 4] by simp
qed

lemma mergeStates_untouched:
  assumes "mergeStates u t = Some t'"
  shows "untouched t' = untouched t"
proof -
  from assms obtain e where e: "rd (ufHeap t) u = Some e" by (auto simp: mergeStates_def split: bind_splits)
  show ?thesis
  proof (cases "states e")
    case Nil
    then show ?thesis using assms e by (simp add: mergeStates_def)
  next
    case (Cons s ss)
    with assms e obtain t1 where
      1: "forEach ss (\<lambda>s' t. do {
                  other \<leftarrow> rd (stateHeap t) s';
                  modState s (\<lambda>st. st\<lparr>front := front st @ front other\<rparr>) t
                }) t = Some t1" and
      2: "modUF u (\<lambda>e. e\<lparr>states := [s]\<rparr>) t1 = Some t'"
      by (auto simp: mergeStates_def split: bind_splits)
    have "untouched t1 = untouched t"
      using 1 by (rule forEach_preserves) (auto split: bind_splits dest: modState_untouched)
    then show ?thesis using modUF_untouched [OF 2] by simp
  qed
qed

lemma closeAndMergeOnSaddle_untouched:
  assumes "closeAndMergeOnSaddle sc msh v t = Some t'"
  shows "untouched t' = untouched t"
proof -
  from assms obtain closeNode t1 t2 su t3 su3 r t4 t5 su5 r' t6 where
    1: "makeNode sc v nullVertex t = Some (closeNode, t1)" and
    d1: "deref (ufs t2) v = Some su" and
    d2: "deref (ufs t3) v = Some su3" and
    d3: "deref (ufs t5) v = Some su5" and
    2: "forEach (msh v) (\<lambda>neigh t.
             if vertLower sc t neigh v then unionNeigh sc v neigh t
             else Some t) t1 = Some t2" and
    3: "closeArcsUF closeNode su t2 = Some t3" and
    4: "findUF su3 t3 = Some (r, t4)" and
    5: "mergeStates r t4 = Some t5" and
    6: "findUF su5 t5 = Some (r', t6)" and
    7: "modUF r' (\<lambda>e. e\<lparr>extrema := v\<rparr>) t6 = Some t'"
    by (auto simp: closeAndMergeOnSaddle_def split: bind_splits)
  have "untouched t2 = untouched t1"
    using 2 by (rule forEach_preserves) (auto split: if_splits dest: unionNeigh_untouched)
  then show ?thesis
    using makeNode_untouched [OF 1] closeArcsUF_untouched [OF 3] findUF_untouched [OF 4]
      mergeStates_untouched [OF 5] findUF_untouched [OF 6] modUF_untouched [OF 7]
    by simp
qed


subsection \<open>A turn of the loop of a leaf task\<close>

lemma nextVertex_cases:
  assumes "rd (stateHeap t) cs = Some st" "front st \<noteq> []"
    and "getNextMinVertex sc cs t = Some (cur, t1)"
    and "rd (vert2tree t1) cur = Some c"
  shows "nextVertex sc startVert cs seenFirst t =
     Some (if (\<exists>a. c = CArc a) \<or> (cur = startVert \<and> seenFirst) then Skipped t1
           else Accepted (seenFirst \<or> cur = startVert) cur t1)"
  using assms
  by (cases c) (auto simp: nextVertex_def isCorrespondingNull_def isCorrespondingNode_def)

text \<open>
  C4. In a turn of the loop of \<^verbatim>\<open>processTask\<close>, with \<open>cur\<close> the vertex
  popped and \<open>c\<close> its entry of \<^verbatim>\<open>vert2tree\<close>: the vertex is skipped, the
  turn doing nothing but the pop, when \<open>c\<close> is an arc, and also when \<open>cur\<close> is
  the start vertex and \<^verbatim>\<open>seenFirst\<close> is set; it is processed (the rest of the
  turn is \<open>visitVertex\<close>, which calls \<^verbatim>\<open>propage\<close>) when \<open>c\<close> is nil or a
  node and \<open>cur\<close> is not a start vertex seen before. The first processing of the
  start vertex sets \<^verbatim>\<open>seenFirst\<close>, which stays set in the turns that follow:
  the start vertex is processed once.
\<close>

theorem taskLoop_skips_arc_vertices:
  assumes "rd (stateHeap t) cs = Some st" "front st \<noteq> []"
    and "getNextMinVertex sc cs t = Some (cur, t1)"
    and "rd (vert2tree t1) cur = Some c"
  shows "((\<exists>a. c = CArc a) \<or> (cur = startVert \<and> seenFirst) \<longrightarrow>
            nextVertex sc startVert cs seenFirst t = Some (Skipped t1)
          \<and> taskLoop (Suc k) sc msh startVert d orig startUF cs arc seenFirst t
              = taskLoop k sc msh startVert d orig startUF cs arc seenFirst t1)
    \<and> ((c = CNil \<or> (\<exists>n. c = CNode n)) \<and> (cur = startVert \<longrightarrow> \<not> seenFirst) \<longrightarrow>
            nextVertex sc startVert cs seenFirst t
              = Some (Accepted (seenFirst \<or> cur = startVert) cur t1)
          \<and> taskLoop (Suc k) sc msh startVert d orig startUF cs arc seenFirst t
              = (case visitVertex sc msh startVert startUF cs arc cur t1 of
                   None \<Rightarrow> None
                 | Some (Stopped t2) \<Rightarrow> Some t2
                 | Some (Merged t2) \<Rightarrow> processTask k sc msh cur (d + 1) orig t2
                 | Some (Propagated t2) \<Rightarrow>
                     taskLoop k sc msh startVert d orig startUF cs arc
                       (seenFirst \<or> cur = startVert) t2))"
proof -
  note n = nextVertex_cases [OF assms, of startVert seenFirst]
  show ?thesis
  proof (cases "(\<exists>a. c = CArc a) \<or> (cur = startVert \<and> seenFirst)")
    case True
    then have "nextVertex sc startVert cs seenFirst t = Some (Skipped t1)"
      using n by simp
    then show ?thesis using True by auto
  next
    case False
    then have "nextVertex sc startVert cs seenFirst t
        = Some (Accepted (seenFirst \<or> cur = startVert) cur t1)"
      using n by simp
    then show ?thesis using False by auto
  qed
qed

theorem taskLoop_skips_arc_vertices_witness:
  "nextVertex exScalars 0 0 True exSweep
     = Some (Accepted True 1 (exSweep\<lparr>stateHeap := [\<lparr>vertex = 1, front = []\<rparr>]\<rparr>))
   \<and> nextVertex exScalars 1 0 True exSweep
     = Some (Skipped (exSweep\<lparr>stateHeap := [\<lparr>vertex = 1, front = []\<rparr>]\<rparr>))
   \<and> taskLoop 1 exScalars (pathMesh 3) 1 0 0 0 0 0 True exSweep = None"
proof -
  let ?t1 = "exSweep\<lparr>stateHeap := [\<lparr>vertex = 1, front = []\<rparr>]\<rparr>"
  have 1: "rd (stateHeap exSweep) 0 = Some \<lparr>vertex = 0, front = [1]\<rparr>"
    by (simp add: exSweep_def rd_def inRange_def)
  have 2: "front \<lparr>vertex = 0, front = [1]\<rparr> \<noteq> []" by simp
  have 3: "getNextMinVertex exScalars 0 exSweep = Some (1, ?t1)"
    by (simp add: getNextMinVertex_def modState_def exSweep_def rd_def wr_def inRange_def
        sweepMin_def)
  have 4: "rd (vert2tree ?t1) 1 = Some CNil"
    by (simp add: exSweep_def rd_def inRange_def)
  show ?thesis
    using taskLoop_skips_arc_vertices [OF 1 2 3 4, of 0 True 0 "pathMesh 3" 0 0 0 0]
      taskLoop_skips_arc_vertices [OF 1 2 3 4, of 1 True 0 "pathMesh 3" 0 0 0 0]
    by simp
qed


text \<open>
  C1. In a turn of the loop of \<^verbatim>\<open>processTask\<close> whose accepted vertex \<open>cur\<close>
  is a saddle (\<^verbatim>\<open>propage\<close> returns \<open>isSaddle\<close> true), \<open>t4\<close> being the
  tree with \<open>ufs[cur]\<close> published and the bit of \<open>cur\<close> set in
  \<^verbatim>\<open>openedNodes\<close>: when the task is not the last to arrive it returns with the
  counter of active tasks decremented; when it is the last and the counter is 1 it
  returns \<open>t4\<close>, the saddle still marked and not closed; otherwise it runs
  \<^verbatim>\<open>closeAndMergeOnSaddle\<close> on \<open>cur\<close>, clears the bit of \<open>cur\<close> and goes on
  as \<^verbatim>\<open>processTask\<close> from \<open>cur\<close> at depth \<open>d + 1\<close>.
\<close>

theorem taskLoop_saddle:
  assumes nv: "nextVertex sc startVert cs seenFirst t = Some (Accepted seenFirst' cur t1)"
    and pr: "propage sc msh cs startUF t1 = Some ((True, isLast), t2)"
    and r: "inRange cur (ufs t2)" "inRange cur (openedNodes t2)"
    and t4: "t4 = t2\<lparr>ufs := (ufs t2)[nat cur := Some startUF],
                     openedNodes := (openedNodes t2)[nat cur := 1]\<rparr>"
  shows "(\<not> isLast \<longrightarrow>
            taskLoop (Suc k) sc msh startVert d orig startUF cs arc seenFirst t
              = Some (t4\<lparr>activeTasks := activeTasks t2 - 1\<rparr>))
    \<and> (isLast \<and> activeTasks t2 = 1 \<longrightarrow>
            taskLoop (Suc k) sc msh startVert d orig startUF cs arc seenFirst t = Some t4)
    \<and> (isLast \<and> activeTasks t2 \<noteq> 1 \<longrightarrow>
            taskLoop (Suc k) sc msh startVert d orig startUF cs arc seenFirst t
              = (case closeAndMergeOnSaddle sc msh cur t4 of
                   None \<Rightarrow> None
                 | Some t5 \<Rightarrow>
                     processTask k sc msh cur (d + 1) orig
                       (t5\<lparr>openedNodes := (openedNodes t2)[nat cur := 0]\<rparr>)))"
proof -
  have v: "visitVertex sc msh startVert startUF cs arc cur t1 =
      (if isLast then
         (if activeTasks t2 = 1 then Some (Stopped t4)
          else (case closeAndMergeOnSaddle sc msh cur t4 of
                  None \<Rightarrow> None
                | Some t5 \<Rightarrow> Some (Merged (t5\<lparr>openedNodes := (openedNodes t2)[nat cur := 0]\<rparr>))))
       else Some (Stopped (t4\<lparr>activeTasks := activeTasks t2 - 1\<rparr>)))"
  proof (cases "closeAndMergeOnSaddle sc msh cur t4")
    case None
    then show ?thesis using pr r t4 by (simp add: visitVertex_def wr_in)
  next
    case (Some t5)
    have "untouched t5 = untouched t4" by (rule closeAndMergeOnSaddle_untouched [OF Some])
    then have o: "openedNodes t5 = (openedNodes t2)[nat cur := 1]"
      using t4 by (simp add: untouched_def)
    then have "wr (openedNodes t5) cur 0 = Some ((openedNodes t2)[nat cur := 0])"
      using r(2) by (simp add: wr_def inRange_def)
    then show ?thesis using pr r t4 Some by (simp add: visitVertex_def wr_in)
  qed
  show ?thesis using nv v by (simp split: option.splits)
qed

lemma exSweep_nextVertex:
  "nextVertex exScalars 0 0 True exSweep
     = Some (Accepted True 1 (exSweep\<lparr>stateHeap := [\<lparr>vertex = 1, front = []\<rparr>]\<rparr>))"
  by code_simp

lemma exSweep_propage:
  "propage exScalars (pathMesh 3) 0 0 (exSweep\<lparr>stateHeap := [\<lparr>vertex = 1, front = []\<rparr>]\<rparr>)
     = Some ((True, False),
         exSweep\<lparr>stateHeap := [\<lparr>vertex = 1, front = []\<rparr>], valences := [0, 1, 0]\<rparr>)"
  by code_simp

lemma exLast_nextVertex:
  "nextVertex exScalars 2 1 True exLast
     = Some (Accepted True 1
         (exLast\<lparr>stateHeap := [\<lparr>vertex = 1, front = []\<rparr>, \<lparr>vertex = 1, front = []\<rparr>]\<rparr>))"
  by code_simp

lemma exLast_propage:
  "propage exScalars (pathMesh 3) 1 1
       (exLast\<lparr>stateHeap := [\<lparr>vertex = 1, front = []\<rparr>, \<lparr>vertex = 1, front = []\<rparr>]\<rparr>)
     = Some ((True, True),
         exLast\<lparr>stateHeap := [\<lparr>vertex = 1, front = []\<rparr>, \<lparr>vertex = 1, front = []\<rparr>],
                valences := [0, 0, 0]\<rparr>)"
  by code_simp

lemma exMerge_nextVertex:
  "nextVertex exScalars5 2 1 True exMerge
     = Some (Accepted True 1
         (exMerge\<lparr>stateHeap := [\<lparr>vertex = 1, front = []\<rparr>, \<lparr>vertex = 1, front = [3]\<rparr>]\<rparr>))"
  by code_simp

lemma exMerge_propage:
  "propage exScalars5 (pathMesh 5) 1 1
       (exMerge\<lparr>stateHeap := [\<lparr>vertex = 1, front = []\<rparr>, \<lparr>vertex = 1, front = [3]\<rparr>]\<rparr>)
     = Some ((True, True),
         exMerge\<lparr>stateHeap := [\<lparr>vertex = 1, front = []\<rparr>, \<lparr>vertex = 1, front = [3]\<rparr>],
                valences := [0, 0, 0, 2, 0]\<rparr>)"
  by code_simp

lemma exMerge_continued:
  "(case closeAndMergeOnSaddle exScalars5 (pathMesh 5) 1
           (exMerge\<lparr>stateHeap := [\<lparr>vertex = 1, front = []\<rparr>, \<lparr>vertex = 1, front = [3]\<rparr>],
                valences := [0, 0, 0, 2, 0], ufs := [Some 0, Some 1, Some 1, None, None],
                openedNodes := [0, 1, 0, 0, 0]\<rparr>) of
      None \<Rightarrow> None
    | Some t5 \<Rightarrow> map_option (\<lambda>t. (map vertexId (nodes t), map upNodeId (superArcs t),
                                   openedNodes t, activeTasks t))
        (processTask 9 exScalars5 (pathMesh 5) 1 (0 + 1) 1
           (t5\<lparr>openedNodes := [0, 0, 0, 0, 0]\<rparr>)))
   = Some ([0, 2, 4, 1], [3, 3, -1], [0, 0, 0, 1, 0], 1)"
  by code_simp

theorem taskLoop_saddle_witness:
  "taskLoop 1 exScalars (pathMesh 3) 0 0 0 0 0 0 True exSweep
     = Some (exSweep\<lparr>stateHeap := [\<lparr>vertex = 1, front = []\<rparr>], valences := [0, 1, 0],
               ufs := [Some 0, Some 0, None], openedNodes := [0, 1, 0], activeTasks := 1\<rparr>)
   \<and> taskLoop 1 exScalars (pathMesh 3) 2 0 1 1 1 1 True exLast
     = Some (exLast\<lparr>stateHeap := [\<lparr>vertex = 1, front = []\<rparr>, \<lparr>vertex = 1, front = []\<rparr>],
               valences := [0, 0, 0], ufs := [Some 0, Some 1, Some 1],
               openedNodes := [0, 1, 0]\<rparr>)
   \<and> map_option (\<lambda>t. (map vertexId (nodes t), map upNodeId (superArcs t),
                       openedNodes t, activeTasks t))
        (taskLoop 10 exScalars5 (pathMesh 5) 2 0 1 1 1 1 True exMerge)
     = Some ([0, 2, 4, 1], [3, 3, -1], [0, 0, 0, 1, 0], 1)"
proof -
  have 1: "taskLoop 1 exScalars (pathMesh 3) 0 0 0 0 0 0 True exSweep
     = Some (exSweep\<lparr>stateHeap := [\<lparr>vertex = 1, front = []\<rparr>], valences := [0, 1, 0],
               ufs := [Some 0, Some 0, None], openedNodes := [0, 1, 0], activeTasks := 1\<rparr>)"
    using taskLoop_saddle [OF exSweep_nextVertex exSweep_propage _ _ refl,
        where k = 0 and d = 0 and orig = 0 and arc = 0]
    by (simp add: exSweep_def inRange_def)
  have 2: "taskLoop 1 exScalars (pathMesh 3) 2 0 1 1 1 1 True exLast
     = Some (exLast\<lparr>stateHeap := [\<lparr>vertex = 1, front = []\<rparr>, \<lparr>vertex = 1, front = []\<rparr>],
               valences := [0, 0, 0], ufs := [Some 0, Some 1, Some 1],
               openedNodes := [0, 1, 0]\<rparr>)"
    using taskLoop_saddle [OF exLast_nextVertex exLast_propage _ _ refl,
        where k = 0 and d = 0 and orig = 1 and arc = 1]
    by (simp add: exLast_def inRange_def)
  have 3: "map_option (\<lambda>t. (map vertexId (nodes t), map upNodeId (superArcs t),
                       openedNodes t, activeTasks t))
        (taskLoop 10 exScalars5 (pathMesh 5) 2 0 1 1 1 1 True exMerge)
     = Some ([0, 2, 4, 1], [3, 3, -1], [0, 0, 0, 1, 0], 1)"
    using taskLoop_saddle [OF exMerge_nextVertex exMerge_propage _ _ refl,
        where k = 9 and d = 0 and orig = 1 and arc = 1] exMerge_continued
    by (simp add: exMerge_def inRange_def split: option.splits)
  from 1 2 3 show ?thesis by simp
qed


subsection \<open>Precompute\<close>

lemma forEach_append:
  "forEach (xs @ ys) body s =
     (case forEach xs body s of None \<Rightarrow> None | Some s' \<Rightarrow> forEach ys body s')"
  by (induction xs arbitrary: s) (auto split: option.splits)

lemma forEach_concat:
  "forEach cs (\<lambda>c. forEach (f c) body) s = forEach (concat (map f cs)) body s"
  by (induction cs arbitrary: s) (auto simp: forEach_append split: option.splits)

lemma upto_append_next:
  assumes "a \<le> b" "b \<le> c + 1"
  shows "[a .. b - 1] @ [b .. c] = [a .. c]"
proof (cases "a = b")
  case True
  then show ?thesis by simp
next
  case False
  then have "a \<le> b - 1" "b - 1 \<le> c" using assms by simp_all
  from upto_split2 [OF this] show ?thesis by simp
qed

lemma chunks_prefix:
  assumes "0 \<le> cs"
  shows "concat (map (chunkRange cs n) [0 .. int k - 1]) = [0 .. min n (int k * cs) - 1]"
proof (induction k)
  case 0
  then show ?case by simp
next
  case (Suc k)
  define a where "a = int k * cs"
  have b: "int (Suc k) * cs = a + cs" "(int k + 1) * cs = a + cs"
    by (simp_all add: a_def distrib_right)
  have u: "[0 .. int (Suc k) - 1] = [0 .. int k - 1] @ [int k]"
    using upto_rec2 [of 0 "int k"] by simp
  have nn: "0 \<le> a" using assms by (simp add: a_def)
  have c: "chunkRange cs n (int k) = [a .. min n (a + cs) - 1]"
    by (simp only: chunkRange_def b a_def [symmetric])
  have ih: "concat (map (chunkRange cs n) [0 .. int k - 1]) = [0 .. min n a - 1]"
    using Suc by (simp add: a_def)
  have "[0 .. min n a - 1] @ [a .. min n (a + cs) - 1] = [0 .. min n (a + cs) - 1]"
  proof (cases "n \<le> a")
    case True
    then show ?thesis using assms by (simp add: min_def)
  next
    case False
    then have "[0 .. a - 1] @ [a .. min n (a + cs) - 1] = [0 .. min n (a + cs) - 1]"
      using nn assms by (intro upto_append_next) simp_all
    then show ?thesis using False by (simp add: min_def)
  qed
  then show ?case by (simp only: u map_append concat_append ih c b list.map concat.simps append_Nil2)
qed

lemma chunks_cover:
  assumes "0 \<le> cs" "n \<le> cn * cs"
  shows "concat (map (chunkRange cs n) [0 .. cn - 1]) = [0 .. n - 1]"
proof (cases "0 \<le> cn")
  case True
  then have "[0 .. cn - 1] = [0 .. int (nat cn) - 1]" by simp
  then show ?thesis using chunks_prefix [OF assms(1), of n "nat cn"] assms(2) True by simp
next
  case False
  then have "cn * cs \<le> 0" using assms(1) by (simp add: mult_le_0_iff)
  then have "n \<le> 0" using assms(2) by simp
  then show ?thesis using False by simp
qed

lemma forChunks_cover:
  assumes "0 \<le> cs" "n \<le> cn * cs"
  shows "forChunks cn cs n body s = forEach [0 .. n - 1] body s"
  unfolding forChunks_def using chunks_cover [OF assms] by (simp add: forEach_concat)


lemma fold_count_lower:
  "fold (\<lambda>neigh val. if P neigh then val + 1 else val) xs (c::int)
     = c + int (length (filter P xs))"
  by (induction xs arbitrary: c) simp_all

lemma vertLower_treeType:
  "treeType t' = treeType t \<Longrightarrow> vertLower sc t' = vertLower sc t"
  by (simp add: vertLower_def fun_eq_iff)

lemma lowerCount_treeType:
  "treeType t' = treeType t \<Longrightarrow> lowerCount sc t' msh v = lowerCount sc t msh v"
  by (simp add: lowerCount_def vertLower_treeType [of t' t])

lemma leafNode_newNode: "newNode\<lparr>vertexId := v, terminaison := nullVertex\<rparr> = leafNode v"
  by (simp add: leafNode_def newNode_def)

lemma precomputeVertex_step:
  assumes "v < sizeS sc" "inRange v (valences t)" "inRange v (vert2tree t)"
    and "\<forall>n. vert2tree t ! nat v \<noteq> CNode n"
  shows "precomputeVertex sc msh v t =
     Some (if lowerCount sc t msh v = 0
           then t\<lparr>valences := (valences t)[nat v := 0],
                  nodes := nodes t @ [leafNode v],
                  vert2tree := (vert2tree t)[nat v := CNode (int (length (nodes t)))]\<rparr>
           else t\<lparr>valences := (valences t)[nat v := lowerCount sc t msh v]\<rparr>)"
proof -
  have f: "fold (\<lambda>neigh val. if vertLower sc t neigh v then val + 1 else val) (msh v) 0
      = lowerCount sc t msh v"
    by (simp add: fold_count_lower lowerCount_def)
  have m: "makeNode sc v nullVertex (t\<lparr>valences := vs\<rparr>) =
      Some (int (length (nodes t)),
            t\<lparr>valences := vs, nodes := nodes t @ [leafNode v],
              vert2tree := (vert2tree t)[nat v := CNode (int (length (nodes t)))]\<rparr>)" for vs
    using makeNode_fresh [of v "t\<lparr>valences := vs\<rparr>" sc nullVertex] assms
    by (simp add: leafNode_newNode)
  show ?thesis
  proof (cases "lowerCount sc t msh v = 0")
    case True
    then show ?thesis
      using assms(2) by (simp add: precomputeVertex_def f wr_in m)
  next
    case False
    then show ?thesis
      using assms(2) by (simp add: precomputeVertex_def f wr_in)
  qed
qed


lemma precompute_loop:
  assumes "distinct vs" "\<forall>v\<in>set vs. 0 \<le> v \<and> v < sizeS sc"
    and "length (valences t) = nat (sizeS sc)" "length (vert2tree t) = nat (sizeS sc)"
    and "\<forall>v\<in>set vs. vert2tree t ! nat v = CNil"
  shows "\<exists>t'. forEach vs (precomputeVertex sc msh) t = Some t'
     \<and> t'\<lparr>valences := [], nodes := [], vert2tree := []\<rparr>
         = t\<lparr>valences := [], nodes := [], vert2tree := []\<rparr>
     \<and> length (valences t') = nat (sizeS sc) \<and> length (vert2tree t') = nat (sizeS sc)
     \<and> (\<forall>v. 0 \<le> v \<and> v < sizeS sc \<longrightarrow>
           valences t' ! nat v
             = (if v \<in> set vs then lowerCount sc t msh v else valences t ! nat v))
     \<and> nodes t' = nodes t @ map leafNode (filter (\<lambda>v. lowerCount sc t msh v = 0) vs)
     \<and> (\<forall>v. 0 \<le> v \<and> v < sizeS sc \<and> \<not> (v \<in> set vs \<and> lowerCount sc t msh v = 0) \<longrightarrow>
           vert2tree t' ! nat v = vert2tree t ! nat v)
     \<and> (\<forall>j < length (filter (\<lambda>v. lowerCount sc t msh v = 0) vs).
           vert2tree t' ! nat (filter (\<lambda>v. lowerCount sc t msh v = 0) vs ! j)
             = CNode (int (length (nodes t) + j)))"
  using assms
proof (induction vs arbitrary: t)
  case Nil
  then show ?case by simp
next
  case (Cons v vs)
  let ?c = "lowerCount sc t msh v"
  have v: "0 \<le> v" "v < sizeS sc" "v \<notin> set vs" using Cons.prems(1,2) by simp_all
  have rv: "inRange v (valences t)" "inRange v (vert2tree t)"
    using v Cons.prems(3,4) by (simp_all add: inRange_def)
  have nv: "nat v < nat (sizeS sc)" using v by simp
  have nil: "vert2tree t ! nat v = CNil" using Cons.prems(5) by simp
  define t1 where "t1 = (if ?c = 0
           then t\<lparr>valences := (valences t)[nat v := 0],
                  nodes := nodes t @ [leafNode v],
                  vert2tree := (vert2tree t)[nat v := CNode (int (length (nodes t)))]\<rparr>
           else t\<lparr>valences := (valences t)[nat v := ?c]\<rparr>)"
  have step: "precomputeVertex sc msh v t = Some t1"
    unfolding t1_def using precomputeVertex_step [OF v(2) rv] nil by simp
  have tt: "treeType t1 = treeType t" by (simp add: t1_def)
  have lc: "lowerCount sc t1 msh w = lowerCount sc t msh w" for w
    by (rule lowerCount_treeType [OF tt])
  have ne: "nat w \<noteq> nat v" if "w \<in> set vs" for w
  proof -
    have "0 \<le> w" "w \<noteq> v" using that v Cons.prems(2) by auto
    then show ?thesis using v(1) by simp
  qed
  have p1: "distinct vs" "\<forall>w\<in>set vs. 0 \<le> w \<and> w < sizeS sc"
    using Cons.prems(1,2) by simp_all
  have p3: "length (valences t1) = nat (sizeS sc)" "length (vert2tree t1) = nat (sizeS sc)"
    using Cons.prems(3,4) by (simp_all add: t1_def)
  have p5: "\<forall>w\<in>set vs. vert2tree t1 ! nat w = CNil"
  proof
    fix w assume w: "w \<in> set vs"
    then have "nat v \<noteq> nat w" using ne [OF w] by simp
    moreover have "vert2tree t ! nat w = CNil" using Cons.prems(5) w by simp
    ultimately show "vert2tree t1 ! nat w = CNil" by (simp add: t1_def)
  qed
  from Cons.IH [OF p1 p3 p5] obtain t' where
    r: "forEach vs (precomputeVertex sc msh) t1 = Some t'"
    and fr: "t'\<lparr>valences := [], nodes := [], vert2tree := []\<rparr>
         = t1\<lparr>valences := [], nodes := [], vert2tree := []\<rparr>"
    and ln: "length (valences t') = nat (sizeS sc)" "length (vert2tree t') = nat (sizeS sc)"
    and va: "\<forall>w. 0 \<le> w \<and> w < sizeS sc \<longrightarrow>
           valences t' ! nat w
             = (if w \<in> set vs then lowerCount sc t msh w else valences t1 ! nat w)"
    and nd: "nodes t' = nodes t1 @ map leafNode (filter (\<lambda>w. lowerCount sc t msh w = 0) vs)"
    and vt: "\<forall>w. 0 \<le> w \<and> w < sizeS sc \<and> \<not> (w \<in> set vs \<and> lowerCount sc t msh w = 0) \<longrightarrow>
           vert2tree t' ! nat w = vert2tree t1 ! nat w"
    and ix: "\<forall>j < length (filter (\<lambda>w. lowerCount sc t msh w = 0) vs).
           vert2tree t' ! nat (filter (\<lambda>w. lowerCount sc t msh w = 0) vs ! j)
             = CNode (int (length (nodes t1) + j))"
    unfolding lc by blast
  have run: "forEach (v # vs) (precomputeVertex sc msh) t = Some t'"
    using step r by simp
  have fr': "t'\<lparr>valences := [], nodes := [], vert2tree := []\<rparr>
         = t\<lparr>valences := [], nodes := [], vert2tree := []\<rparr>"
    using fr by (simp add: t1_def split: if_splits)
  have v1: "valences t1 ! nat w = (if w = v then ?c else valences t ! nat w)"
    if "0 \<le> w" "w < sizeS sc" for w
  proof (cases "w = v")
    case True
    then show ?thesis using nv Cons.prems(3) by (simp add: t1_def)
  next
    case False
    then have "nat v \<noteq> nat w" using that v by simp
    then show ?thesis using False by (simp add: t1_def)
  qed
  have va': "\<forall>w. 0 \<le> w \<and> w < sizeS sc \<longrightarrow>
           valences t' ! nat w
             = (if w \<in> set (v # vs) then lowerCount sc t msh w else valences t ! nat w)"
  proof (intro allI impI)
    fix w assume w: "0 \<le> w \<and> w < sizeS sc"
    then have a: "valences t' ! nat w
             = (if w \<in> set vs then lowerCount sc t msh w else valences t1 ! nat w)"
      using va by blast
    have b: "valences t1 ! nat w = (if w = v then ?c else valences t ! nat w)"
      using v1 w by blast
    show "valences t' ! nat w
             = (if w \<in> set (v # vs) then lowerCount sc t msh w else valences t ! nat w)"
      unfolding a b by simp
  qed
  have vt1: "vert2tree t1 ! nat w = vert2tree t ! nat w"
    if "0 \<le> w" "w < sizeS sc" "\<not> (w = v \<and> ?c = 0)" for w
  proof (cases "w = v")
    case True
    then show ?thesis using that by (simp add: t1_def)
  next
    case False
    then have "nat v \<noteq> nat w" using that v by simp
    then show ?thesis by (simp add: t1_def)
  qed
  have vt': "\<forall>w. 0 \<le> w \<and> w < sizeS sc \<and> \<not> (w \<in> set (v # vs) \<and> lowerCount sc t msh w = 0) \<longrightarrow>
           vert2tree t' ! nat w = vert2tree t ! nat w"
  proof (intro allI impI)
    fix w assume w: "0 \<le> w \<and> w < sizeS sc \<and> \<not> (w \<in> set (v # vs) \<and> lowerCount sc t msh w = 0)"
    then have "vert2tree t' ! nat w = vert2tree t1 ! nat w" using vt by auto
    moreover have "vert2tree t1 ! nat w = vert2tree t ! nat w"
      using w by (intro vt1) auto
    ultimately show "vert2tree t' ! nat w = vert2tree t ! nat w" by simp
  qed
  show ?case
  proof (cases "?c = 0")
    case True
    have n1: "nodes t1 = nodes t @ [leafNode v]" using True by (simp add: t1_def)
    have nd': "nodes t' = nodes t @ map leafNode (filter (\<lambda>w. lowerCount sc t msh w = 0) (v # vs))"
      using nd n1 True by simp
    have at_v: "vert2tree t' ! nat v = CNode (int (length (nodes t)))"
    proof -
      have "vert2tree t' ! nat v = vert2tree t1 ! nat v" using vt v by auto
      also have "\<dots> = CNode (int (length (nodes t)))"
        using True nv Cons.prems(4) by (simp add: t1_def)
      finally show ?thesis .
    qed
    have ix': "\<forall>j < length (filter (\<lambda>w. lowerCount sc t msh w = 0) (v # vs)).
           vert2tree t' ! nat (filter (\<lambda>w. lowerCount sc t msh w = 0) (v # vs) ! j)
             = CNode (int (length (nodes t) + j))"
    proof (intro allI impI)
      fix j assume j: "j < length (filter (\<lambda>w. lowerCount sc t msh w = 0) (v # vs))"
      show "vert2tree t' ! nat (filter (\<lambda>w. lowerCount sc t msh w = 0) (v # vs) ! j)
             = CNode (int (length (nodes t) + j))"
      proof (cases j)
        case 0
        then show ?thesis using True at_v by simp
      next
        case (Suc i)
        then have "i < length (filter (\<lambda>w. lowerCount sc t msh w = 0) vs)"
          using j True by simp
        then show ?thesis using ix n1 True Suc by simp
      qed
    qed
    show ?thesis using run fr' ln va' nd' vt' ix' by blast
  next
    case False
    have n1: "nodes t1 = nodes t" using False by (simp add: t1_def)
    have nd': "nodes t' = nodes t @ map leafNode (filter (\<lambda>w. lowerCount sc t msh w = 0) (v # vs))"
      using nd n1 False by simp
    have ix': "\<forall>j < length (filter (\<lambda>w. lowerCount sc t msh w = 0) (v # vs)).
           vert2tree t' ! nat (filter (\<lambda>w. lowerCount sc t msh w = 0) (v # vs) ! j)
             = CNode (int (length (nodes t) + j))"
      using ix n1 False by simp
    show ?thesis using run fr' ln va' nd' vt' ix' by blast
  qed
qed


lemma precompute_already_done:
  assumes "nodes t \<noteq> []"
  shows "precompute p sc msh t = Some (1, t\<lparr>leaves := [0 .. int (length (nodes t)) - 1]\<rparr>)"
  using assms by (simp add: precompute_def getNumberOfNodes_def)

text \<open>
  C3. On a tree with no node yet, whose \<^verbatim>\<open>vert2tree\<close> is nil everywhere, and
  with chunks that cover the vertices, \<^verbatim>\<open>precompute\<close> returns 0 and a tree in
  which the valence of every vertex is the number of its neighbours lower in the
  sweep order, the nodes are the leaf nodes of the vertices whose count is 0 and
  of no other vertex, \<^verbatim>\<open>vert2tree\<close> records a node for a vertex exactly when
  its count is 0, and the list of leaves is the node ids from 0 up to the number
  of nodes. (On a tree that has nodes already \<^verbatim>\<open>precompute\<close> computes no
  valence and only fills the list of leaves: \<open>precompute_already_done\<close>.)
\<close>

theorem precompute_valences_leaves:
  assumes fresh: "nodes t = []" "vert2tree t = replicate (nat (sizeS sc)) CNil"
    and len: "length (valences t) = nat (sizeS sc)"
    and cover: "0 \<le> getChunkSize p (sizeS sc) None"
      "sizeS sc \<le> getChunkCount p (sizeS sc) None * getChunkSize p (sizeS sc) None"
  shows "\<exists>t'. precompute p sc msh t = Some (0, t')
     \<and> valences t' = map (lowerCount sc t msh) [0 .. sizeS sc - 1]
     \<and> nodes t' = map leafNode (filter (\<lambda>v. lowerCount sc t msh v = 0) [0 .. sizeS sc - 1])
     \<and> (\<forall>v. 0 \<le> v \<and> v < sizeS sc \<longrightarrow>
           (\<exists>n. vert2tree t' ! nat v = CNode n) = (lowerCount sc t msh v = 0))
     \<and> (\<forall>j < length (nodes t'). vert2tree t' ! nat (vertexId (nodes t' ! j)) = CNode (int j))
     \<and> leaves t' = [0 .. int (length (nodes t')) - 1]"
proof -
  let ?N = "sizeS sc"
  let ?vs = "[0 .. ?N - 1]"
  let ?F = "filter (\<lambda>v. lowerCount sc t msh v = 0) ?vs"
  have 1: "distinct ?vs" by simp
  have 2: "\<forall>v\<in>set ?vs. 0 \<le> v \<and> v < ?N" by simp
  have 4: "length (vert2tree t) = nat ?N" using fresh(2) by simp
  have 5: "\<forall>v\<in>set ?vs. vert2tree t ! nat v = CNil" using fresh(2) by simp
  from precompute_loop [OF 1 2 len 4 5, of msh] obtain t1 where
    r: "forEach ?vs (precomputeVertex sc msh) t = Some t1"
    and ln: "length (valences t1) = nat ?N" "length (vert2tree t1) = nat ?N"
    and va: "\<forall>v. 0 \<le> v \<and> v < ?N \<longrightarrow>
           valences t1 ! nat v
             = (if v \<in> set ?vs then lowerCount sc t msh v else valences t ! nat v)"
    and nd: "nodes t1 = nodes t @ map leafNode ?F"
    and vt: "\<forall>v. 0 \<le> v \<and> v < ?N \<and> \<not> (v \<in> set ?vs \<and> lowerCount sc t msh v = 0) \<longrightarrow>
           vert2tree t1 ! nat v = vert2tree t ! nat v"
    and ix: "\<forall>j < length ?F. vert2tree t1 ! nat (?F ! j) = CNode (int (length (nodes t) + j))"
    by blast
  let ?t' = "t1\<lparr>leaves := [0 .. int (length (nodes t1)) - 1]\<rparr>"
  have run: "precompute p sc msh t = Some (0, ?t')"
    using fresh(1) r forChunks_cover [OF cover, of "precomputeVertex sc msh" t]
    by (simp add: precompute_def getNumberOfNodes_def)
  have a: "valences ?t' = map (lowerCount sc t msh) ?vs"
  proof (rule nth_equalityI)
    show "length (valences ?t') = length (map (lowerCount sc t msh) ?vs)"
      using ln by simp
  next
    fix i assume "i < length (valences ?t')"
    then have i: "i < nat ?N" using ln by simp
    then have "int i \<in> set ?vs" "0 \<le> int i \<and> int i < ?N" by auto
    then have "valences t1 ! nat (int i) = lowerCount sc t msh (int i)" using va by metis
    moreover have "?vs ! i = int i" using i by (simp add: nth_upto)
    ultimately show "valences ?t' ! i = map (lowerCount sc t msh) ?vs ! i"
      using i by simp
  qed
  have b: "nodes ?t' = map leafNode ?F" using nd fresh(1) by simp
  have c: "\<forall>v. 0 \<le> v \<and> v < ?N \<longrightarrow>
           (\<exists>n. vert2tree ?t' ! nat v = CNode n) = (lowerCount sc t msh v = 0)"
  proof (intro allI impI)
    fix v assume v: "0 \<le> v \<and> v < ?N"
    show "(\<exists>n. vert2tree ?t' ! nat v = CNode n) = (lowerCount sc t msh v = 0)"
    proof (cases "lowerCount sc t msh v = 0")
      case True
      then have "v \<in> set ?F" using v by simp
      then obtain j where "j < length ?F" "?F ! j = v"
        unfolding in_set_conv_nth by blast
      then have "vert2tree t1 ! nat v = CNode (int (length (nodes t) + j))" using ix by auto
      then show ?thesis using True by simp
    next
      case False
      then have "vert2tree t1 ! nat v = vert2tree t ! nat v" using vt v by auto
      then have "vert2tree t1 ! nat v = CNil" using fresh(2) v by simp
      then show ?thesis using False by simp
    qed
  qed
  have d: "\<forall>j < length (nodes ?t'). vert2tree ?t' ! nat (vertexId (nodes ?t' ! j)) = CNode (int j)"
  proof (intro allI impI)
    fix j assume "j < length (nodes ?t')"
    then have j: "j < length ?F" using b by simp
    then have "nodes ?t' ! j = leafNode (?F ! j)" using b by simp
    then have "vertexId (nodes ?t' ! j) = ?F ! j" by (simp add: leafNode_def)
    then show "vert2tree ?t' ! nat (vertexId (nodes ?t' ! j)) = CNode (int j)"
      using ix j fresh(1) by simp
  qed
  have e: "leaves ?t' = [0 .. int (length (nodes ?t')) - 1]" by simp
  from run a b c d e show ?thesis by blast
qed

lemma ex_lowerCount:
  "map (lowerCount exScalars (initTree Join exScalars) (pathMesh 3)) [0 .. 3 - 1] = [0, 2, 0]"
  by code_simp

lemma ex_minima:
  "filter (\<lambda>v. lowerCount exScalars (initTree Join exScalars) (pathMesh 3) v = 0) [0 .. 3 - 1]
     = [0, 2]"
  by code_simp

theorem precompute_valences_leaves_witness:
  "map_option (\<lambda>(r, t). (r, valences t, nodes t, leaves t))
     (precompute oneChunk exScalars (pathMesh 3) (initTree Join exScalars))
   = Some (0, [0, 2, 0], [leafNode 0, leafNode 2], [0, 1])"
proof -
  have s: "sizeS exScalars = 3" by (simp add: exScalars_def mkScalars_def)
  show ?thesis
    using precompute_valences_leaves [of "initTree Join exScalars" exScalars oneChunk "pathMesh 3"]
      ex_lowerCount ex_minima
    by (auto simp: s initTree_def oneChunk_def upto.simps)
qed


subsection \<open>The union-find and the valences in propage\<close>

lemma ufRoot_mono: "ufRoot k i h = Some r \<Longrightarrow> k \<le> k' \<Longrightarrow> ufRoot k' i h = Some r"
proof (induction k arbitrary: i k')
  case 0
  then show ?case by simp
next
  case (Suc k)
  then obtain m where m: "k' = Suc m" "k \<le> m" by (cases k') auto
  show ?case using Suc.prems(1) Suc.IH [OF _ m(2)] unfolding m(1)
    by (auto split: if_splits)
qed

lemma ufRoot_det: "ufRoot k i h = Some r \<Longrightarrow> ufRoot k' i h = Some r' \<Longrightarrow> r = r'"
  using ufRoot_mono [of k i h r "max k k'"] ufRoot_mono [of k' i h r' "max k k'"] by simp

lemma ufRoot_is_root: "ufRoot k i h = Some r \<Longrightarrow> r < length h \<and> parent (h ! r) = r"
  by (induction k arbitrary: i) (auto split: if_splits)

lemma ufRoot_of_root: "r < length h \<Longrightarrow> parent (h ! r) = r \<Longrightarrow> ufRoot (Suc k) r h = Some r"
  by simp

lemma ufRoot_outside: "length h \<le> j \<Longrightarrow> ufRoot k j h = None"
  by (cases k) simp_all

lemma compressed_refl: "compressed h h"
  by (simp add: compressed_def)

lemma compressed_root:
  assumes "compressed h h'"
  shows "ufRoot k j h = Some q \<Longrightarrow> ufRoot k j h' = Some q"
proof (induction k arbitrary: j)
  case 0
  then show ?case by simp
next
  case (Suc k)
  from Suc.prems have j: "j < length h" by (auto split: if_splits)
  then have j': "\<not> length h' \<le> j" using assms by (simp add: compressed_def)
  from assms j have alt: "parent (h' ! j) = parent (h ! j)
      \<or> (\<exists>m. ufRoot m j h = Some (parent (h' ! j)))"
    by (simp add: compressed_def)
  show ?case
  proof (cases "parent (h ! j) = j")
    case True
    then have q: "q = j" using Suc.prems j by simp
    have "parent (h' ! j) = j"
      using alt
    proof
      assume "parent (h' ! j) = parent (h ! j)"
      then show ?thesis using True by simp
    next
      assume "\<exists>m. ufRoot m j h = Some (parent (h' ! j))"
      then obtain m where "ufRoot m j h = Some (parent (h' ! j))" by blast
      from ufRoot_det [OF this Suc.prems] show ?thesis using q by simp
    qed
    then show ?thesis using j' q by simp
  next
    case False
    then have up: "ufRoot k (parent (h ! j)) h = Some q" using Suc.prems j by simp
    then obtain k0 where k0: "k = Suc k0" by (cases k) auto
    have qr: "q < length h" "parent (h ! q) = q" using ufRoot_is_root [OF up] by simp_all
    have qj: "q \<noteq> j" using qr False by auto
    from alt show ?thesis
    proof
      assume same: "parent (h' ! j) = parent (h ! j)"
      then show ?thesis using j' False Suc.IH [OF up] by simp
    next
      assume "\<exists>m. ufRoot m j h = Some (parent (h' ! j))"
      then obtain m where "ufRoot m j h = Some (parent (h' ! j))" by blast
      from ufRoot_det [OF this Suc.prems] have p: "parent (h' ! j) = q" .
      have "ufRoot k q h = Some q" using qr k0 by simp
      from Suc.IH [OF this] show ?thesis using j' p qj by simp
    qed
  qed
qed

lemma ufFind_compressed:
  "ufFind k i h = Some (r, h') \<Longrightarrow> ufRoot k i h = Some r \<and> compressed h h'"
proof (induction k arbitrary: i r h')
  case 0
  then show ?case by simp
next
  case (Suc k)
  from Suc.prems have i: "i < length h" by (auto split: if_splits)
  show ?case
  proof (cases "parent (h ! i) = i")
    case True
    then show ?thesis using Suc.prems i by (simp add: compressed_refl)
  next
    case False
    with Suc.prems i obtain h1 where
      f: "ufFind k (parent (h ! i)) h = Some (r, h1)"
      and h': "h' = h1[i := (h1 ! i)\<lparr>parent := r\<rparr>]"
      by (auto split: option.splits)
    from Suc.IH [OF f] have ih: "ufRoot k (parent (h ! i)) h = Some r" "compressed h h1"
      by simp_all
    have root: "ufRoot (Suc k) i h = Some r" using ih(1) i False by simp
    have "compressed h h'"
      unfolding compressed_def
    proof (intro conjI allI impI)
      show "length h' = length h" using ih(2) h' by (simp add: compressed_def)
    next
      fix j assume j: "j < length h"
      then have j1: "j < length h1" using ih(2) by (simp add: compressed_def)
      show "parent (h' ! j) = parent (h ! j) \<or> (\<exists>k. ufRoot k j h = Some (parent (h' ! j)))"
      proof (cases "j = i")
        case True
        then have "parent (h' ! j) = r" using h' j1 by simp
        then show ?thesis using root True by blast
      next
        case False
        then have "h' ! j = h1 ! j" using h' by simp
        then show ?thesis using ih(2) j by (simp add: compressed_def)
      qed
    qed
    with root show ?thesis by simp
  qed
qed

lemma ufWf_iff: "ufWf h \<longleftrightarrow> (\<forall>i < length h. ufRoot (length h) i h \<noteq> None)"
  by (auto simp: ufWf_def list_all_iff)

lemma compressed_same:
  assumes "ufWf h" "compressed h h'"
  shows "ufWf h' \<and> ufSame h h'"
proof -
  have len: "length h' = length h" using assms(2) by (simp add: compressed_def)
  have eq: "ufRoot (length h) j h' = ufRoot (length h) j h" for j
  proof (cases "j < length h")
    case True
    then obtain q where q: "ufRoot (length h) j h = Some q" using assms(1) by (auto simp: ufWf_iff)
    from compressed_root [OF assms(2) q] show ?thesis using q by simp
  next
    case False
    then show ?thesis using len by (simp add: ufRoot_outside)
  qed
  then show ?thesis using assms(1) len by (simp add: ufWf_iff ufSame_def)
qed

lemma ufSame_trans: "ufSame h h1 \<Longrightarrow> ufSame h1 h2 \<Longrightarrow> ufSame h h2"
  by (simp add: ufSame_def)

lemma ufSame_refl: "ufSame h h"
  by (simp add: ufSame_def)

lemma ufSame_class:
  "ufSame (ufHeap t) (ufHeap t') \<Longrightarrow> ufClass t' u = ufClass t u"
  by (simp add: ufSame_def ufClass_def)

lemma findUF_class:
  assumes "ufWf (ufHeap t)" "findUF u t = Some (r, t')"
  shows "ufClass t u = Some r \<and> ufWf (ufHeap t') \<and> ufSame (ufHeap t) (ufHeap t')
     \<and> t' = t\<lparr>ufHeap := ufHeap t'\<rparr>"
proof -
  from assms(2) obtain r0 h' where
    u: "0 \<le> u" and f: "ufFind (length (ufHeap t)) (nat u) (ufHeap t) = Some (r0, h')"
    and r: "r = int r0" and t': "t' = t\<lparr>ufHeap := h'\<rparr>"
    by (auto simp: findUF_def split: if_splits)
  from ufFind_compressed [OF f] have
    "ufRoot (length (ufHeap t)) (nat u) (ufHeap t) = Some r0" "compressed (ufHeap t) h'"
    by simp_all
  then show ?thesis
    using compressed_same [OF assms(1), of h'] u r t' by (simp add: ufClass_def)
qed


lemma modState_frame:
  "modState cs f t = Some t' \<Longrightarrow> \<exists>sh. t' = t\<lparr>stateHeap := sh\<rparr>"
  by (auto simp: modState_def split: bind_splits)

lemma propageNeigh_step:
  assumes wf: "ufWf (ufHeap t)"
    and run: "propageNeigh sc cs curUFF v n (b, d, t) = Some (b', d', t')"
  shows "ufs t' = ufs t \<and> valences t' = valences t \<and> treeType t' = treeType t
     \<and> ufWf (ufHeap t') \<and> ufSame (ufHeap t) (ufHeap t')
     \<and> d' = d + (if vertLower sc t n v
                    \<and> (case rd (ufs t) n of
                         Some (Some nu) \<Rightarrow> ufClass t nu = Some curUFF
                       | _ \<Rightarrow> False)
                  then 1 else 0)"
proof (cases "vertLower sc t n v")
  case True
  from run True obtain neighUF where nu: "rd (ufs t) n = Some neighUF"
    by (auto simp: propageNeigh_def split: bind_splits)
  show ?thesis
  proof (cases neighUF)
    case None
    then show ?thesis using run True nu wf by (simp add: propageNeigh_def ufSame_refl)
  next
    case (Some u)
    with run True nu obtain r t1 where f: "findUF u t = Some (r, t1)"
      and res: "(b', d', t') = (if r \<noteq> curUFF then (True, d, t1) else (b, d + 1, t1))"
      by (auto simp: propageNeigh_def split: bind_splits if_splits)
    from findUF_class [OF wf f] have c: "ufClass t u = Some r" "ufWf (ufHeap t1)"
      "ufSame (ufHeap t) (ufHeap t1)" "t1 = t\<lparr>ufHeap := ufHeap t1\<rparr>" by simp_all
    have t1: "ufs t1 = ufs t" "valences t1 = valences t" "treeType t1 = treeType t"
      by (subst c(4), simp)+
    show ?thesis using res c(1,2,3) t1 True nu Some by (auto split: if_splits)
  qed
next
  case False
  from run False obtain pr where pr: "rd (propagation t) n = Some pr"
    by (auto simp: propageNeigh_def split: bind_splits)
  have "\<exists>other t1. (case pr of
            None \<Rightarrow> Some (True, t)
          | Some pu \<Rightarrow> do { (r, t1) \<leftarrow> findUF pu t; Some (r \<noteq> curUFF, t1) }) = Some (other, t1)
        \<and> ufWf (ufHeap t1) \<and> ufSame (ufHeap t) (ufHeap t1) \<and> t1 = t\<lparr>ufHeap := ufHeap t1\<rparr>"
  proof (cases pr)
    case None
    then show ?thesis using wf by (auto simp: ufSame_refl)
  next
    case (Some pu)
    with run False pr obtain r t1 where f: "findUF pu t = Some (r, t1)"
      by (auto simp: propageNeigh_def split: bind_splits)
    from findUF_class [OF wf f] show ?thesis using Some f by simp
  qed
  then obtain other t1 where
    o: "(case pr of
            None \<Rightarrow> Some (True, t)
          | Some pu \<Rightarrow> do { (r, t1) \<leftarrow> findUF pu t; Some (r \<noteq> curUFF, t1) }) = Some (other, t1)"
    and c: "ufWf (ufHeap t1)" "ufSame (ufHeap t) (ufHeap t1)" "t1 = t\<lparr>ufHeap := ufHeap t1\<rparr>"
    by blast
  have t1: "ufs t1 = ufs t" "valences t1 = valences t" "treeType t1 = treeType t"
    by (subst c(3), simp)+
  show ?thesis
  proof (cases other)
    case True
    with run False pr o obtain t2 prs where
      a: "addNewVertex cs n t1 = Some t2" and w: "wr (propagation t2) n (Some curUFF) = Some prs"
      and res: "(b', d', t') = (b, d, t2\<lparr>propagation := prs\<rparr>)"
      by (auto simp: propageNeigh_def split: bind_splits)
    from modState_frame [OF a [unfolded addNewVertex_def]] obtain sh where
      "t2 = t1\<lparr>stateHeap := sh\<rparr>" by blast
    then show ?thesis using res c(1,2) t1 False by simp
  next
    case False': False
    with run False pr o have "(b', d', t') = (b, d, t1)"
      by (auto simp: propageNeigh_def split: bind_splits)
    then show ?thesis using c(1,2) t1 False by simp
  qed
qed


lemma propage_loop:
  assumes "ufWf (ufHeap t)"
    and "forEach ns (propageNeigh sc cs curUFF v) (b, d, t) = Some (b', d', t')"
  shows "ufs t' = ufs t \<and> valences t' = valences t \<and> treeType t' = treeType t
     \<and> ufWf (ufHeap t') \<and> ufSame (ufHeap t) (ufHeap t')
     \<and> d' = d + int (length (filter (\<lambda>n. vertLower sc t n v
                    \<and> (case rd (ufs t) n of
                         Some (Some nu) \<Rightarrow> ufClass t nu = Some curUFF
                       | _ \<Rightarrow> False)) ns))"
  using assms
proof (induction ns arbitrary: b d t)
  case Nil
  then show ?case by (simp add: ufSame_refl)
next
  case (Cons n ns)
  from Cons.prems(2) obtain b1 d1 t1 where
    s: "propageNeigh sc cs curUFF v n (b, d, t) = Some (b1, d1, t1)"
    and r: "forEach ns (propageNeigh sc cs curUFF v) (b1, d1, t1) = Some (b', d', t')"
    by (cases "propageNeigh sc cs curUFF v n (b, d, t)") auto
  from propageNeigh_step [OF Cons.prems(1) s] have
    p: "ufs t1 = ufs t" "valences t1 = valences t" "treeType t1 = treeType t"
      "ufWf (ufHeap t1)" "ufSame (ufHeap t) (ufHeap t1)"
    and d1: "d1 = d + (if vertLower sc t n v
                    \<and> (case rd (ufs t) n of
                         Some (Some nu) \<Rightarrow> ufClass t nu = Some curUFF
                       | _ \<Rightarrow> False)
                  then 1 else 0)"
    by simp_all
  have vl: "vertLower sc t1 = vertLower sc t" by (rule vertLower_treeType [OF p(3)])
  have cl: "ufClass t1 u = ufClass t u" for u by (rule ufSame_class [OF p(5)])
  from Cons.IH [OF p(4) r] have
    q: "ufs t' = ufs t1" "valences t' = valences t1" "treeType t' = treeType t1"
      "ufWf (ufHeap t')" "ufSame (ufHeap t1) (ufHeap t')"
    and d': "d' = d1 + int (length (filter (\<lambda>n. vertLower sc t n v
                    \<and> (case rd (ufs t) n of
                         Some (Some nu) \<Rightarrow> ufClass t nu = Some curUFF
                       | _ \<Rightarrow> False)) ns))"
    unfolding vl cl p(1) by simp_all
  show ?case
    using p(1,2,3) q(1,2,3,4) ufSame_trans [OF p(5) q(5)] d1 d' by simp
qed

text \<open>
  C2. A call of \<^verbatim>\<open>propage\<close> on the vertex \<open>v\<close> of the queue, on a well formed
  union-find heap: \<open>decr\<close> is the number of the neighbours of \<open>v\<close> that
  are lower in the sweep order and owned by the class of \<open>curUF\<close>; the call
  reads the valence of \<open>v\<close>, stores it decreased by \<open>decr\<close>, changes no other
  valence, and returns \<open>isLast\<close> true exactly when the valence read equals
  \<open>decr\<close>.
\<close>

theorem propage_isLast:
  assumes wf: "ufWf (ufHeap t)"
    and st: "rd (stateHeap t) cs = Some st"
    and run: "propage sc msh cs curUF t = Some ((becameSaddle, isLast), t')"
  shows "\<exists>oldVal. rd (valences t) (vertex st) = Some oldVal
     \<and> valences t' = (valences t)[nat (vertex st) :=
          oldVal - int (length (ownedLower sc t msh (vertex st) curUF))]
     \<and> isLast = (oldVal = int (length (ownedLower sc t msh (vertex st) curUF)))"
proof -
  let ?v = "vertex st"
  from run st obtain curUFF t1 b d t2 oldVal vs where
    f: "findUF curUF t = Some (curUFF, t1)"
    and l: "forEach (msh ?v) (propageNeigh sc cs curUFF ?v) (False, 0, t1) = Some (b, d, t2)"
    and o: "rd (valences t2) ?v = Some oldVal"
    and w: "wr (valences t2) ?v (oldVal - d) = Some vs"
    and res: "isLast = (oldVal = d)" "t' = t2\<lparr>valences := vs\<rparr>"
    by (auto simp: propage_def Let_def split: bind_splits)
  from findUF_class [OF wf f] have c: "ufClass t curUF = Some curUFF" "ufWf (ufHeap t1)"
    "ufSame (ufHeap t) (ufHeap t1)" "t1 = t\<lparr>ufHeap := ufHeap t1\<rparr>" by simp_all
  have t1: "ufs t1 = ufs t" "valences t1 = valences t" "treeType t1 = treeType t"
    by (subst c(4), simp)+
  have vl: "vertLower sc t1 = vertLower sc t" by (rule vertLower_treeType [OF t1(3)])
  have cl: "ufClass t1 u = ufClass t u" for u by (rule ufSame_class [OF c(3)])
  from propage_loop [OF c(2) l] have
    p: "valences t2 = valences t"
    and d: "d = int (length (filter (\<lambda>n. vertLower sc t n ?v
                    \<and> (case rd (ufs t) n of
                         Some (Some nu) \<Rightarrow> ufClass t nu = Some curUFF
                       | _ \<Rightarrow> False)) (msh ?v)))"
    unfolding vl cl t1 by simp_all
  have d': "d = int (length (ownedLower sc t msh ?v curUF))"
    unfolding d ownedLower_def c(1) ..
  from w have "vs = (valences t)[nat ?v := oldVal - d]"
    unfolding p by (auto simp: wr_def split: if_splits)
  then show ?thesis using o res p d' by simp
qed

theorem propage_isLast_witness:
  "ownedLower exScalars (exSweep\<lparr>stateHeap := [\<lparr>vertex = 1, front = []\<rparr>]\<rparr>) (pathMesh 3) 1 0 = [0]
   \<and> rd (valences exSweep) 1 = Some 2
   \<and> map_option (\<lambda>(r, t). (snd r, valences t))
       (propage exScalars (pathMesh 3) 0 0 (exSweep\<lparr>stateHeap := [\<lparr>vertex = 1, front = []\<rparr>]\<rparr>))
     = Some (False, [0, 1, 0])
   \<and> ownedLower exScalars
        (exLast\<lparr>stateHeap := [\<lparr>vertex = 1, front = []\<rparr>, \<lparr>vertex = 1, front = []\<rparr>]\<rparr>)
        (pathMesh 3) 1 1 = [2]
   \<and> rd (valences exLast) 1 = Some 1
   \<and> map_option (\<lambda>(r, t). (snd r, valences t))
       (propage exScalars (pathMesh 3) 1 1
          (exLast\<lparr>stateHeap := [\<lparr>vertex = 1, front = []\<rparr>, \<lparr>vertex = 1, front = []\<rparr>]\<rparr>))
     = Some (True, [0, 0, 0])"
proof -
  let ?t = "exSweep\<lparr>stateHeap := [\<lparr>vertex = 1, front = []\<rparr>]\<rparr>"
  let ?u = "exLast\<lparr>stateHeap := [\<lparr>vertex = 1, front = []\<rparr>, \<lparr>vertex = 1, front = []\<rparr>]\<rparr>"
  have wf: "ufWf (ufHeap ?t)" "ufWf (ufHeap ?u)" by code_simp+
  have st: "rd (stateHeap ?t) 0 = Some \<lparr>vertex = 1, front = []\<rparr>"
    "rd (stateHeap ?u) 1 = Some \<lparr>vertex = 1, front = []\<rparr>"
    by (simp_all add: rd_def inRange_def)
  have ow: "ownedLower exScalars ?t (pathMesh 3) 1 0 = [0]"
    "ownedLower exScalars ?u (pathMesh 3) 1 1 = [2]" by code_simp+
  have va: "rd (valences exSweep) 1 = Some 2" "rd (valences exLast) 1 = Some 1"
    by (simp_all add: rd_def inRange_def exSweep_def exLast_def)
  show ?thesis
    using propage_isLast [OF wf(1) st(1) exSweep_propage]
      propage_isLast [OF wf(2) st(2) exLast_propage]
    unfolding exSweep_propage exLast_propage ow
    using va by simp
qed


subsection \<open>Segmentation\<close>

lemma set_insortBy: "set (insortBy lt x xs) = insert x (set xs)"
  by (induction xs) auto

lemma set_sortBy: "set (sortBy lt xs) = set xs"
  by (induction xs) (simp_all add: sortBy_def set_insortBy)

lemma length_insortBy: "length (insortBy lt x xs) = Suc (length xs)"
  by (induction xs) auto

lemma length_sortBy: "length (sortBy lt xs) = length xs"
  by (induction xs) (simp_all add: sortBy_def length_insortBy)

lemma sorted_insortBy:
  assumes tr: "\<And>x y z. \<not> lt y x \<Longrightarrow> \<not> lt z y \<Longrightarrow> \<not> lt z x"
    and asym: "\<And>x y. lt x y \<Longrightarrow> \<not> lt y x"
  shows "sorted_wrt (\<lambda>x y. \<not> lt y x) xs \<Longrightarrow> sorted_wrt (\<lambda>x y. \<not> lt y x) (insortBy lt x xs)"
proof (induction xs)
  case Nil
  then show ?case by simp
next
  case (Cons y ys)
  show ?case
  proof (cases "lt y x")
    case True
    then have "\<not> lt x y" by (rule asym)
    then show ?thesis using Cons True by (auto simp: set_insortBy)
  next
    case False
    then have "\<forall>z\<in>set ys. \<not> lt z x" using Cons.prems tr by auto
    then show ?thesis using Cons.prems False by simp
  qed
qed

lemma sorted_sortBy:
  assumes "\<And>x y z. \<not> lt y x \<Longrightarrow> \<not> lt z y \<Longrightarrow> \<not> lt z x"
    and "\<And>x y. lt x y \<Longrightarrow> \<not> lt y x"
  shows "sorted_wrt (\<lambda>x y. \<not> lt y x) (sortBy lt xs)"
proof (induction xs)
  case Nil
  then show ?case by (simp add: sortBy_def)
next
  case (Cons x xs)
  have "sorted_wrt (\<lambda>x y. \<not> lt y x) (insortBy lt x (sortBy lt xs))"
    using assms(1) assms(2) Cons by (rule sorted_insortBy)
  then show ?case by (simp add: sortBy_def)
qed


lemma sizes_loop:
  assumes "distinct is" "\<forall>i\<in>set is. inRange i sas \<and> inRange i sizes"
  shows "\<exists>sizes'. forEach is (\<lambda>a sizes. do { arc \<leftarrow> rd sas a; wr sizes a (F arc) }) sizes
           = Some sizes'
     \<and> length sizes' = length sizes
     \<and> (\<forall>j<length sizes. sizes' ! j = (if int j \<in> set is then F (sas ! j) else sizes ! j))"
  using assms
proof (induction "is" arbitrary: sizes)
  case Nil
  then show ?case by simp
next
  case (Cons i "is")
  let ?s1 = "sizes[nat i := F (sas ! nat i)]"
  have i: "inRange i sas" "inRange i sizes" "i \<notin> set is" using Cons.prems by simp_all
  have step: "do { arc \<leftarrow> rd sas i; wr sizes i (F arc) } = Some ?s1"
    using i by (simp add: rd_in wr_in)
  have p: "distinct is" "\<forall>j\<in>set is. inRange j sas \<and> inRange j ?s1"
    using Cons.prems by (simp_all add: inRange_def)
  from Cons.IH [OF p] obtain sizes' where
    r: "forEach is (\<lambda>a sizes. do { arc \<leftarrow> rd sas a; wr sizes a (F arc) }) ?s1 = Some sizes'"
    and l: "length sizes' = length ?s1"
    and e: "\<forall>j<length ?s1. sizes' ! j = (if int j \<in> set is then F (sas ! j) else ?s1 ! j)"
    by blast
  have "\<forall>j<length sizes. sizes' ! j = (if int j \<in> set (i # is) then F (sas ! j) else sizes ! j)"
  proof (intro allI impI)
    fix j assume j: "j < length sizes"
    show "sizes' ! j = (if int j \<in> set (i # is) then F (sas ! j) else sizes ! j)"
    proof (cases "int j = i")
      case True
      then have "nat i = j" by simp
      then show ?thesis using e j i(3) True by simp
    next
      case False
      then have "nat i \<noteq> j" using i(2) by (auto simp: inRange_def)
      then show ?thesis using e j False by simp
    qed
  qed
  then show ?case using step r l by simp
qed

lemma regions_loop:
  assumes "distinct is" "\<forall>i\<in>set is. inRange i (superArcs t) \<and> inRange i (segments t)"
  shows "\<exists>sas'. forEach is (\<lambda>a t. do {
         seg \<leftarrow> rd (segments t) a;
         if length seg \<noteq> 0 then modSuperArc a (\<lambda>arc. arc\<lparr>region := region arc @ seg\<rparr>) t
         else Some t
       }) t = Some (t\<lparr>superArcs := sas'\<rparr>)
     \<and> length sas' = length (superArcs t)
     \<and> (\<forall>j<length (superArcs t). sas' ! j =
           (if int j \<in> set is
            then (superArcs t ! j)\<lparr>region := region (superArcs t ! j) @ segments t ! j\<rparr>
            else superArcs t ! j))"
  using assms
proof (induction "is" arbitrary: t)
  case Nil
  show ?case by (rule exI [of _ "superArcs t"]) simp
next
  case (Cons i "is")
  let ?body = "\<lambda>a t. do {
         seg \<leftarrow> rd (segments t) a;
         if length seg \<noteq> 0 then modSuperArc a (\<lambda>arc. arc\<lparr>region := region arc @ seg\<rparr>) t
         else Some t
       }"
  let ?arc = "(superArcs t ! nat i)\<lparr>region := region (superArcs t ! nat i) @ segments t ! nat i\<rparr>"
  let ?t1 = "t\<lparr>superArcs := (superArcs t)[nat i := ?arc]\<rparr>"
  have i: "inRange i (superArcs t)" "inRange i (segments t)" "i \<notin> set is"
    using Cons.prems by simp_all
  have step: "?body i t = Some ?t1"
  proof (cases "segments t ! nat i = []")
    case True
    then have "?arc = superArcs t ! nat i" by simp
    then have "?t1 = t" by simp
    then show ?thesis using i(2) True by (simp add: rd_in)
  next
    case False
    then show ?thesis using i by (simp add: rd_in wr_in modSuperArc_def)
  qed
  have p: "distinct is" "\<forall>j\<in>set is. inRange j (superArcs ?t1) \<and> inRange j (segments ?t1)"
    using Cons.prems by (simp_all add: inRange_def)
  from Cons.IH [OF p] obtain sas' where
    r: "forEach is ?body ?t1 = Some (?t1\<lparr>superArcs := sas'\<rparr>)"
    and l: "length sas' = length (superArcs ?t1)"
    and e: "\<forall>j<length (superArcs ?t1). sas' ! j =
           (if int j \<in> set is
            then (superArcs ?t1 ! j)\<lparr>region := region (superArcs ?t1 ! j) @ segments ?t1 ! j\<rparr>
            else superArcs ?t1 ! j)"
    by blast
  have "\<forall>j<length (superArcs t). sas' ! j =
           (if int j \<in> set (i # is)
            then (superArcs t ! j)\<lparr>region := region (superArcs t ! j) @ segments t ! j\<rparr>
            else superArcs t ! j)"
  proof (intro allI impI)
    fix j assume j: "j < length (superArcs t)"
    show "sas' ! j =
           (if int j \<in> set (i # is)
            then (superArcs t ! j)\<lparr>region := region (superArcs t ! j) @ segments t ! j\<rparr>
            else superArcs t ! j)"
    proof (cases "int j = i")
      case True
      then have "nat i = j" by simp
      then show ?thesis using e j i(3) True by simp
    next
      case False
      then have "nat i \<noteq> j" using i(1) by (auto simp: inRange_def)
      then show ?thesis using e j False by simp
    qed
  qed
  moreover have "forEach (i # is) ?body t = Some (t\<lparr>superArcs := sas'\<rparr>)"
    using step r by simp
  ultimately show ?case using l by auto
qed


lemma fillSegment_step:
  assumes run: "fillSegment sc i (pos, t) = Some (pos', t')"
  shows "\<exists>vert. rd (sortedVertices sc) i = Some vert
     \<and> (((\<forall>a. rd (vert2tree t) vert \<noteq> Some (CArc a)) \<and> pos' = pos \<and> t' = t)
        \<or> (\<exists>sa. rd (vert2tree t) vert = Some (CArc sa)
              \<and> inRange sa pos \<and> inRange sa (segments t)
              \<and> inRange (pos ! nat sa) (segments t ! nat sa)
              \<and> pos' = pos[nat sa := pos ! nat sa + 1]
              \<and> t' = t\<lparr>segments := (segments t)[nat sa :=
                     (segments t ! nat sa)[nat (pos ! nat sa) := vert]]\<rparr>))"
proof -
  from run obtain vert c where v: "rd (sortedVertices sc) i = Some vert"
    and c: "rd (vert2tree t) vert = Some c"
    by (auto simp: fillSegment_def isCorrespondingArc_def split: bind_splits)
  show ?thesis
  proof (cases "\<exists>a. c = CArc a")
    case False
    then have "isCorrespondingArc t vert = Some False"
      using c by (cases c) (simp_all add: isCorrespondingArc_def)
    then have "pos' = pos \<and> t' = t" using run v by (simp add: fillSegment_def)
    then show ?thesis using v c False by auto
  next
    case True
    then obtain sa where sa: "c = CArc sa" by blast
    then have a: "isCorrespondingArc t vert = Some True" "getCorrespondingSuperArcId t vert = Some sa"
      using c by (simp_all add: isCorrespondingArc_def getCorrespondingSuperArcId_def)
    from run v a have
      "inRange sa pos \<and> inRange sa (segments t)
        \<and> inRange (pos ! nat sa) (segments t ! nat sa)
        \<and> pos' = pos[nat sa := pos ! nat sa + 1]
        \<and> t' = t\<lparr>segments := (segments t)[nat sa :=
                     (segments t ! nat sa)[nat (pos ! nat sa) := vert]]\<rparr>"
      by (auto simp: fillSegment_def rd_def wr_def split: bind_splits if_splits)
    then show ?thesis using v c sa by auto
  qed
qed

lemma update_first_free:
  assumes "length xs < length (xs @ replicate k z)"
  shows "(xs @ replicate k z)[length xs := v] = (xs @ [v]) @ replicate (k - 1) z \<and> 0 < k"
proof -
  from assms obtain k' where k: "k = Suc k'" by (cases k) auto
  show ?thesis unfolding k by (simp add: list_update_append)
qed

lemma fill_loop:
  assumes "forEach is (fillSegment sc) (pos, t) = Some (pos', t')"
    and "filled pre pos (segments t)"
  shows "filled (\<lambda>a. pre a @ filter (\<lambda>v. rd (vert2tree t) v = Some (CArc (int a)))
                               (map (\<lambda>i. sortedVertices sc ! nat i) is))
           pos' (segments t')
     \<and> length (segments t') = length (segments t)
     \<and> (\<forall>a < length (segments t). length (segments t' ! a) = length (segments t ! a))
     \<and> t' = t\<lparr>segments := segments t'\<rparr>"
  using assms
proof (induction "is" arbitrary: pos t pre)
  case Nil
  then show ?case by simp
next
  case (Cons i "is")
  from Cons.prems(1) obtain pos1 t1 where
    s: "fillSegment sc i (pos, t) = Some (pos1, t1)"
    and r: "forEach is (fillSegment sc) (pos1, t1) = Some (pos', t')"
    by (cases "fillSegment sc i (pos, t)") auto
  let ?n = "length (segments t)"
  let ?own = "\<lambda>t a. filter (\<lambda>v. rd (vert2tree t) v = Some (CArc (int a)))"
  from fillSegment_step [OF s] obtain vert where
    v: "rd (sortedVertices sc) i = Some vert"
    and alt: "((\<forall>a. rd (vert2tree t) vert \<noteq> Some (CArc a)) \<and> pos1 = pos \<and> t1 = t)
        \<or> (\<exists>sa. rd (vert2tree t) vert = Some (CArc sa)
              \<and> inRange sa pos \<and> inRange sa (segments t)
              \<and> inRange (pos ! nat sa) (segments t ! nat sa)
              \<and> pos1 = pos[nat sa := pos ! nat sa + 1]
              \<and> t1 = t\<lparr>segments := (segments t)[nat sa :=
                     (segments t ! nat sa)[nat (pos ! nat sa) := vert]]\<rparr>)"
    by blast
  have vi: "sortedVertices sc ! nat i = vert" using v by (auto simp: rd_def split: if_splits)
  define pre1 where "pre1 = (\<lambda>a. pre a @ ?own t a [vert])"
  have step: "filled pre1 pos1 (segments t1) \<and> length (segments t1) = ?n
      \<and> (\<forall>a < ?n. length (segments t1 ! a) = length (segments t ! a))
      \<and> t1 = t\<lparr>segments := segments t1\<rparr>"
    using alt
  proof
    assume a: "(\<forall>a. rd (vert2tree t) vert \<noteq> Some (CArc a)) \<and> pos1 = pos \<and> t1 = t"
    then have "pre1 = pre" by (simp add: pre1_def fun_eq_iff)
    then show ?thesis using a Cons.prems(2) by simp
  next
    assume "\<exists>sa. rd (vert2tree t) vert = Some (CArc sa)
              \<and> inRange sa pos \<and> inRange sa (segments t)
              \<and> inRange (pos ! nat sa) (segments t ! nat sa)
              \<and> pos1 = pos[nat sa := pos ! nat sa + 1]
              \<and> t1 = t\<lparr>segments := (segments t)[nat sa :=
                     (segments t ! nat sa)[nat (pos ! nat sa) := vert]]\<rparr>"
    then obtain sa where c: "rd (vert2tree t) vert = Some (CArc sa)"
      and ir: "inRange sa pos" "inRange sa (segments t)"
        "inRange (pos ! nat sa) (segments t ! nat sa)"
      and p1: "pos1 = pos[nat sa := pos ! nat sa + 1]"
      and t1: "t1 = t\<lparr>segments := (segments t)[nat sa :=
                     (segments t ! nat sa)[nat (pos ! nat sa) := vert]]\<rparr>"
      by blast
    have sa: "0 \<le> sa" "nat sa < ?n" using ir(2) inRange_nat [OF ir(2)] by (simp_all add: inRange_def)
    from Cons.prems(2) sa obtain k where
      k: "pos ! nat sa = int (length (pre (nat sa)))"
        "segments t ! nat sa = pre (nat sa) @ replicate k nullVertex"
      and lp: "length pos = ?n"
      unfolding filled_def by blast
    have "length (pre (nat sa)) < length (pre (nat sa) @ replicate k nullVertex)"
      using ir(3) k by (simp add: inRange_def)
    from update_first_free [OF this, of vert] have
      u: "(segments t ! nat sa)[nat (pos ! nat sa) := vert]
            = (pre (nat sa) @ [vert]) @ replicate (k - 1) nullVertex" and k0: "0 < k"
      using k by simp_all
    have own_sa: "pre1 (nat sa) = pre (nat sa) @ [vert]"
      using c sa by (simp add: pre1_def)
    have own_other: "pre1 a = pre a" if "a \<noteq> nat sa" for a
    proof -
      have "int a \<noteq> sa" using that sa by auto
      then show ?thesis using c by (simp add: pre1_def)
    qed
    have "filled pre1 pos1 (segments t1)"
      unfolding filled_def
    proof (intro conjI allI impI)
      show "length pos1 = length (segments t1)" using p1 t1 lp by simp
    next
      fix a assume "a < length (segments t1)"
      then have a: "a < ?n" using t1 by simp
      show "\<exists>k. pos1 ! a = int (length (pre1 a)) \<and> segments t1 ! a = pre1 a @ replicate k nullVertex"
      proof (cases "a = nat sa")
        case True
        have "pos1 ! a = int (length (pre1 a))"
          using True p1 lp sa k(1) own_sa by simp
        moreover have "segments t1 ! a = pre1 a @ replicate (k - 1) nullVertex"
          using True t1 sa u own_sa by simp
        ultimately show ?thesis by blast
      next
        case False
        from Cons.prems(2) a obtain k2 where
          "pos ! a = int (length (pre a))" "segments t ! a = pre a @ replicate k2 nullVertex"
          unfolding filled_def by blast
        then have "pos1 ! a = int (length (pre1 a)) \<and> segments t1 ! a = pre1 a @ replicate k2 nullVertex"
          using False p1 t1 own_other by simp
        then show ?thesis by blast
      qed
    qed
    moreover have "\<forall>a < ?n. length (segments t1 ! a) = length (segments t ! a)"
    proof (intro allI impI)
      fix a assume "a < ?n"
      then show "length (segments t1 ! a) = length (segments t ! a)"
        using t1 by (cases "a = nat sa") simp_all
    qed
    ultimately show ?thesis using t1 by simp
  qed
  then have f1: "filled pre1 pos1 (segments t1)" and l1: "length (segments t1) = ?n"
    and e1: "\<forall>a < ?n. length (segments t1 ! a) = length (segments t ! a)"
    and fr1: "t1 = t\<lparr>segments := segments t1\<rparr>" by simp_all
  have v1: "vert2tree t1 = vert2tree t" by (subst fr1) simp
  from Cons.IH [OF r f1] have
    ih: "filled (\<lambda>a. pre1 a @ ?own t1 a (map (\<lambda>i. sortedVertices sc ! nat i) is))
           pos' (segments t')"
      "length (segments t') = length (segments t1)"
      "\<forall>a < length (segments t1). length (segments t' ! a) = length (segments t1 ! a)"
      "t' = t1\<lparr>segments := segments t'\<rparr>"
    by simp_all
  have pre_eq: "(\<lambda>a. pre1 a @ ?own t1 a (map (\<lambda>i. sortedVertices sc ! nat i) is))
      = (\<lambda>a. pre a @ ?own t a (map (\<lambda>i. sortedVertices sc ! nat i) (i # is)))"
    by (simp add: pre1_def v1 vi fun_eq_iff)
  have "t' = t\<lparr>segments := segments t'\<rparr>" by (subst ih(4), subst fr1) simp
  then show ?case using ih(1,2,3) l1 e1 unfolding pre_eq by simp
qed


lemma run_split:
  assumes ca: "0 \<le> getChunkSize p (int (length (superArcs t))) None"
      "int (length (superArcs t))
         \<le> getChunkCount p (int (length (superArcs t))) None
             * getChunkSize p (int (length (superArcs t))) None"
    and cv: "0 \<le> getChunkSize p (sizeS sc) None"
      "sizeS sc \<le> getChunkCount p (sizeS sc) None * getChunkSize p (sizeS sc) None"
  shows "buildSegmentation p sc t =
    (case forEach [0 .. int (length (superArcs t)) - 1]
            (\<lambda>a sizes. do { arc \<leftarrow> rd (superArcs t) a;
                             wr sizes a (max 0 (getNbVertSeen arc - 1)) })
            (replicate (length (superArcs t)) 0) of
       None \<Rightarrow> None
     | Some sizes \<Rightarrow>
        (case forEach [0 .. sizeS sc - 1] (fillSegment sc)
                (replicate (length (superArcs t)) 0, t\<lparr>segments := resizeSegments sizes\<rparr>) of
           None \<Rightarrow> None
         | Some (pos, t2) \<Rightarrow>
             forEach [0 .. int (length (superArcs t)) - 1] (\<lambda>a t. do {
               seg \<leftarrow> rd (segments t) a;
               if length seg \<noteq> 0
               then modSuperArc a (\<lambda>arc. arc\<lparr>region := region arc @ seg\<rparr>) t
               else Some t
             }) (t2\<lparr>segments := sortAll sc t2 (segments t2)\<rparr>)))"
  unfolding buildSegmentation_def Let_def forChunks_cover [OF ca] forChunks_cover [OF cv]
  by (simp split: option.splits prod.splits)


text \<open>
  C6. In \<^verbatim>\<open>buildSegmentation\<close>, with chunks that cover the arcs and the
  vertices, the segment of every super-arc \<open>a\<close> is allocated with
  \<open>max 0 (getNbVertSeen a - 1)\<close> slots; the second pass writes the vertices
  whose \<^verbatim>\<open>vert2tree\<close> entry is the arc \<open>a\<close>, in the order of the scan, at
  the head of the segment of \<open>a\<close>; the segment is then sorted in the sweep
  order of the tree and appended to the region of the arc.
\<close>

theorem buildSegmentation_regions:
  assumes ca: "0 \<le> getChunkSize p (int (length (superArcs t))) None"
      "int (length (superArcs t))
         \<le> getChunkCount p (int (length (superArcs t))) None
             * getChunkSize p (int (length (superArcs t))) None"
    and cv: "0 \<le> getChunkSize p (sizeS sc) None"
      "sizeS sc \<le> getChunkCount p (sizeS sc) None * getChunkSize p (sizeS sc) None"
    and run: "buildSegmentation p sc t = Some t'"
    and a: "a < length (superArcs t)"
  shows "\<exists>k. length (segments t' ! a) = nat (max 0 (getNbVertSeen (superArcs t ! a) - 1))
     \<and> segments t' ! a
         = sortBy (vertLower sc t) (arcVertices sc t (int a) @ replicate k nullVertex)
     \<and> region (superArcs t' ! a) = region (superArcs t ! a) @ segments t' ! a
     \<and> ((\<forall>x y z. \<not> vertLower sc t y x \<and> \<not> vertLower sc t z y \<longrightarrow> \<not> vertLower sc t z x)
          \<and> (\<forall>x y. vertLower sc t x y \<longrightarrow> \<not> vertLower sc t y x)
        \<longrightarrow> sweepSorted sc t (segments t' ! a))"
proof -
  let ?n = "length (superArcs t)"
  let ?F = "\<lambda>arc. max 0 (getNbVertSeen arc - 1)"
  let ?is = "[0 .. int ?n - 1]"
  let ?body = "\<lambda>a t. do {
         seg \<leftarrow> rd (segments t) a;
         if length seg \<noteq> 0 then modSuperArc a (\<lambda>arc. arc\<lparr>region := region arc @ seg\<rparr>) t
         else Some t
       }"
  have d: "distinct ?is" by simp
  have r0: "\<forall>i\<in>set ?is. inRange i (superArcs t) \<and> inRange i (replicate ?n (0::int))"
    by (simp add: inRange_def)
  from sizes_loop [OF d r0, of ?F] obtain sizes where
    sl: "forEach ?is (\<lambda>a sizes. do { arc \<leftarrow> rd (superArcs t) a; wr sizes a (?F arc) })
           (replicate ?n 0) = Some sizes"
    and ls: "length sizes = ?n"
    and es: "\<forall>j < ?n. sizes ! j = ?F (superArcs t ! j)"
    by auto
  let ?t1 = "t\<lparr>segments := resizeSegments sizes\<rparr>"
  from run have run': "(case forEach [0 .. sizeS sc - 1] (fillSegment sc) (replicate ?n 0, ?t1) of
           None \<Rightarrow> None
         | Some (pos, t2) \<Rightarrow> forEach ?is ?body (t2\<lparr>segments := sortAll sc t2 (segments t2)\<rparr>))
       = Some t'"
    unfolding run_split [OF ca cv] sl by simp
  then obtain pos t2 where
    fl: "forEach [0 .. sizeS sc - 1] (fillSegment sc) (replicate ?n 0, ?t1) = Some (pos, t2)"
    and fin: "forEach ?is ?body (t2\<lparr>segments := sortAll sc t2 (segments t2)\<rparr>) = Some t'"
    by (cases "forEach [0 .. sizeS sc - 1] (fillSegment sc) (replicate ?n 0, ?t1)") auto
  have f0: "filled (\<lambda>a. []) (replicate ?n 0) (segments ?t1)"
    using ls by (simp add: filled_def resizeSegments_def)
  note fill = fill_loop [OF fl f0]
  have f2: "filled (\<lambda>a. arcVertices sc t (int a)) pos (segments t2)"
    using fill by (simp add: arcVertices_def)
  have l2: "length (segments t2) = ?n"
    using fill ls by (simp add: resizeSegments_def)
  have e2: "\<forall>b < ?n. length (segments t2 ! b) = nat (sizes ! b)"
    using fill ls by (simp add: resizeSegments_def)
  have fr2: "t2 = ?t1\<lparr>segments := segments t2\<rparr>"
    using fill by simp
  have sa2: "superArcs t2 = superArcs t" by (subst fr2) simp
  let ?t3 = "t2\<lparr>segments := sortAll sc t2 (segments t2)\<rparr>"
  have r3: "\<forall>i\<in>set ?is. inRange i (superArcs ?t3) \<and> inRange i (segments ?t3)"
    using sa2 l2 by (simp add: inRange_def sortAll_def)
  from regions_loop [OF d r3] obtain sas' where
    rl: "forEach ?is ?body ?t3 = Some (?t3\<lparr>superArcs := sas'\<rparr>)"
    and e3: "\<forall>j<length (superArcs ?t3). sas' ! j =
           (if int j \<in> set ?is
            then (superArcs ?t3 ! j)\<lparr>region := region (superArcs ?t3 ! j) @ segments ?t3 ! j\<rparr>
            else superArcs ?t3 ! j)"
    by blast
  have t': "t' = ?t3\<lparr>superArcs := sas'\<rparr>" using fin rl by simp
  have "treeType t2 = treeType t" by (subst fr2) simp
  then have vl: "vertLower sc t2 = vertLower sc t" by (rule vertLower_treeType)
  have seg: "segments t' ! a = sortBy (vertLower sc t) (segments t2 ! a)"
    using a l2 unfolding t' by (simp add: sortAll_def vl)
  from f2 a l2 obtain k where
    k: "segments t2 ! a = arcVertices sc t (int a) @ replicate k nullVertex"
    unfolding filled_def by auto
  have len: "length (segments t' ! a) = nat (max 0 (getNbVertSeen (superArcs t ! a) - 1))"
    unfolding seg length_sortBy using e2 a es by simp
  have ia: "int a \<in> set ?is" using a by simp
  have "sas' ! a = (superArcs t ! a)\<lparr>region := region (superArcs t ! a) @ segments ?t3 ! a\<rparr>"
    using e3 a sa2 ia by simp
  then have reg: "region (superArcs t' ! a) = region (superArcs t ! a) @ segments t' ! a"
    unfolding t' by simp
  have asc: "sweepSorted sc t (segments t' ! a)"
    if "\<forall>x y z. \<not> vertLower sc t y x \<and> \<not> vertLower sc t z y \<longrightarrow> \<not> vertLower sc t z x"
      "\<forall>x y. vertLower sc t x y \<longrightarrow> \<not> vertLower sc t y x"
    unfolding seg sweepSorted_def
  proof (rule sorted_sortBy)
    fix x y z assume "\<not> vertLower sc t y x" "\<not> vertLower sc t z y"
    then show "\<not> vertLower sc t z x" using that(1) by blast
  next
    fix x y assume "vertLower sc t x y"
    then show "\<not> vertLower sc t y x" using that(2) by blast
  qed
  show ?thesis
    using len reg asc unfolding seg k by blast
qed

lemma exSplit_reached:
  "build unitChunks exScalars4 (pathMesh 4) 0 False (initTree Split exScalars4) = Some exSplit"
  by code_simp

lemma exSplit_segmentation:
  "buildSegmentation unitChunks exScalars4 exSplit
     = Some (exSplit\<lparr>segments := [[2, 1]],
               superArcs := [\<lparr>downNodeId = 0, upNodeId = 1, lastVisited = 0,
                              verticesSeen = 3, region = [2, 1]\<rparr>]\<rparr>)"
  by code_simp

lemma mkScalars_order:
  "(\<forall>x y z. \<not> isLower (mkScalars srt) y x \<and> \<not> isLower (mkScalars srt) z y
       \<longrightarrow> \<not> isLower (mkScalars srt) z x)
   \<and> (\<forall>x y. isLower (mkScalars srt) x y \<longrightarrow> \<not> isLower (mkScalars srt) y x)"
  by (simp add: mkScalars_def)

lemma mkScalars_order_rev:
  "(\<forall>x y z. \<not> isHigher (mkScalars srt) y x \<and> \<not> isHigher (mkScalars srt) z y
       \<longrightarrow> \<not> isHigher (mkScalars srt) z x)
   \<and> (\<forall>x y. isHigher (mkScalars srt) x y \<longrightarrow> \<not> isHigher (mkScalars srt) y x)"
  by (simp add: mkScalars_def)

theorem buildSegmentation_regions_witness:
  "length [2, 1 :: int] = nat (max 0 (getNbVertSeen (superArcs exSplit ! 0) - 1))
   \<and> arcVertices exScalars4 exSplit 0 = [1, 2]
   \<and> buildSegmentation unitChunks exScalars4 exSplit
     = Some (exSplit\<lparr>segments := [[2, 1]],
               superArcs := [\<lparr>downNodeId = 0, upNodeId = 1, lastVisited = 0,
                              verticesSeen = 3, region = [2, 1]\<rparr>]\<rparr>)
   \<and> sweepSorted exScalars4 exSplit [2, 1]"
proof -
  have c: "0 \<le> getChunkSize unitChunks (int (length (superArcs exSplit))) None"
    "int (length (superArcs exSplit))
       \<le> getChunkCount unitChunks (int (length (superArcs exSplit))) None
           * getChunkSize unitChunks (int (length (superArcs exSplit))) None"
    "0 \<le> getChunkSize unitChunks (sizeS exScalars4) None"
    "sizeS exScalars4 \<le> getChunkCount unitChunks (sizeS exScalars4) None
       * getChunkSize unitChunks (sizeS exScalars4) None"
    by (simp_all add: unitChunks_def)
  have a: "0 < length (superArcs exSplit)" by (simp add: exSplit_def)
  have av: "arcVertices exScalars4 exSplit 0 = [1, 2]" by code_simp
  have sg: "segments (exSplit\<lparr>segments := [[2, 1]],
               superArcs := [\<lparr>downNodeId = 0, upNodeId = 1, lastVisited = 0,
                              verticesSeen = 3, region = [2, 1]\<rparr>]\<rparr>) ! 0 = [2, 1]"
    by simp
  have vl: "vertLower exScalars4 exSplit = isHigher (mkScalars [0, 1, 2, 3])"
    by (rule ext, rule ext) (simp add: vertLower_def exSplit_def exScalars4_def)
  have ord: "(\<forall>x y z. \<not> vertLower exScalars4 exSplit y x \<and> \<not> vertLower exScalars4 exSplit z y
       \<longrightarrow> \<not> vertLower exScalars4 exSplit z x)
   \<and> (\<forall>x y. vertLower exScalars4 exSplit x y \<longrightarrow> \<not> vertLower exScalars4 exSplit y x)"
    unfolding vl by (rule mkScalars_order_rev)
  from buildSegmentation_regions [OF c exSplit_segmentation a]
  obtain k where k: "((\<forall>x y z. \<not> vertLower exScalars4 exSplit y x \<and> \<not> vertLower exScalars4 exSplit z y
       \<longrightarrow> \<not> vertLower exScalars4 exSplit z x)
   \<and> (\<forall>x y. vertLower exScalars4 exSplit x y \<longrightarrow> \<not> vertLower exScalars4 exSplit y x))
     \<longrightarrow> sweepSorted exScalars4 exSplit (segments (exSplit\<lparr>segments := [[2, 1]],
               superArcs := [\<lparr>downNodeId = 0, upNodeId = 1, lastVisited = 0,
                              verticesSeen = 3, region = [2, 1]\<rparr>]\<rparr>) ! 0)"
    by blast
  have asc: "sweepSorted exScalars4 exSplit [2, 1]"
    using k ord unfolding sg by blast
  have ln: "length [2, 1 :: int] = nat (max 0 (getNbVertSeen (superArcs exSplit ! 0) - 1))"
    by (simp add: exSplit_def getNbVertSeen_def)
  show ?thesis
    using av exSplit_segmentation asc ln by blast
qed

subsection \<open>The arcs of the trunk\<close>

lemma collect_loop:
  "forEach xs (\<lambda>v pending. do {
       opened \<leftarrow> rd ons v;
       Some (if opened \<noteq> (0::int) then pending @ [v] else pending)
     }) acc = Some r
   \<Longrightarrow> r = acc @ filter (\<lambda>v. ons ! nat v \<noteq> 0) xs"
proof (induction xs arbitrary: acc)
  case Nil
  then show ?case by simp
next
  case (Cons x xs)
  from Cons.prems obtain acc' where
    s: "acc' = (if ons ! nat x \<noteq> 0 then acc @ [x] else acc)"
    and r: "forEach xs (\<lambda>v pending. do {
       opened \<leftarrow> rd ons v;
       Some (if opened \<noteq> (0::int) then pending @ [v] else pending)
     }) acc' = Some r"
    by (auto simp: rd_def split: option.splits if_splits bind_splits)
  show ?case using Cons.IH [OF r] s by simp
qed

lemma pendingVertsOf_sorted:
  "pendingVertsOf sc t = Some pv \<Longrightarrow>
     pv = sortBy (vertLower sc t) (filter (\<lambda>v. openedNodes t ! nat v \<noteq> 0) [0 .. sizeS sc - 1])"
  unfolding pendingVertsOf_def using collect_loop [of _ "openedNodes t" "[]"] by auto

lemma closeSuperArc_refused:
  assumes "closeSuperArc a n t = Some t'" "\<not> inRange n (nodes t)"
  shows "nodes t' = nodes t"
  using assms
  by (auto simp: closeSuperArc_def getNumberOfSuperArcs_def getNumberOfNodes_def rd_def wr_def
      inRange_def split: bind_splits if_splits)


lemma getCorrespondingNodeId_cong:
  "vert2tree t' = vert2tree t \<Longrightarrow> getCorrespondingNodeId t' v = getCorrespondingNodeId t v"
  by (simp add: getCorrespondingNodeId_def)

lemma closeOnBackBone_untouched:
  assumes "closeOnBackBone sc msh v t = Some t'"
  shows "untouched t' = untouched t"
proof -
  from assms obtain closeNode t1 t2 su where
    1: "makeNode sc v nullVertex t = Some (closeNode, t1)" and
    2: "forEach (msh v) (\<lambda>neigh t.
             if vertLower sc t neigh v then do {
               nu \<leftarrow> rd (ufs t) neigh;
               if nu \<noteq> None then unionNeigh sc v neigh t else Some t
             } else Some t) t1 = Some t2" and
    d: "deref (ufs t2) v = Some su" and
    3: "closeArcsUF closeNode su t2 = Some t'"
    by (auto simp: closeOnBackBone_def split: bind_splits)
  have "untouched t2 = untouched t1"
    using 2 by (rule forEach_preserves) (auto split: if_splits bind_splits dest: unionNeigh_untouched)
  then show ?thesis
    using makeNode_untouched [OF 1] closeArcsUF_untouched [OF 3] by simp
qed

lemma untouched_treeType: "untouched t' = untouched t \<Longrightarrow> treeType t' = treeType t"
  by (simp add: untouched_def)

lemma trunkArcs_split:
  assumes "trunkArcs sc msh t = Some (pv, t')"
  shows "pendingVertsOf sc t = Some pv
    \<and> (\<exists>t1 t2. forEach pv (closeOnBackBone sc msh) t = Some t1
        \<and> forEach [1 .. int (length pv) - 1] (\<lambda>n t. do {
             pd \<leftarrow> rd pv (n - 1);
             pu \<leftarrow> rd pv n;
             d \<leftarrow> getCorrespondingNodeId t pd;
             u \<leftarrow> getCorrespondingNodeId t pu;
             (na, t') \<leftarrow> makeSuperArc d u t;
             modSuperArc na (setLastVisited pu) t'
           }) t1 = Some t2
        \<and> (pv = [] \<longrightarrow> t' = t2)
        \<and> (pv \<noteq> [] \<longrightarrow> (\<exists>d lastArc t3 e rootNode t4 t5 rn.
                  (\<exists>pl. rd pv (int (length pv) - 1) = Some pl \<and> getCorrespondingNodeId t2 pl = Some d)
                \<and> openSuperArc d t2 = Some (lastArc, t3)
                \<and> rd (sortedVertices sc) (if isJT t3 then sizeS sc - 1 else 0) = Some e
                \<and> makeNode sc e nullVertex t3 = Some (rootNode, t4)
                \<and> closeSuperArc lastArc rootNode t4 = Some t5
                \<and> rd (nodes t5) rootNode = Some rn
                \<and> modSuperArc lastArc (setLastVisited (vertexId rn)) t5 = Some t')))"
  using assms
  by (auto simp: trunkArcs_def Let_def split: bind_splits if_split_asm split del: if_split)

lemma distinct_sortBy: "distinct xs \<Longrightarrow> distinct (sortBy lt xs)"
  by (rule card_distinct) (simp add: set_sortBy length_sortBy distinct_card)

subsection \<open>The union-find on the trunk\<close>

lemma ufPath_det:
  "ufRoot k i h = Some r \<Longrightarrow> ufRoot k' i h = Some r' \<Longrightarrow> ufPath k i h = ufPath k' i h"
proof (induction k arbitrary: i k')
  case 0
  then show ?case by simp
next
  case (Suc k)
  from Suc.prems(2) obtain m where m: "k' = Suc m" by (cases k') auto
  show ?case using Suc.prems Suc.IH [of "parent (h ! i)" m] unfolding m
    by (auto split: if_splits)
qed

lemma ufPath_suffix:
  "ufRoot k q h = Some r \<Longrightarrow> j \<in> set (ufPath k q h)
   \<Longrightarrow> \<exists>k'. ufRoot k' j h = Some r \<and> length (ufPath k' j h) \<le> length (ufPath k q h)"
proof (induction k arbitrary: q)
  case 0
  then show ?case by simp
next
  case (Suc k)
  from Suc.prems(1) have q: "q < length h" by (auto split: if_splits)
  show ?case
  proof (cases "j = q")
    case True
    then show ?thesis using Suc.prems(1) by (intro exI [of _ "Suc k"]) simp
  next
    case False
    then have nr: "parent (h ! q) \<noteq> q" using Suc.prems(2) q by (auto split: if_splits)
    then have up: "ufRoot k (parent (h ! q)) h = Some r" using Suc.prems(1) q by simp
    have "j \<in> set (ufPath k (parent (h ! q)) h)" using Suc.prems(2) q nr False by simp
    from Suc.IH [OF up this] obtain k' where
      "ufRoot k' j h = Some r" "length (ufPath k' j h) \<le> length (ufPath k (parent (h ! q)) h)"
      by blast
    then show ?thesis using q nr by (intro exI [of _ k']) simp
  qed
qed

lemma ufPath_distinct: "ufRoot k i h = Some r \<Longrightarrow> distinct (ufPath k i h)"
proof (induction k arbitrary: i)
  case 0
  then show ?case by simp
next
  case (Suc k)
  from Suc.prems have i: "i < length h" by (auto split: if_splits)
  show ?case
  proof (cases "parent (h ! i) = i")
    case True
    then show ?thesis using i by simp
  next
    case False
    then have up: "ufRoot k (parent (h ! i)) h = Some r" using Suc.prems i by simp
    have "i \<notin> set (ufPath k (parent (h ! i)) h)"
    proof
      assume "i \<in> set (ufPath k (parent (h ! i)) h)"
      from ufPath_suffix [OF up this] obtain k' where
        k': "ufRoot k' i h = Some r"
        "length (ufPath k' i h) \<le> length (ufPath k (parent (h ! i)) h)"
        by blast
      have "ufPath k' i h = ufPath (Suc k) i h" using k'(1) Suc.prems by (rule ufPath_det)
      then show False using k'(2) i False by simp
    qed
    then show ?thesis using Suc.IH [OF up] i False by simp
  qed
qed

lemma ufPath_bound: "set (ufPath k i h) \<subseteq> {..< length h}"
  by (induction k arbitrary: i) auto

lemma ufPath_fuel: "ufRoot k i h = Some r \<Longrightarrow> ufRoot (length (ufPath k i h)) i h = Some r"
  by (induction k arbitrary: i) (auto split: if_splits)

lemma ufRoot_fuel:
  assumes "ufRoot k i h = Some r"
  shows "ufRoot (length h) i h = Some r"
proof -
  have "length (ufPath k i h) = card (set (ufPath k i h))"
    using ufPath_distinct [OF assms] by (simp add: distinct_card)
  also have "\<dots> \<le> card {..< length h}"
    by (rule card_mono) (simp_all add: ufPath_bound)
  finally have "length (ufPath k i h) \<le> length h" by simp
  with ufPath_fuel [OF assms] show ?thesis by (rule ufRoot_mono)
qed

lemma ufFind_total: "ufRoot k i h = Some r \<Longrightarrow> \<exists>h'. ufFind k i h = Some (r, h')"
proof (induction k arbitrary: i)
  case 0
  then show ?case by simp
next
  case (Suc k)
  from Suc.prems have i: "i < length h" by (auto split: if_splits)
  show ?case
  proof (cases "parent (h ! i) = i")
    case True
    then show ?thesis using Suc.prems i by simp
  next
    case False
    then have "ufRoot k (parent (h ! i)) h = Some r" using Suc.prems i by simp
    from Suc.IH [OF this] obtain h1 where "ufFind k (parent (h ! i)) h = Some (r, h1)" by blast
    then show ?thesis using i False by simp
  qed
qed

lemma ufRoot_parents:
  assumes "length h' = length h" "\<forall>j < length h. parent (h' ! j) = parent (h ! j)"
  shows "ufRoot k i h' = ufRoot k i h"
  using assms by (induction k arbitrary: i) auto

lemma ufRoot_link:
  assumes c: "c < length h" "parent (h ! c) = c" and rep: "rep < length h" "parent (h ! rep) = rep"
    and ne: "c \<noteq> rep"
    and len: "length h' = length h"
    and pc: "parent (h' ! c) = rep"
    and po: "\<forall>j < length h. j \<noteq> c \<longrightarrow> parent (h' ! j) = parent (h ! j)"
  shows "ufRoot k i h = Some r \<Longrightarrow> ufRoot (Suc k) i h' = Some (if r = c then rep else r)"
proof (induction k arbitrary: i)
  case 0
  then show ?case by simp
next
  case (Suc k)
  from Suc.prems have i: "i < length h" by (auto split: if_splits)
  have reproot: "ufRoot (Suc m) rep h' = Some rep" for m
    using rep ne po len by simp
  show ?case
  proof (cases "parent (h ! i) = i")
    case True
    then have r: "r = i" using Suc.prems i by simp
    show ?thesis
    proof (cases "i = c")
      case True
      then show ?thesis using r pc ne len c reproot [of k] by simp
    next
      case False
      then show ?thesis using r True po i len by simp
    qed
  next
    case False
    then have up: "ufRoot k (parent (h ! i)) h = Some r" using Suc.prems i by simp
    have "i \<noteq> c" using False c by auto
    then have "parent (h' ! i) = parent (h ! i)" using po i by simp
    then show ?thesis using Suc.IH [OF up] i len False by simp
  qed
qed

lemma ufWf_link:
  assumes wf: "ufWf h"
    and c: "c < length h" "parent (h ! c) = c" and rep: "rep < length h" "parent (h ! rep) = rep"
    and ne: "c \<noteq> rep"
    and len: "length h' = length h"
    and pc: "parent (h' ! c) = rep"
    and po: "\<forall>j < length h. j \<noteq> c \<longrightarrow> parent (h' ! j) = parent (h ! j)"
  shows "ufWf h'"
  unfolding ufWf_iff
proof (intro allI impI)
  fix i assume "i < length h'"
  then have "i < length h" using len by simp
  then obtain r where "ufRoot (length h) i h = Some r" using wf by (auto simp: ufWf_iff)
  from ufRoot_link [OF c rep ne len pc po this]
  have "ufRoot (Suc (length h)) i h' = Some (if r = c then rep else r)" .
  from ufRoot_fuel [OF this] show "ufRoot (length h') i h' \<noteq> None" by simp
qed

lemma compressed_keeps_root:
  assumes "compressed h h'" "x < length h" "parent (h ! x) = x"
  shows "parent (h' ! x) = x"
proof -
  have "ufRoot (Suc 0) x h = Some x" using assms(2,3) by simp
  from compressed_root [OF assms(1) this] have "ufRoot (Suc 0) x h' = Some x" .
  then show ?thesis by (auto split: if_splits)
qed

lemma findUF_total:
  assumes wf: "ufWf (ufHeap t)" and u: "inRange u (ufHeap t)"
  shows "\<exists>r h'. findUF u t = Some (r, t\<lparr>ufHeap := h'\<rparr>) \<and> inRange r h'
     \<and> parent (h' ! nat r) = nat r \<and> ufWf h' \<and> length h' = length (ufHeap t)
     \<and> (\<forall>x < length (ufHeap t). parent (ufHeap t ! x) = x \<longrightarrow> parent (h' ! x) = x)"
proof -
  let ?h = "ufHeap t"
  have nu: "nat u < length ?h" "0 \<le> u" using u by (auto simp: inRange_def)
  then obtain q where q: "ufRoot (length ?h) (nat u) ?h = Some q"
    using wf by (auto simp: ufWf_iff)
  from ufFind_total [OF q] obtain h' where f: "ufFind (length ?h) (nat u) ?h = Some (q, h')"
    by blast
  from ufFind_compressed [OF f] have c: "compressed ?h h'" by simp
  have len: "length h' = length ?h" using c by (simp add: compressed_def)
  have qr: "q < length ?h" "parent (?h ! q) = q" using ufRoot_is_root [OF q] by simp_all
  have wf': "ufWf h'" using compressed_same [OF wf c] by simp
  have "findUF u t = Some (int q, t\<lparr>ufHeap := h'\<rparr>)"
    using f nu by (simp add: findUF_def)
  moreover have "inRange (int q) h'" using qr len by (simp add: inRange_def)
  moreover have "parent (h' ! nat (int q)) = nat (int q)"
    using compressed_keeps_root [OF c qr] by simp
  moreover have "\<forall>x < length ?h. parent (?h ! x) = x \<longrightarrow> parent (h' ! x) = x"
    using compressed_keeps_root [OF c] by blast
  ultimately show ?thesis using wf' len by blast
qed

lemma makeUnion_total:
  assumes wf: "ufWf (ufHeap t)" and u0: "inRange uf0 (ufHeap t)" and u1: "inRange uf1 (ufHeap t)"
  shows "\<exists>r h'. makeUnion sc uf0 uf1 t = Some (r, t\<lparr>ufHeap := h'\<rparr>) \<and> inRange r h'
     \<and> ufWf h' \<and> length h' = length (ufHeap t)"
proof -
  from findUF_total [OF wf u0] obtain r0 h1 where
    f0: "findUF uf0 t = Some (r0, t\<lparr>ufHeap := h1\<rparr>)" and r0: "inRange r0 h1"
    and p0: "parent (h1 ! nat r0) = nat r0" and wf1: "ufWf h1"
    and l1: "length h1 = length (ufHeap t)"
    by blast
  let ?t1 = "t\<lparr>ufHeap := h1\<rparr>"
  have wf1': "ufWf (ufHeap ?t1)" using wf1 by simp
  have u1': "inRange uf1 (ufHeap ?t1)" using u1 l1 by (simp add: inRange_def)
  from findUF_total [OF wf1' u1'] obtain r1 h2 where
    f1: "findUF uf1 ?t1 = Some (r1, ?t1\<lparr>ufHeap := h2\<rparr>)" and r1: "inRange r1 h2"
    and p1: "parent (h2 ! nat r1) = nat r1" and wf2: "ufWf h2"
    and l2: "length h2 = length h1"
    and keep: "\<forall>x < length h1. parent (h1 ! x) = x \<longrightarrow> parent (h2 ! x) = x"
    by auto
  let ?t2 = "t\<lparr>ufHeap := h2\<rparr>"
  have f1': "findUF uf1 ?t1 = Some (r1, ?t2)" using f1 by simp
  have r0': "inRange r0 h2" using r0 l2 by (simp add: inRange_def)
  have "nat r0 < length h1" using r0 by (rule inRange_nat)
  then have p0': "parent (h2 ! nat r0) = nat r0" using keep p0 by blast
  show ?thesis
  proof (cases "r0 = r1")
    case True
    then have "makeUnion sc uf0 uf1 t = Some (r0, ?t2)"
      using f0 f1' by (simp add: makeUnion_def)
    then show ?thesis using r0' wf2 l2 l1 by auto
  next
    case False
    define child where "child = (if vertLower sc ?t2 (extrema (h2 ! nat r0)) (extrema (h2 ! nat r1)) then r0 else r1)"
    define rep where "rep = (if vertLower sc ?t2 (extrema (h2 ! nat r0)) (extrema (h2 ! nat r1)) then r1 else r0)"
    have ch: "inRange child h2" "parent (h2 ! nat child) = nat child"
      and rp: "inRange rep h2" "parent (h2 ! nat rep) = nat rep"
      and ne: "child \<noteq> rep"
      using r0' r1 p0' p1 False by (auto simp: child_def rep_def)
    define h3 where "h3 = h2[nat rep := (h2 ! nat rep)\<lparr>states := states (h2 ! nat rep) @ states (h2 ! nat child),
                                openedArcs := openedArcs (h2 ! nat rep) @ openedArcs (h2 ! nat child)\<rparr>]"
    define h4 where "h4 = h3[nat child := (h3 ! nat child)\<lparr>parent := nat rep, states := [], openedArcs := []\<rparr>]"
    have l3: "length h3 = length h2" and l4: "length h4 = length h2" by (simp_all add: h3_def h4_def)
    have nne: "nat child \<noteq> nat rep" using ne ch(1) rp(1) by (auto simp: inRange_def)
    have m3: "modUF rep (\<lambda>e. e\<lparr>states := states e @ states (h2 ! nat child),
                                openedArcs := openedArcs e @ openedArcs (h2 ! nat child)\<rparr>) ?t2
               = Some (t\<lparr>ufHeap := h3\<rparr>)"
      using rp(1) by (simp add: modUF_def rd_def wr_def h3_def)
    have ch3: "inRange child h3" using ch(1) l3 by (simp add: inRange_def)
    have m4: "modUF child (\<lambda>e. e\<lparr>parent := nat rep, states := [], openedArcs := []\<rparr>) (t\<lparr>ufHeap := h3\<rparr>)
               = Some (t\<lparr>ufHeap := h4\<rparr>)"
      using ch3 by (simp add: modUF_def rd_def wr_def h4_def)
    have run: "makeUnion sc uf0 uf1 t = Some (rep, t\<lparr>ufHeap := h4\<rparr>)"
      using f0 f1' False r0' r1 ch(1) m3 m4
      by (auto simp: makeUnion_def rd_def child_def rep_def Let_def)
    have wf4: "ufWf h4"
    proof (rule ufWf_link [OF wf2 _ ch(2) _ rp(2) nne l4])
      show "nat child < length h2" using ch(1) by (rule inRange_nat)
      show "nat rep < length h2" using rp(1) by (rule inRange_nat)
      show "parent (h4 ! nat child) = nat rep"
        using inRange_nat [OF ch(1)] l3 by (simp add: h4_def)
      show "\<forall>j<length h2. j \<noteq> nat child \<longrightarrow> parent (h4 ! j) = parent (h2 ! j)"
      proof (intro allI impI)
        fix j assume j: "j < length h2" "j \<noteq> nat child"
        have "parent (h3 ! j) = parent (h2 ! j)"
          using j(1) by (cases "j = nat rep") (simp_all add: h3_def)
        then show "parent (h4 ! j) = parent (h2 ! j)" using j(2) by (simp add: h4_def)
      qed
    qed
    show ?thesis using run rp(1) wf4 l4 l2 l1 by (auto simp: inRange_def)
  qed
qed

lemma trunkInv_iff:
  "trunkInv sc t \<longleftrightarrow> int (length (vert2tree t)) = sizeS sc \<and> int (length (ufs t)) = sizeS sc
     \<and> (\<forall>w < length (vert2tree t). \<forall>n. vert2tree t ! w = CNode n \<longrightarrow> inRange n (nodes t))
     \<and> (\<forall>w < length (ufs t). \<forall>p. ufs t ! w = Some p \<longrightarrow> inRange p (ufHeap t))
     \<and> ufWf (ufHeap t)"
proof -
  have 1: "(\<forall>c\<in>set (vert2tree t). case c of CNode n \<Rightarrow> inRange n (nodes t) | _ \<Rightarrow> True)
      \<longleftrightarrow> (\<forall>w < length (vert2tree t). \<forall>n. vert2tree t ! w = CNode n \<longrightarrow> inRange n (nodes t))"
    unfolding all_set_conv_all_nth by (auto split: corresp.splits)
  have 2: "(\<forall>u\<in>set (ufs t). case u of Some p \<Rightarrow> inRange p (ufHeap t) | None \<Rightarrow> True)
      \<longleftrightarrow> (\<forall>w < length (ufs t). \<forall>p. ufs t ! w = Some p \<longrightarrow> inRange p (ufHeap t))"
    unfolding all_set_conv_all_nth by (auto split: option.splits)
  show ?thesis unfolding trunkInv_def 1 2 by simp
qed

lemma trunkInv_heap:
  "trunkInv sc t \<Longrightarrow> ufWf h' \<Longrightarrow> length h' = length (ufHeap t) \<Longrightarrow> trunkInv sc (t\<lparr>ufHeap := h'\<rparr>)"
  by (simp add: trunkInv_iff inRange_def)

lemma trunkInv_ptr:
  assumes "trunkInv sc t" "inRange v (ufs t)" "ufs t ! nat v = Some p"
  shows "inRange p (ufHeap t)"
  using assms inRange_nat [OF assms(2)] by (simp add: trunkInv_iff)

lemma trunkInv_ufs:
  assumes "trunkInv sc t" "inRange r (ufHeap t)"
  shows "trunkInv sc (t\<lparr>ufs := (ufs t)[i := Some r]\<rparr>)"
proof -
  have "inRange p (ufHeap t)"
    if "w < length (ufs t)" "(ufs t)[i := Some r] ! w = Some p" for w p
    using that assms by (cases "w = i") (simp_all add: trunkInv_iff)
  then show ?thesis using assms(1) by (simp add: trunkInv_iff)
qed

lemma trunkInv_cong:
  assumes "trunkInv sc t" "vert2tree t' = vert2tree t" "ufs t' = ufs t" "ufHeap t' = ufHeap t"
    "length (nodes t') = length (nodes t)"
  shows "trunkInv sc t'"
  using assms by (simp add: trunkInv_iff inRange_def)

lemma unionNeigh_total:
  assumes inv: "trunkInv sc t"
    and v: "inRange v (ufs t)" "ufs t ! nat v \<noteq> None"
    and n: "inRange neigh (ufs t)" "ufs t ! nat neigh \<noteq> None"
  shows "\<exists>t'. unionNeigh sc v neigh t = Some t' \<and> trunkInv sc t'
     \<and> t' = t\<lparr>ufHeap := ufHeap t', ufs := ufs t'\<rparr>
     \<and> length (ufs t') = length (ufs t)
     \<and> (\<forall>w < length (ufs t). ufs t ! w \<noteq> None \<longrightarrow> ufs t' ! w \<noteq> None)"
proof -
  from v n obtain su nu where su: "ufs t ! nat v = Some su" and nu: "ufs t ! nat neigh = Some nu"
    by auto
  have d1: "deref (ufs t) neigh = Some nu" and d2: "deref (ufs t) v = Some su"
    using su nu v(1) n(1) by (simp_all add: deref_def rd_def)
  have pn: "inRange nu (ufHeap t)" and ps: "inRange su (ufHeap t)"
    using trunkInv_ptr [OF inv n(1) nu] trunkInv_ptr [OF inv v(1) su] by simp_all
  have wf: "ufWf (ufHeap t)" using inv by (simp add: trunkInv_def)
  from findUF_total [OF wf pn] obtain rn h1 where
    f1: "findUF nu t = Some (rn, t\<lparr>ufHeap := h1\<rparr>)" and wf1: "ufWf h1"
    and l1: "length h1 = length (ufHeap t)"
    by blast
  let ?t1 = "t\<lparr>ufHeap := h1\<rparr>"
  have wf1': "ufWf (ufHeap ?t1)" using wf1 by simp
  have ps1: "inRange su (ufHeap ?t1)" and pn1: "inRange nu (ufHeap ?t1)"
    using ps pn l1 by (simp_all add: inRange_def)
  from findUF_total [OF wf1' ps1] obtain rs h2 where
    f2: "findUF su ?t1 = Some (rs, ?t1\<lparr>ufHeap := h2\<rparr>)" and wf2: "ufWf h2"
    and l2: "length h2 = length h1"
    by auto
  let ?t2 = "t\<lparr>ufHeap := h2\<rparr>"
  have f2': "findUF su ?t1 = Some (rs, ?t2)" using f2 by simp
  have inv2: "trunkInv sc ?t2" using inv wf2 l2 l1 by (intro trunkInv_heap) simp_all
  show ?thesis
  proof (cases "rn = rs")
    case True
    then have "unionNeigh sc v neigh t = Some ?t2"
      using d1 d2 f1 f2' by (simp add: unionNeigh_def)
    then show ?thesis using inv2 by (intro exI [of _ ?t2]) simp
  next
    case False
    have wf2': "ufWf (ufHeap ?t2)" using wf2 by simp
    have ps2: "inRange su (ufHeap ?t2)" and pn2: "inRange nu (ufHeap ?t2)"
      using ps pn l1 l2 by (simp_all add: inRange_def)
    from makeUnion_total [OF wf2' ps2 pn2, of sc] obtain r h3 where
      m: "makeUnion sc su nu ?t2 = Some (r, ?t2\<lparr>ufHeap := h3\<rparr>)" and r: "inRange r h3"
      and wf3: "ufWf h3" and l3: "length h3 = length h2"
      by auto
    let ?t3 = "t\<lparr>ufHeap := h3\<rparr>"
    have m': "makeUnion sc su nu ?t2 = Some (r, ?t3)" using m by simp
    have inv3: "trunkInv sc ?t3" using inv wf3 l3 l2 l1 by (intro trunkInv_heap) simp_all
    have r3: "inRange r (ufHeap ?t3)" using r by simp
    let ?t4 = "?t3\<lparr>ufs := (ufs ?t3)[nat v := Some r]\<rparr>"
    have inv4: "trunkInv sc ?t4" using inv3 r3 by (rule trunkInv_ufs)
    have run: "unionNeigh sc v neigh t = Some ?t4"
      using d1 d2 f1 f2' False m' v(1) by (simp add: unionNeigh_def wr_def)
    have keep: "\<forall>w < length (ufs t). ufs t ! w \<noteq> None \<longrightarrow> ufs ?t4 ! w \<noteq> None"
    proof (intro allI impI)
      fix w assume "w < length (ufs t)" "ufs t ! w \<noteq> None"
      then show "ufs ?t4 ! w \<noteq> None" by (cases "w = nat v") simp_all
    qed
    show ?thesis using run inv4 keep by (intro exI [of _ ?t4]) simp
  qed
qed

lemma closeSuperArc_total:
  "\<exists>t'. closeSuperArc a n t = Some t' \<and> vert2tree t' = vert2tree t \<and> ufs t' = ufs t
     \<and> ufHeap t' = ufHeap t \<and> length (nodes t') = length (nodes t)
     \<and> length (superArcs t') = length (superArcs t)"
  by (auto simp: closeSuperArc_def getNumberOfSuperArcs_def getNumberOfNodes_def rd_def wr_def
      inRange_def)

lemma closeArcs_loop_total:
  "\<exists>t'. forEach as (\<lambda>sa. closeSuperArc sa n) t = Some t' \<and> vert2tree t' = vert2tree t
     \<and> ufs t' = ufs t \<and> ufHeap t' = ufHeap t \<and> length (nodes t') = length (nodes t)
     \<and> length (superArcs t') = length (superArcs t)"
proof (induction as arbitrary: t)
  case Nil
  then show ?case by simp
next
  case (Cons a as)
  from closeSuperArc_total [of a n t] obtain t1 where
    1: "closeSuperArc a n t = Some t1" "vert2tree t1 = vert2tree t" "ufs t1 = ufs t"
      "ufHeap t1 = ufHeap t" "length (nodes t1) = length (nodes t)"
      "length (superArcs t1) = length (superArcs t)"
    by blast
  from Cons.IH [of t1] obtain t' where
    2: "forEach as (\<lambda>sa. closeSuperArc sa n) t1 = Some t'" "vert2tree t' = vert2tree t1"
      "ufs t' = ufs t1" "ufHeap t' = ufHeap t1" "length (nodes t') = length (nodes t1)"
      "length (superArcs t') = length (superArcs t1)"
    by blast
  show ?case using 1 2 by simp
qed

lemma closeArcsUF_total:
  assumes inv: "trunkInv sc t" and u: "inRange u (ufHeap t)"
  shows "\<exists>t'. closeArcsUF cn u t = Some t' \<and> trunkInv sc t' \<and> vert2tree t' = vert2tree t
     \<and> ufs t' = ufs t \<and> length (nodes t') = length (nodes t)"
proof -
  have wf: "ufWf (ufHeap t)" using inv by (simp add: trunkInv_def)
  from findUF_total [OF wf u] obtain r h1 where
    f1: "findUF u t = Some (r, t\<lparr>ufHeap := h1\<rparr>)" and r: "inRange r h1" and wf1: "ufWf h1"
    and l1: "length h1 = length (ufHeap t)"
    by blast
  let ?t1 = "t\<lparr>ufHeap := h1\<rparr>"
  have e: "rd (ufHeap ?t1) r = Some (h1 ! nat r)" using r by (simp add: rd_def)
  from closeArcs_loop_total [of "openedArcs (h1 ! nat r)" cn ?t1] obtain t2 where
    2: "forEach (openedArcs (h1 ! nat r)) (\<lambda>sa. closeSuperArc sa cn) ?t1 = Some t2"
      "vert2tree t2 = vert2tree ?t1" "ufs t2 = ufs ?t1" "ufHeap t2 = ufHeap ?t1"
      "length (nodes t2) = length (nodes ?t1)"
    by blast
  have inv1: "trunkInv sc ?t1" using inv wf1 l1 by (rule trunkInv_heap)
  have inv2: "trunkInv sc t2" using inv1 2(2-5) by (rule trunkInv_cong)
  have wf2: "ufWf (ufHeap t2)" using wf1 2(4) by simp
  have u2: "inRange u (ufHeap t2)" using u l1 2(4) by (simp add: inRange_def)
  from findUF_total [OF wf2 u2] obtain r' h3 where
    f3: "findUF u t2 = Some (r', t2\<lparr>ufHeap := h3\<rparr>)" and r': "inRange r' h3" and wf3: "ufWf h3"
    and l3: "length h3 = length (ufHeap t2)"
    by blast
  let ?t3 = "t2\<lparr>ufHeap := h3\<rparr>"
  let ?h4 = "h3[nat r' := (h3 ! nat r')\<lparr>openedArcs := []\<rparr>]"
  have m: "modUF r' (\<lambda>e. e\<lparr>openedArcs := []\<rparr>) ?t3 = Some (t2\<lparr>ufHeap := ?h4\<rparr>)"
    using r' by (simp add: modUF_def rd_def wr_def)
  have "\<forall>j < length h3. parent (?h4 ! j) = parent (h3 ! j)"
  proof (intro allI impI)
    fix j assume "j < length h3"
    then show "parent (?h4 ! j) = parent (h3 ! j)" by (cases "j = nat r'") simp_all
  qed
  then have "\<And>k i. ufRoot k i ?h4 = ufRoot k i h3"
    by (intro ufRoot_parents) simp_all
  then have wf4: "ufWf ?h4" using wf3 by (simp add: ufWf_iff)
  have inv4: "trunkInv sc (t2\<lparr>ufHeap := ?h4\<rparr>)"
    using inv2 wf4 l3 by (intro trunkInv_heap) simp_all
  have run: "closeArcsUF cn u t = Some (t2\<lparr>ufHeap := ?h4\<rparr>)"
    using f1 e 2(1) f3 m by (simp add: closeArcsUF_def)
  show ?thesis using run inv4 2 by (intro exI [of _ "t2\<lparr>ufHeap := ?h4\<rparr>"]) simp
qed

lemma makeNode_total:
  assumes inv: "trunkInv sc t" and v: "0 \<le> v" "v < sizeS sc"
  shows "\<exists>n t'. makeNode sc v term t = Some (n, t') \<and> trunkInv sc t' \<and> ufs t' = ufs t
     \<and> ufHeap t' = ufHeap t \<and> superArcs t' = superArcs t
     \<and> length (nodes t) \<le> length (nodes t')
     \<and> vert2tree t' ! nat v = CNode n \<and> inRange n (nodes t')
     \<and> (\<forall>w < length (vert2tree t). \<forall>m. vert2tree t ! w = CNode m \<longrightarrow> vert2tree t' ! w = CNode m)"
proof -
  have len: "int (length (vert2tree t)) = sizeS sc" using inv by (simp add: trunkInv_def)
  have r: "inRange v (vert2tree t)" using v len by (simp add: inRange_def)
  have nv: "nat v < length (vert2tree t)" using r by (rule inRange_nat)
  show ?thesis
  proof (cases "\<exists>n. vert2tree t ! nat v = CNode n")
    case True
    then obtain n where n: "vert2tree t ! nat v = CNode n" by blast
    have "inRange n (nodes t)" using inv n nv by (simp add: trunkInv_iff)
    then show ?thesis using makeNode_existing [OF r v(2) n, of "term"] inv n by auto
  next
    case False
    then have f: "\<forall>n. vert2tree t ! nat v \<noteq> CNode n" by blast
    let ?n = "int (length (nodes t))"
    let ?t' = "t\<lparr>nodes := nodes t @ [newNode\<lparr>vertexId := v, terminaison := term\<rparr>],
                   vert2tree := (vert2tree t)[nat v := CNode ?n]\<rparr>"
    have "inRange n (nodes t @ [newNode\<lparr>vertexId := v, terminaison := term\<rparr>])"
      if "w < length (vert2tree t)" "(vert2tree t)[nat v := CNode ?n] ! w = CNode n" for w n
    proof (cases "w = nat v")
      case True
      then show ?thesis using that by (simp add: inRange_def)
    next
      case False
      then have "inRange n (nodes t)" using that inv by (simp add: trunkInv_iff)
      then show ?thesis by (simp add: inRange_def)
    qed
    then have inv': "trunkInv sc ?t'"
      using inv by (simp add: trunkInv_iff inRange_def)
    have keep: "\<forall>w < length (vert2tree t). \<forall>m. vert2tree t ! w = CNode m
        \<longrightarrow> vert2tree ?t' ! w = CNode m"
    proof (intro allI impI)
      fix w m assume "w < length (vert2tree t)" "vert2tree t ! w = CNode m"
      then show "vert2tree ?t' ! w = CNode m" using f by (cases "w = nat v") simp_all
    qed
    show ?thesis
      using makeNode_fresh [OF r v(2) f, of "term"] inv' keep nv
      by (intro exI [of _ ?n] exI [of _ ?t']) (simp add: inRange_def)
  qed
qed

lemma neigh_loop_total:
  assumes inv: "trunkInv sc t"
    and v: "inRange v (ufs t)" "ufs t ! nat v \<noteq> None"
    and ns: "\<forall>n\<in>set ns. 0 \<le> n \<and> n < sizeS sc"
  shows "\<exists>t'. forEach ns (\<lambda>neigh t.
             if vertLower sc t neigh v then do {
               nu \<leftarrow> rd (ufs t) neigh;
               if nu \<noteq> None then unionNeigh sc v neigh t else Some t
             } else Some t) t = Some t'
     \<and> trunkInv sc t' \<and> t' = t\<lparr>ufHeap := ufHeap t', ufs := ufs t'\<rparr>
     \<and> length (ufs t') = length (ufs t)
     \<and> (\<forall>w < length (ufs t). ufs t ! w \<noteq> None \<longrightarrow> ufs t' ! w \<noteq> None)"
  using assms
proof (induction ns arbitrary: t)
  case Nil
  then show ?case by simp
next
  case (Cons n ns)
  let ?body = "\<lambda>neigh t.
             if vertLower sc t neigh v then do {
               nu \<leftarrow> rd (ufs t) neigh;
               if nu \<noteq> None then unionNeigh sc v neigh t else Some t
             } else Some t"
  have len: "int (length (ufs t)) = sizeS sc" using Cons.prems(1) by (simp add: trunkInv_iff)
  have n: "inRange n (ufs t)" using Cons.prems(4) len by (simp add: inRange_def)
  have step: "\<exists>t1. ?body n t = Some t1 \<and> trunkInv sc t1
     \<and> t1 = t\<lparr>ufHeap := ufHeap t1, ufs := ufs t1\<rparr>
     \<and> length (ufs t1) = length (ufs t)
     \<and> (\<forall>w < length (ufs t). ufs t ! w \<noteq> None \<longrightarrow> ufs t1 ! w \<noteq> None)"
  proof (cases "vertLower sc t n v \<and> ufs t ! nat n \<noteq> None")
    case True
    from unionNeigh_total [OF Cons.prems(1,2,3) n] True obtain t1 where
      "unionNeigh sc v n t = Some t1" "trunkInv sc t1"
      "t1 = t\<lparr>ufHeap := ufHeap t1, ufs := ufs t1\<rparr>" "length (ufs t1) = length (ufs t)"
      "\<forall>w < length (ufs t). ufs t ! w \<noteq> None \<longrightarrow> ufs t1 ! w \<noteq> None"
      by blast
    then show ?thesis using True n by (intro exI [of _ t1]) (simp add: rd_def)
  next
    case False
    then have "?body n t = Some t" using n by (auto simp: rd_def)
    then show ?thesis using Cons.prems(1) by (intro exI [of _ t]) simp
  qed
  then obtain t1 where
    s: "?body n t = Some t1" and inv1: "trunkInv sc t1"
    and fr1: "t1 = t\<lparr>ufHeap := ufHeap t1, ufs := ufs t1\<rparr>"
    and l1: "length (ufs t1) = length (ufs t)"
    and k1: "\<forall>w < length (ufs t). ufs t ! w \<noteq> None \<longrightarrow> ufs t1 ! w \<noteq> None"
    by blast
  have v1: "inRange v (ufs t1)" using Cons.prems(2) l1 by (simp add: inRange_def)
  have v1': "ufs t1 ! nat v \<noteq> None" using k1 Cons.prems(2,3) inRange_nat by blast
  have ns': "\<forall>n\<in>set ns. 0 \<le> n \<and> n < sizeS sc" using Cons.prems(4) by simp
  from Cons.IH [OF inv1 v1 v1' ns'] obtain t' where
    r: "forEach ns ?body t1 = Some t'" and inv': "trunkInv sc t'"
    and fr': "t' = t1\<lparr>ufHeap := ufHeap t', ufs := ufs t'\<rparr>"
    and l': "length (ufs t') = length (ufs t1)"
    and k': "\<forall>w < length (ufs t1). ufs t1 ! w \<noteq> None \<longrightarrow> ufs t' ! w \<noteq> None"
    by blast
  have fr: "t' = t\<lparr>ufHeap := ufHeap t', ufs := ufs t'\<rparr>"
    by (subst fr', subst fr1) simp
  have "forEach (n # ns) ?body t = Some t'" using s r by simp
  moreover have "\<forall>w < length (ufs t). ufs t ! w \<noteq> None \<longrightarrow> ufs t' ! w \<noteq> None"
    using k1 k' l1 by simp
  ultimately show ?case using inv' fr l' l1 by (intro exI [of _ t']) simp
qed

lemma closeOnBackBone_total:
  assumes inv: "trunkInv sc t" and v: "0 \<le> v" "v < sizeS sc" "ufs t ! nat v \<noteq> None"
    and ns: "\<forall>n\<in>set (msh v). 0 \<le> n \<and> n < sizeS sc"
  shows "\<exists>t'. closeOnBackBone sc msh v t = Some t' \<and> trunkInv sc t'
     \<and> length (ufs t') = length (ufs t)
     \<and> (\<forall>w < length (ufs t). ufs t ! w \<noteq> None \<longrightarrow> ufs t' ! w \<noteq> None)
     \<and> (\<forall>w < length (vert2tree t). \<forall>m. vert2tree t ! w = CNode m \<longrightarrow> vert2tree t' ! w = CNode m)
     \<and> (\<exists>n. vert2tree t' ! nat v = CNode n)"
proof -
  from makeNode_total [OF inv v(1,2), of nullVertex] obtain cn t1 where
    mk: "makeNode sc v nullVertex t = Some (cn, t1)" and inv1: "trunkInv sc t1"
    and u1: "ufs t1 = ufs t"
    and n1: "vert2tree t1 ! nat v = CNode cn"
    and k1: "\<forall>w < length (vert2tree t). \<forall>m. vert2tree t ! w = CNode m \<longrightarrow> vert2tree t1 ! w = CNode m"
    by blast
  have len: "int (length (ufs t)) = sizeS sc" using inv by (simp add: trunkInv_iff)
  have vr: "inRange v (ufs t1)" using v len u1 by (simp add: inRange_def)
  have vs: "ufs t1 ! nat v \<noteq> None" using v(3) u1 by simp
  from neigh_loop_total [OF inv1 vr vs ns] obtain t2 where
    lp: "forEach (msh v) (\<lambda>neigh t.
             if vertLower sc t neigh v then do {
               nu \<leftarrow> rd (ufs t) neigh;
               if nu \<noteq> None then unionNeigh sc v neigh t else Some t
             } else Some t) t1 = Some t2"
    and inv2: "trunkInv sc t2"
    and fr2: "t2 = t1\<lparr>ufHeap := ufHeap t2, ufs := ufs t2\<rparr>"
    and l2: "length (ufs t2) = length (ufs t1)"
    and k2: "\<forall>w < length (ufs t1). ufs t1 ! w \<noteq> None \<longrightarrow> ufs t2 ! w \<noteq> None"
    by blast
  have v2t: "vert2tree t2 = vert2tree t1" by (subst fr2) simp
  have vr2: "inRange v (ufs t2)" using vr l2 by (simp add: inRange_def)
  have "ufs t2 ! nat v \<noteq> None" using k2 vs inRange_nat [OF vr] by blast
  then obtain su where su: "ufs t2 ! nat v = Some su" by auto
  have d: "deref (ufs t2) v = Some su" using su vr2 by (simp add: deref_def rd_def)
  have ps: "inRange su (ufHeap t2)" using inv2 vr2 su by (rule trunkInv_ptr)
  from closeArcsUF_total [OF inv2 ps, of cn] obtain t' where
    ca: "closeArcsUF cn su t2 = Some t'" and inv': "trunkInv sc t'"
    and v2t': "vert2tree t' = vert2tree t2" and u': "ufs t' = ufs t2"
    by blast
  have run: "closeOnBackBone sc msh v t = Some t'"
    using mk lp d ca by (simp add: closeOnBackBone_def)
  have l12: "length (vert2tree t1) = length (vert2tree t)"
    using inv inv1 by (simp add: trunkInv_iff)
  show ?thesis
    using run inv' u' l2 u1 k2 k1 v2t v2t' n1 by (intro exI [of _ t']) simp
qed

lemma backbone_loop_total:
  assumes inv: "trunkInv sc t"
    and vs: "\<forall>v\<in>set vs. 0 \<le> v \<and> v < sizeS sc \<and> ufs t ! nat v \<noteq> None
               \<and> (\<forall>n\<in>set (msh v). 0 \<le> n \<and> n < sizeS sc)"
  shows "\<exists>t'. forEach vs (closeOnBackBone sc msh) t = Some t' \<and> trunkInv sc t'
     \<and> (\<forall>v\<in>set vs. \<exists>n. vert2tree t' ! nat v = CNode n)
     \<and> (\<forall>w < length (vert2tree t). \<forall>m. vert2tree t ! w = CNode m \<longrightarrow> vert2tree t' ! w = CNode m)"
  using assms
proof (induction vs arbitrary: t)
  case Nil
  then show ?case by simp
next
  case (Cons v vs)
  have hv: "0 \<le> v" "v < sizeS sc" "ufs t ! nat v \<noteq> None"
    "\<forall>n\<in>set (msh v). 0 \<le> n \<and> n < sizeS sc"
    using Cons.prems(2) by simp_all
  from closeOnBackBone_total [of sc t v msh, OF Cons.prems(1) hv] obtain t1 n where
    s: "closeOnBackBone sc msh v t = Some t1" and inv1: "trunkInv sc t1"
    and l1: "length (ufs t1) = length (ufs t)"
    and k1: "\<forall>w < length (ufs t). ufs t ! w \<noteq> None \<longrightarrow> ufs t1 ! w \<noteq> None"
    and c1: "\<forall>w < length (vert2tree t). \<forall>m. vert2tree t ! w = CNode m \<longrightarrow> vert2tree t1 ! w = CNode m"
    and n: "vert2tree t1 ! nat v = CNode n"
    by blast
  have len: "int (length (ufs t)) = sizeS sc" "int (length (vert2tree t)) = sizeS sc"
    "int (length (vert2tree t1)) = sizeS sc"
    using Cons.prems(1) inv1 by (simp_all add: trunkInv_iff)
  have vs1: "\<forall>v\<in>set vs. 0 \<le> v \<and> v < sizeS sc \<and> ufs t1 ! nat v \<noteq> None
               \<and> (\<forall>n\<in>set (msh v). 0 \<le> n \<and> n < sizeS sc)"
  proof
    fix w assume w: "w \<in> set vs"
    then have hw: "0 \<le> w" "w < sizeS sc" "ufs t ! nat w \<noteq> None"
      "\<forall>n\<in>set (msh w). 0 \<le> n \<and> n < sizeS sc"
      using Cons.prems(2) by simp_all
    have "nat w < length (ufs t)" using hw(1,2) len(1) by simp
    then have "ufs t1 ! nat w \<noteq> None" using k1 hw(3) by blast
    then show "0 \<le> w \<and> w < sizeS sc \<and> ufs t1 ! nat w \<noteq> None
               \<and> (\<forall>n\<in>set (msh w). 0 \<le> n \<and> n < sizeS sc)"
      using hw by simp
  qed
  from Cons.IH [OF inv1 vs1] obtain t' where
    r: "forEach vs (closeOnBackBone sc msh) t1 = Some t'" and inv': "trunkInv sc t'"
    and n': "\<forall>v\<in>set vs. \<exists>n. vert2tree t' ! nat v = CNode n"
    and c': "\<forall>w < length (vert2tree t1). \<forall>m. vert2tree t1 ! w = CNode m \<longrightarrow> vert2tree t' ! w = CNode m"
    by blast
  have nv: "nat v < length (vert2tree t1)" using hv(1,2) len(3) by simp
  have "vert2tree t' ! nat v = CNode n" using c' n nv by blast
  then have all: "\<forall>v\<in>set (v # vs). \<exists>n. vert2tree t' ! nat v = CNode n" using n' by simp
  have keep: "\<forall>w < length (vert2tree t). \<forall>m. vert2tree t ! w = CNode m \<longrightarrow> vert2tree t' ! w = CNode m"
    using c1 c' len(2,3) by simp
  have "forEach (v # vs) (closeOnBackBone sc msh) t = Some t'" using s r by simp
  then show ?case using inv' all keep by blast
qed

subsection \<open>The arcs of the trunk and the nodes\<close>

lemma length_attachArcs: "length (attachArcs m new ns) = length ns"
  by (simp add: attachArcs_def)

lemma attachArcs_nth:
  "i < length ns \<Longrightarrow> attachArcs m new ns ! i = (ns ! i)
      \<lparr>upSuperArcs := upSuperArcs (ns ! i)
         @ map (\<lambda>k. int (m + k)) (filter (\<lambda>k. downNodeId (new ! k) = int i) [0 ..< length new]),
       downSuperArcs := downSuperArcs (ns ! i)
         @ map (\<lambda>k. int (m + k)) (filter (\<lambda>k. upNodeId (new ! k) = int i) [0 ..< length new])\<rparr>"
  by (simp add: attachArcs_def)

lemma attachArcs_Nil: "attachArcs m [] ns = ns"
  by (rule nth_equalityI) (simp_all add: length_attachArcs attachArcs_nth)

lemma filter_snoc_arcs:
  "filter (\<lambda>k. f ((new @ [a]) ! k) = (i::int)) [0 ..< length (new @ [a])]
     = filter (\<lambda>k. f (new ! k) = i) [0 ..< length new] @ (if f a = i then [length new] else [])"
proof -
  have "filter (\<lambda>k. f ((new @ [a]) ! k) = i) [0 ..< length new]
      = filter (\<lambda>k. f (new ! k) = i) [0 ..< length new]"
    by (rule filter_cong) (simp_all add: nth_append)
  then show ?thesis by simp
qed

lemma attachArcs_snoc_nth:
  assumes "i < length ns"
  shows "attachArcs m (new @ [a]) ns ! i = (attachArcs m new ns ! i)
      \<lparr>upSuperArcs := upSuperArcs (attachArcs m new ns ! i)
         @ (if downNodeId a = int i then [int (m + length new)] else []),
       downSuperArcs := downSuperArcs (attachArcs m new ns ! i)
         @ (if upNodeId a = int i then [int (m + length new)] else [])\<rparr>"
  unfolding attachArcs_nth [OF assms] filter_snoc_arcs by simp

lemma attachArcs_snoc:
  assumes d: "inRange (downNodeId a) ns" and u: "inRange (upNodeId a) ns"
    and X: "X = attachArcs m new ns" and k: "k = int (m + length new)"
  shows "attachArcs m (new @ [a]) ns
    = (X[nat (downNodeId a) := (X ! nat (downNodeId a))
           \<lparr>upSuperArcs := upSuperArcs (X ! nat (downNodeId a)) @ [k]\<rparr>])
      [nat (upNodeId a) :=
         ((X[nat (downNodeId a) := (X ! nat (downNodeId a))
           \<lparr>upSuperArcs := upSuperArcs (X ! nat (downNodeId a)) @ [k]\<rparr>]) ! nat (upNodeId a))
           \<lparr>downSuperArcs := downSuperArcs
              ((X[nat (downNodeId a) := (X ! nat (downNodeId a))
                 \<lparr>upSuperArcs := upSuperArcs (X ! nat (downNodeId a)) @ [k]\<rparr>]) ! nat (upNodeId a))
              @ [k]\<rparr>]"
proof (rule nth_equalityI)
  show "length (attachArcs m (new @ [a]) ns) = length (X[nat (downNodeId a) := (X ! nat (downNodeId a))
           \<lparr>upSuperArcs := upSuperArcs (X ! nat (downNodeId a)) @ [k]\<rparr>,
      nat (upNodeId a) :=
         ((X[nat (downNodeId a) := (X ! nat (downNodeId a))
           \<lparr>upSuperArcs := upSuperArcs (X ! nat (downNodeId a)) @ [k]\<rparr>]) ! nat (upNodeId a))
           \<lparr>downSuperArcs := downSuperArcs
              ((X[nat (downNodeId a) := (X ! nat (downNodeId a))
                 \<lparr>upSuperArcs := upSuperArcs (X ! nat (downNodeId a)) @ [k]\<rparr>]) ! nat (upNodeId a))
              @ [k]\<rparr>])"
    by (simp add: X length_attachArcs)
next
  fix i assume "i < length (attachArcs m (new @ [a]) ns)"
  then have i: "i < length ns" by (simp add: length_attachArcs)
  have lx: "length X = length ns" by (simp add: X length_attachArcs)
  have di: "downNodeId a = int i \<longleftrightarrow> i = nat (downNodeId a)"
    and ui: "upNodeId a = int i \<longleftrightarrow> i = nat (upNodeId a)"
    using d u by (auto simp: inRange_def)
  have nd: "nat (downNodeId a) < length X" and nu: "nat (upNodeId a) < length X"
    using inRange_nat [OF d] inRange_nat [OF u] lx by simp_all
  show "attachArcs m (new @ [a]) ns ! i = (X[nat (downNodeId a) := (X ! nat (downNodeId a))
           \<lparr>upSuperArcs := upSuperArcs (X ! nat (downNodeId a)) @ [k]\<rparr>,
      nat (upNodeId a) :=
         ((X[nat (downNodeId a) := (X ! nat (downNodeId a))
           \<lparr>upSuperArcs := upSuperArcs (X ! nat (downNodeId a)) @ [k]\<rparr>]) ! nat (upNodeId a))
           \<lparr>downSuperArcs := downSuperArcs
              ((X[nat (downNodeId a) := (X ! nat (downNodeId a))
                 \<lparr>upSuperArcs := upSuperArcs (X ! nat (downNodeId a)) @ [k]\<rparr>]) ! nat (upNodeId a))
              @ [k]\<rparr>]) ! i"
    unfolding attachArcs_snoc_nth [OF i] di ui X [symmetric] k [symmetric]
    using i lx nd nu
    by (cases "i = nat (downNodeId a)"; cases "i = nat (upNodeId a)") (simp_all add: nth_list_update)
qed

lemma attachArcs_snoc_open:
  assumes d: "inRange (downNodeId a) ns" and u: "upNodeId a < 0"
    and X: "X = attachArcs m new ns" and k: "k = int (m + length new)"
  shows "attachArcs m (new @ [a]) ns
    = X[nat (downNodeId a) := (X ! nat (downNodeId a))
           \<lparr>upSuperArcs := upSuperArcs (X ! nat (downNodeId a)) @ [k]\<rparr>]"
proof (rule nth_equalityI)
  show "length (attachArcs m (new @ [a]) ns) = length (X[nat (downNodeId a) := (X ! nat (downNodeId a))
           \<lparr>upSuperArcs := upSuperArcs (X ! nat (downNodeId a)) @ [k]\<rparr>])"
    by (simp add: X length_attachArcs)
next
  fix i assume "i < length (attachArcs m (new @ [a]) ns)"
  then have i: "i < length ns" by (simp add: length_attachArcs)
  have lx: "length X = length ns" by (simp add: X length_attachArcs)
  have di: "downNodeId a = int i \<longleftrightarrow> i = nat (downNodeId a)"
    and ui: "upNodeId a \<noteq> int i"
    using d u by (auto simp: inRange_def)
  show "attachArcs m (new @ [a]) ns ! i = (X[nat (downNodeId a) := (X ! nat (downNodeId a))
           \<lparr>upSuperArcs := upSuperArcs (X ! nat (downNodeId a)) @ [k]\<rparr>]) ! i"
    unfolding attachArcs_snoc_nth [OF i] di X [symmetric] k [symmetric]
    using i lx ui
    by (cases "i = nat (downNodeId a)") (simp_all add: nth_list_update)
qed

lemma attachArcs_fresh:
  assumes "\<forall>a\<in>set new. downNodeId a \<noteq> int (length ns) \<and> upNodeId a \<noteq> int (length ns)"
    and "upSuperArcs x = []" "downSuperArcs x = []"
  shows "attachArcs m new (ns @ [x]) = attachArcs m new ns @ [x]"
proof (rule nth_equalityI)
  show "length (attachArcs m new (ns @ [x])) = length (attachArcs m new ns @ [x])"
    by (simp add: length_attachArcs)
next
  fix i assume "i < length (attachArcs m new (ns @ [x]))"
  then have i: "i < length (ns @ [x])" by (simp add: length_attachArcs)
  show "attachArcs m new (ns @ [x]) ! i = (attachArcs m new ns @ [x]) ! i"
  proof (cases "i < length ns")
    case True
    then show ?thesis
      unfolding attachArcs_nth [OF i]
      by (simp add: nth_append length_attachArcs attachArcs_nth)
  next
    case False
    then have e: "i = length ns" using i by simp
    have "filter (\<lambda>k. downNodeId (new ! k) = int (length ns)) [0 ..< length new] = []"
      "filter (\<lambda>k. upNodeId (new ! k) = int (length ns)) [0 ..< length new] = []"
      using assms(1) by (auto simp: filter_empty_conv)
    then have "attachArcs m new (ns @ [x]) ! length ns = x"
      using attachArcs_nth [of "length ns" "ns @ [x]" m new] assms(2,3) by simp
    then show ?thesis unfolding e by (simp add: nth_append length_attachArcs)
  qed
qed

lemma attachArcs_close:
  assumes u: "inRange r ns" and un: "upNodeId a < 0"
    and X: "X = attachArcs m (new @ [a]) ns" and k: "k = int (m + length new)"
  shows "attachArcs m (new @ [a\<lparr>upNodeId := r\<rparr>]) ns
    = X[nat r := (X ! nat r)\<lparr>downSuperArcs := downSuperArcs (X ! nat r) @ [k]\<rparr>]"
proof (rule nth_equalityI)
  show "length (attachArcs m (new @ [a\<lparr>upNodeId := r\<rparr>]) ns)
      = length (X[nat r := (X ! nat r)\<lparr>downSuperArcs := downSuperArcs (X ! nat r) @ [k]\<rparr>])"
    by (simp add: X length_attachArcs)
next
  fix i assume "i < length (attachArcs m (new @ [a\<lparr>upNodeId := r\<rparr>]) ns)"
  then have i: "i < length ns" by (simp add: length_attachArcs)
  have lx: "length X = length ns" by (simp add: X length_attachArcs)
  have ri: "r = int i \<longleftrightarrow> i = nat r" and ui: "upNodeId a \<noteq> int i"
    using u un by (auto simp: inRange_def)
  have Xi: "X ! i = (attachArcs m new ns ! i)
      \<lparr>upSuperArcs := upSuperArcs (attachArcs m new ns ! i)
         @ (if downNodeId a = int i then [int (m + length new)] else []),
       downSuperArcs := downSuperArcs (attachArcs m new ns ! i)\<rparr>"
    unfolding X attachArcs_snoc_nth [OF i] using ui by simp
  have L: "attachArcs m (new @ [a\<lparr>upNodeId := r\<rparr>]) ns ! i = (attachArcs m new ns ! i)
      \<lparr>upSuperArcs := upSuperArcs (attachArcs m new ns ! i)
         @ (if downNodeId a = int i then [k] else []),
       downSuperArcs := downSuperArcs (attachArcs m new ns ! i)
         @ (if r = int i then [k] else [])\<rparr>"
    unfolding attachArcs_snoc_nth [OF i] k by simp
  show "attachArcs m (new @ [a\<lparr>upNodeId := r\<rparr>]) ns ! i
      = (X[nat r := (X ! nat r)\<lparr>downSuperArcs := downSuperArcs (X ! nat r) @ [k]\<rparr>]) ! i"
    unfolding L
  proof (cases "i = nat r")
    case True
    have r0: "0 \<le> r" using u by (simp add: inRange_def)
    have "r = int i" using True r0 by simp
    then show "(attachArcs m new ns ! i)
      \<lparr>upSuperArcs := upSuperArcs (attachArcs m new ns ! i)
         @ (if downNodeId a = int i then [k] else []),
       downSuperArcs := downSuperArcs (attachArcs m new ns ! i)
         @ (if r = int i then [k] else [])\<rparr>
      = (X[nat r := (X ! nat r)\<lparr>downSuperArcs := downSuperArcs (X ! nat r) @ [k]\<rparr>]) ! i"
      using i lx Xi k True by simp
  next
    case False
    then have "r \<noteq> int i" using ri by simp
    then show "(attachArcs m new ns ! i)
      \<lparr>upSuperArcs := upSuperArcs (attachArcs m new ns ! i)
         @ (if downNodeId a = int i then [k] else []),
       downSuperArcs := downSuperArcs (attachArcs m new ns ! i)
         @ (if r = int i then [k] else [])\<rparr>
      = (X[nat r := (X ! nat r)\<lparr>downSuperArcs := downSuperArcs (X ! nat r) @ [k]\<rparr>]) ! i"
      using i lx Xi k False by simp
  qed
qed

lemma attachArcs_ids:
  assumes "map downNodeId new' = map downNodeId new" "map upNodeId new' = map upNodeId new"
  shows "attachArcs m new' ns = attachArcs m new ns"
proof -
  have l: "length new' = length new" using assms(1) by (metis length_map)
  have "downNodeId (new' ! k) = downNodeId (new ! k)" "upNodeId (new' ! k) = upNodeId (new ! k)"
    if "k < length new" for k
    using that l assms by (metis nth_map)+
  then have "filter (\<lambda>k. downNodeId (new' ! k) = i) [0 ..< length new]
        = filter (\<lambda>k. downNodeId (new ! k) = i) [0 ..< length new]"
    "filter (\<lambda>k. upNodeId (new' ! k) = i) [0 ..< length new]
        = filter (\<lambda>k. upNodeId (new ! k) = i) [0 ..< length new]" for i
    by (auto intro: filter_cong)
  then show ?thesis unfolding attachArcs_def l by simp
qed

lemma makeSuperArc_result:
  assumes "makeSuperArc d u t = Some (na, t')"
  shows "inRange d (nodes t)" "inRange u (nodes t)" "na = int (length (superArcs t))"
    "t' = t\<lparr>superArcs := superArcs t @ [newSuperArc\<lparr>downNodeId := d, upNodeId := u\<rparr>],
            nodes := (nodes t)[nat d := (nodes t ! nat d)
                        \<lparr>upSuperArcs := upSuperArcs (nodes t ! nat d) @ [na]\<rparr>,
                      nat u := ((nodes t)[nat d := (nodes t ! nat d)
                        \<lparr>upSuperArcs := upSuperArcs (nodes t ! nat d) @ [na]\<rparr>] ! nat u)
                        \<lparr>downSuperArcs := downSuperArcs ((nodes t)[nat d := (nodes t ! nat d)
                        \<lparr>upSuperArcs := upSuperArcs (nodes t ! nat d) @ [na]\<rparr>] ! nat u) @ [na]\<rparr>]\<rparr>"
  using assms
  by (auto simp: makeSuperArc_def Let_def rd_def wr_def inRange_def split: bind_splits if_splits)

lemma makeSuperArc_total:
  "inRange d (nodes t) \<Longrightarrow> inRange u (nodes t) \<Longrightarrow>
     \<exists>t'. makeSuperArc d u t = Some (int (length (superArcs t)), t')"
  by (simp add: makeSuperArc_def Let_def rd_def wr_def inRange_def)

lemma modSuperArc_result:
  assumes "modSuperArc i f t = Some t'"
  shows "inRange i (superArcs t)"
    "t' = t\<lparr>superArcs := (superArcs t)[nat i := f (superArcs t ! nat i)]\<rparr>"
  using assms by (auto simp: modSuperArc_def rd_def wr_def split: bind_splits if_splits)

lemma modSuperArc_total:
  "inRange i (superArcs t) \<Longrightarrow> \<exists>t'. modSuperArc i f t = Some t'"
  by (simp add: modSuperArc_def rd_def wr_def)

lemma snoc_update: "n = length xs \<Longrightarrow> (xs @ [x])[n := f ((xs @ [x]) ! n)] = xs @ [f x]"
  by simp

lemma chain_step_form:
  assumes st: "t = t1\<lparr>superArcs := superArcs t1 @ new,
                     nodes := attachArcs (length (superArcs t1)) new (nodes t1)\<rparr>"
    and run: "do {
             pd \<leftarrow> rd pv (n - 1);
             pu \<leftarrow> rd pv n;
             d \<leftarrow> getCorrespondingNodeId t pd;
             u \<leftarrow> getCorrespondingNodeId t pu;
             (na, t') \<leftarrow> makeSuperArc d u t;
             modSuperArc na (setLastVisited pu) t'
           } = Some t'"
    and A: "A = \<lparr>downNodeId = nodeOf t1 (pv ! nat (n - 1)), upNodeId = nodeOf t1 (pv ! nat n),
                 lastVisited = pv ! nat n, verticesSeen = 1, region = []\<rparr>"
  shows "t' = t1\<lparr>superArcs := superArcs t1 @ (new @ [A]),
                  nodes := attachArcs (length (superArcs t1)) (new @ [A]) (nodes t1)\<rparr>
     \<and> inRange (n - 1) pv \<and> inRange n pv
     \<and> getCorrespondingNodeId t1 (pv ! nat (n - 1)) = Some (nodeOf t1 (pv ! nat (n - 1)))
     \<and> getCorrespondingNodeId t1 (pv ! nat n) = Some (nodeOf t1 (pv ! nat n))
     \<and> inRange (nodeOf t1 (pv ! nat (n - 1))) (nodes t1)
     \<and> inRange (nodeOf t1 (pv ! nat n)) (nodes t1)"
proof -
  let ?m = "length (superArcs t1)"
  let ?X = "attachArcs ?m new (nodes t1)"
  have v: "vert2tree t = vert2tree t1" by (subst st) simp
  have g: "\<And>x. getCorrespondingNodeId t x = getCorrespondingNodeId t1 x"
    using v by (rule getCorrespondingNodeId_cong)
  from run obtain d u na t2 where
    pd: "inRange (n - 1) pv" and pu: "inRange n pv"
    and d: "getCorrespondingNodeId t1 (pv ! nat (n - 1)) = Some d"
    and u: "getCorrespondingNodeId t1 (pv ! nat n) = Some u"
    and mk: "makeSuperArc d u t = Some (na, t2)"
    and md: "modSuperArc na (setLastVisited (pv ! nat n)) t2 = Some t'"
    unfolding g by (auto simp: rd_def split: bind_splits if_splits)
  have nd: "nodeOf t1 (pv ! nat (n - 1)) = d" and nu: "nodeOf t1 (pv ! nat n) = u"
    using d u by (simp_all add: nodeOf_def)
  note r1 = makeSuperArc_result [OF mk]
  note r2 = modSuperArc_result [OF md]
  have nt: "nodes t = ?X" and sat: "superArcs t = superArcs t1 @ new"
    by (subst st, simp)+
  have dr: "inRange d (nodes t1)" and ur: "inRange u (nodes t1)"
    using r1(1,2) nt by (simp_all add: inRange_def length_attachArcs)
  have na: "na = int (?m + length new)" using r1(3) sat by simp
  have dA: "downNodeId A = d" and uA: "upNodeId A = u" using A nd nu by simp_all
  have N: "(nodes t)[nat d := (nodes t ! nat d)
                        \<lparr>upSuperArcs := upSuperArcs (nodes t ! nat d) @ [na]\<rparr>,
                      nat u := ((nodes t)[nat d := (nodes t ! nat d)
                        \<lparr>upSuperArcs := upSuperArcs (nodes t ! nat d) @ [na]\<rparr>] ! nat u)
                        \<lparr>downSuperArcs := downSuperArcs ((nodes t)[nat d := (nodes t ! nat d)
                        \<lparr>upSuperArcs := upSuperArcs (nodes t ! nat d) @ [na]\<rparr>] ! nat u) @ [na]\<rparr>]
      = attachArcs ?m (new @ [A]) (nodes t1)"
    using attachArcs_snoc [of A "nodes t1" ?X ?m new na] dr ur na
    unfolding dA uA nt by simp
  have base: "t\<lparr>superArcs := a, nodes := b\<rparr> = t1\<lparr>superArcs := a, nodes := b\<rparr>" for a b
    by (subst st) simp
  have t2: "t2 = t1\<lparr>superArcs := (superArcs t1 @ new)
                     @ [newSuperArc\<lparr>downNodeId := d, upNodeId := u\<rparr>],
                   nodes := attachArcs ?m (new @ [A]) (nodes t1)\<rparr>"
    using r1(4) unfolding N sat base .
  have sa2: "superArcs t2 = (superArcs t1 @ new) @ [newSuperArc\<lparr>downNodeId := d, upNodeId := u\<rparr>]"
    by (subst t2) simp
  have nna: "nat na = length (superArcs t1 @ new)" using na by simp
  have E: "(superArcs t2)[nat na := setLastVisited (pv ! nat n) (superArcs t2 ! nat na)]
      = superArcs t1 @ (new @ [A])"
    unfolding sa2
      snoc_update [OF nna, of "newSuperArc\<lparr>downNodeId := d, upNodeId := u\<rparr>"
        "setLastVisited (pv ! nat n)"]
    by (simp add: A nd nu setLastVisited_def newSuperArc_def)
  have "t' = t2\<lparr>superArcs := superArcs t1 @ (new @ [A])\<rparr>"
    using r2(2) unfolding E .
  then have "t' = t1\<lparr>superArcs := superArcs t1 @ (new @ [A]),
                  nodes := attachArcs ?m (new @ [A]) (nodes t1)\<rparr>"
    by (subst (asm) t2) simp
  then show ?thesis using pd pu d u nd nu dr ur by simp
qed

lemma chain_loop_form:
  assumes "forEach ns (\<lambda>n t. do {
             pd \<leftarrow> rd pv (n - 1);
             pu \<leftarrow> rd pv n;
             d \<leftarrow> getCorrespondingNodeId t pd;
             u \<leftarrow> getCorrespondingNodeId t pu;
             (na, t') \<leftarrow> makeSuperArc d u t;
             modSuperArc na (setLastVisited pu) t'
           }) (t1\<lparr>superArcs := superArcs t1 @ new,
                  nodes := attachArcs (length (superArcs t1)) new (nodes t1)\<rparr>) = Some t'"
  shows "t' = t1\<lparr>superArcs := superArcs t1
                 @ (new @ map (\<lambda>n. \<lparr>downNodeId = nodeOf t1 (pv ! nat (n - 1)),
                      upNodeId = nodeOf t1 (pv ! nat n),
                      lastVisited = pv ! nat n, verticesSeen = 1, region = []\<rparr>) ns),
               nodes := attachArcs (length (superArcs t1))
                 (new @ map (\<lambda>n. \<lparr>downNodeId = nodeOf t1 (pv ! nat (n - 1)),
                      upNodeId = nodeOf t1 (pv ! nat n),
                      lastVisited = pv ! nat n, verticesSeen = 1, region = []\<rparr>) ns)
                 (nodes t1)\<rparr>
     \<and> (\<forall>n\<in>set ns. inRange (n - 1) pv \<and> inRange n pv
           \<and> getCorrespondingNodeId t1 (pv ! nat (n - 1)) = Some (nodeOf t1 (pv ! nat (n - 1)))
           \<and> getCorrespondingNodeId t1 (pv ! nat n) = Some (nodeOf t1 (pv ! nat n))
           \<and> inRange (nodeOf t1 (pv ! nat (n - 1))) (nodes t1)
           \<and> inRange (nodeOf t1 (pv ! nat n)) (nodes t1))"
  using assms
proof (induction ns arbitrary: new)
  case Nil
  then show ?case by simp
next
  case (Cons n ns)
  let ?body = "\<lambda>n t. do {
             pd \<leftarrow> rd pv (n - 1);
             pu \<leftarrow> rd pv n;
             d \<leftarrow> getCorrespondingNodeId t pd;
             u \<leftarrow> getCorrespondingNodeId t pu;
             (na, t') \<leftarrow> makeSuperArc d u t;
             modSuperArc na (setLastVisited pu) t'
           }"
  let ?A = "\<lambda>n. \<lparr>downNodeId = nodeOf t1 (pv ! nat (n - 1)), upNodeId = nodeOf t1 (pv ! nat n),
                  lastVisited = pv ! nat n, verticesSeen = 1, region = []\<rparr>"
  let ?t = "t1\<lparr>superArcs := superArcs t1 @ new,
                  nodes := attachArcs (length (superArcs t1)) new (nodes t1)\<rparr>"
  from Cons.prems obtain t2 where
    s: "?body n ?t = Some t2" and r: "forEach ns ?body t2 = Some t'"
    by (auto split: option.splits)
  from chain_step_form [OF refl s refl] have
    t2: "t2 = t1\<lparr>superArcs := superArcs t1 @ (new @ [?A n]),
                  nodes := attachArcs (length (superArcs t1)) (new @ [?A n]) (nodes t1)\<rparr>"
    and f: "inRange (n - 1) pv \<and> inRange n pv
           \<and> getCorrespondingNodeId t1 (pv ! nat (n - 1)) = Some (nodeOf t1 (pv ! nat (n - 1)))
           \<and> getCorrespondingNodeId t1 (pv ! nat n) = Some (nodeOf t1 (pv ! nat n))
           \<and> inRange (nodeOf t1 (pv ! nat (n - 1))) (nodes t1)
           \<and> inRange (nodeOf t1 (pv ! nat n)) (nodes t1)"
    by blast+
  note ih = Cons.IH [of "new @ [?A n]", OF r [unfolded t2]]
  have e: "(new @ [?A n]) @ map ?A ns = new @ map ?A (n # ns)" by simp
  show ?case using ih f unfolding e by simp
qed

lemma upto_map_int: "[int a .. int b - 1] = map int [a ..< b]"
proof (induction b)
  case 0
  then show ?case by simp
next
  case (Suc b)
  show ?case
  proof (cases "a \<le> b")
    case True
    have "[int a .. int (Suc b) - 1] = [int a .. int b - 1] @ [int b]"
      using True upto_rec2 [of "int a" "int b"] by simp
    then show ?thesis using Suc True by simp
  next
    case False
    then show ?thesis by simp
  qed
qed

lemma chainArcs_upto:
  "map (\<lambda>n. \<lparr>downNodeId = nodeOf t (pv ! nat (n - 1)), upNodeId = nodeOf t (pv ! nat n),
             lastVisited = pv ! nat n, verticesSeen = 1, region = []\<rparr>)
     [1 .. int (length pv) - 1] = chainArcs t pv"
proof -
  have "[1 .. int (length pv) - 1] = map int [1 ..< length pv]"
    using upto_map_int [of 1 "length pv"] by simp
  then show ?thesis
    unfolding chainArcs_def by (simp add: comp_def nat_diff_distrib)
qed

lemma openSuperArc_result:
  assumes "openSuperArc d t = Some (a, t')" "a \<noteq> -2"
  shows "inRange d (nodes t)" "a = int (length (superArcs t))"
    "t' = t\<lparr>superArcs := superArcs t @ [newSuperArc\<lparr>downNodeId := d\<rparr>],
            nodes := (nodes t)[nat d := (nodes t ! nat d)
                        \<lparr>upSuperArcs := upSuperArcs (nodes t ! nat d) @ [a]\<rparr>]\<rparr>"
  using assms
  by (auto simp: openSuperArc_def getNumberOfNodes_def Let_def rd_def wr_def inRange_def
      split: bind_splits if_splits)

lemma openSuperArc_total:
  "inRange d (nodes t) \<Longrightarrow> \<exists>t'. openSuperArc d t = Some (int (length (superArcs t)), t')"
  by (simp add: openSuperArc_def getNumberOfNodes_def Let_def rd_def wr_def inRange_def)

lemma closeSuperArc_result:
  assumes "closeSuperArc a n t = Some t'" "inRange a (superArcs t)" "inRange n (nodes t)"
  shows "t' = t\<lparr>superArcs := (superArcs t)[nat a := (superArcs t ! nat a)\<lparr>upNodeId := n\<rparr>],
                nodes := (nodes t)[nat n := (nodes t ! nat n)
                           \<lparr>downSuperArcs := downSuperArcs (nodes t ! nat n) @ [a]\<rparr>]\<rparr>"
  using assms
  by (auto simp: closeSuperArc_def getNumberOfSuperArcs_def getNumberOfNodes_def rd_def wr_def
      inRange_def split: bind_splits if_splits)

lemma makeNode_cases:
  assumes "makeNode sc v term t = Some (n, t')" "inRange n (nodes t')"
  shows "(getCorrespondingNodeId t v = Some n \<and> t' = t)
     \<or> (getCorrespondingNodeId t v = None \<and> n = int (length (nodes t))
         \<and> inRange v (vert2tree t)
         \<and> t' = t\<lparr>nodes := nodes t @ [newNode\<lparr>vertexId := v, terminaison := term\<rparr>],
                   vert2tree := (vert2tree t)[nat v := CNode n]\<rparr>)"
  using assms
  by (auto simp: makeNode_def isCorrespondingNode_def getCorrespondingNodeId_def
      updateCorrespondingNode_def Let_def rd_def wr_def inRange_def
      split: bind_splits if_splits option.splits corresp.splits)

lemma vertexId_attachArcs:
  "i < length ns \<Longrightarrow> vertexId (attachArcs m new ns ! i) = vertexId (ns ! i)"
  by (simp add: attachArcs_nth)

lemma final_form:
  assumes st: "t2 = t1\<lparr>superArcs := superArcs t1 @ new,
                      nodes := attachArcs (length (superArcs t1)) new (nodes t1)\<rparr>"
    and newr: "\<forall>a\<in>set new. inRange (downNodeId a) (nodes t1) \<and> inRange (upNodeId a) (nodes t1)"
    and d: "getCorrespondingNodeId t2 pl = Some d"
    and op: "openSuperArc d t2 = Some (lastArc, t3)"
    and e: "rd (sortedVertices sc) (if isJT t3 then sizeS sc - 1 else 0) = Some e"
    and mk: "makeNode sc e nullVertex t3 = Some (rootNode, t4)"
    and cs: "closeSuperArc lastArc rootNode t4 = Some t5"
    and rn: "rd (nodes t5) rootNode = Some rn"
    and md: "modSuperArc lastArc (setLastVisited (vertexId rn)) t5 = Some t'"
    and F: "F = \<lparr>downNodeId = nodeOf t1 pl, upNodeId = rootOf sc t1,
                 lastVisited = vertexId (rootedNodes sc t1 ! nat (rootOf sc t1)),
                 verticesSeen = 1, region = []\<rparr>"
  shows "t' = t1\<lparr>superArcs := superArcs t1 @ (new @ [F]),
                  nodes := attachArcs (length (superArcs t1)) (new @ [F]) (rootedNodes sc t1),
                  vert2tree := rootedVert2tree sc t1\<rparr>
     \<and> getCorrespondingNodeId t1 pl = Some (nodeOf t1 pl)
     \<and> inRange (nodeOf t1 pl) (nodes t1)
     \<and> inRange (rootOf sc t1) (rootedNodes sc t1)
     \<and> inRange (if isJT t1 then sizeS sc - 1 else 0) (sortedVertices sc)
     \<and> getCorrespondingNodeId t' (trunkExtremum sc t1) = Some (rootOf sc t1)"
proof -
  let ?m = "length (superArcs t1)"
  let ?S = "superArcs t1 @ new"
  let ?N0 = "rootedNodes sc t1"
  let ?V0 = "rootedVert2tree sc t1"
  let ?F0 = "newSuperArc\<lparr>downNodeId := d\<rparr>"
  let ?F1 = "newSuperArc\<lparr>downNodeId := d, upNodeId := rootNode\<rparr>"
  have v2: "vert2tree t2 = vert2tree t1" and n2: "nodes t2 = attachArcs ?m new (nodes t1)"
    and s2: "superArcs t2 = ?S" and tt2: "treeType t2 = treeType t1"
    by (subst st, simp)+
  have d1: "getCorrespondingNodeId t1 pl = Some d"
    using d getCorrespondingNodeId_cong [OF v2] by simp
  have nd: "nodeOf t1 pl = d" using d1 by (simp add: nodeOf_def)
  note fm = modSuperArc_result [OF md]
  have la2: "lastArc \<noteq> -2" using fm(1) by (auto simp: inRange_def)
  note fo = openSuperArc_result [OF op la2]
  have dr: "inRange d (nodes t1)" using fo(1) n2 by (simp add: inRange_def length_attachArcs)
  have la: "lastArc = int (?m + length new)" using fo(2) s2 by simp
  have nla: "nat lastArc = length ?S" using la by simp
  have N3: "(nodes t2)[nat d := (nodes t2 ! nat d)
                        \<lparr>upSuperArcs := upSuperArcs (nodes t2 ! nat d) @ [lastArc]\<rparr>]
      = attachArcs ?m (new @ [?F0]) (nodes t1)"
    using attachArcs_snoc_open [of ?F0 "nodes t1" "nodes t2" ?m new lastArc] dr n2 la
    by (simp add: newSuperArc_def nullNodes_def)
  have base: "t2\<lparr>superArcs := a, nodes := b\<rparr> = t1\<lparr>superArcs := a, nodes := b\<rparr>" for a b
    by (subst st) simp
  have t3: "t3 = t1\<lparr>superArcs := ?S @ [?F0], nodes := attachArcs ?m (new @ [?F0]) (nodes t1)\<rparr>"
    using fo(3) unfolding N3 s2 base .
  have v3: "vert2tree t3 = vert2tree t1" and n3: "nodes t3 = attachArcs ?m (new @ [?F0]) (nodes t1)"
    and s3: "superArcs t3 = ?S @ [?F0]" and tt3: "treeType t3 = treeType t1"
    by (subst t3, simp)+
  have jt: "isJT t3 = isJT t1" using tt3 by (simp add: isJT_def)
  have er: "inRange (if isJT t1 then sizeS sc - 1 else 0) (sortedVertices sc)"
    and e': "e = trunkExtremum sc t1"
    using e unfolding jt by (auto simp: rd_def trunkExtremum_def split: if_splits)
  have r5: "inRange rootNode (nodes t5)" and rn': "rn = nodes t5 ! nat rootNode"
    using rn by (auto simp: rd_def split: if_splits)
  have r4: "inRange rootNode (nodes t4)"
    using closeSuperArc_refused [OF cs] r5 by (cases "inRange rootNode (nodes t4)") simp_all
  have g3: "getCorrespondingNodeId t3 e = getCorrespondingNodeId t1 (trunkExtremum sc t1)"
    using getCorrespondingNodeId_cong [OF v3] e' by simp
  have fresh: "\<forall>a\<in>set (new @ [?F0]). downNodeId a \<noteq> int (length (nodes t1))
      \<and> upNodeId a \<noteq> int (length (nodes t1))"
    using newr dr by (auto simp: inRange_def newSuperArc_def nullNodes_def)
  have t4: "t4 = t1\<lparr>superArcs := ?S @ [?F0], nodes := attachArcs ?m (new @ [?F0]) ?N0,
                    vert2tree := ?V0\<rparr>
      \<and> rootNode = rootOf sc t1
      \<and> getCorrespondingNodeId (t1\<lparr>vert2tree := ?V0\<rparr>) (trunkExtremum sc t1) = Some rootNode"
    using makeNode_cases [OF mk r4]
  proof
    assume a: "getCorrespondingNodeId t3 e = Some rootNode \<and> t4 = t3"
    then have g: "getCorrespondingNodeId t1 (trunkExtremum sc t1) = Some rootNode"
      using g3 by simp
    have "t4 = t1\<lparr>superArcs := ?S @ [?F0], nodes := attachArcs ?m (new @ [?F0]) (nodes t1),
                    vert2tree := vert2tree t1\<rparr>"
      using a by (subst (asm) t3) simp
    then show ?thesis using g
      by (simp add: rootedNodes_def rootedVert2tree_def rootOf_def getCorrespondingNodeId_def)
  next
    assume a: "getCorrespondingNodeId t3 e = None \<and> rootNode = int (length (nodes t3))
         \<and> inRange e (vert2tree t3)
         \<and> t4 = t3\<lparr>nodes := nodes t3 @ [newNode\<lparr>vertexId := e, terminaison := nullVertex\<rparr>],
                   vert2tree := (vert2tree t3)[nat e := CNode rootNode]\<rparr>"
    then have g: "getCorrespondingNodeId t1 (trunkExtremum sc t1) = None"
      using g3 by simp
    have rl: "rootNode = int (length (nodes t1))" using a n3 by (simp add: length_attachArcs)
    have N: "nodes t3 @ [newNode\<lparr>vertexId := e, terminaison := nullVertex\<rparr>]
        = attachArcs ?m (new @ [?F0])
            (nodes t1 @ [newNode\<lparr>vertexId := e, terminaison := nullVertex\<rparr>])"
      unfolding n3 by (rule attachArcs_fresh [symmetric, OF fresh]) (simp_all add: newNode_def)
    have "t4 = t3\<lparr>nodes := attachArcs ?m (new @ [?F0])
            (nodes t1 @ [newNode\<lparr>vertexId := e, terminaison := nullVertex\<rparr>]),
                   vert2tree := (vert2tree t1)[nat e := CNode rootNode]\<rparr>"
      using a unfolding N v3 by simp
    then have "t4 = t1\<lparr>superArcs := ?S @ [?F0], nodes := attachArcs ?m (new @ [?F0])
            (nodes t1 @ [newNode\<lparr>vertexId := e, terminaison := nullVertex\<rparr>]),
                   vert2tree := (vert2tree t1)[nat e := CNode rootNode]\<rparr>"
      by (subst (asm) t3) simp
    then have T4: "t4 = t1\<lparr>superArcs := ?S @ [?F0], nodes := attachArcs ?m (new @ [?F0]) ?N0,
                    vert2tree := ?V0\<rparr>"
      using g rl e' by (simp add: rootedNodes_def rootedVert2tree_def)
    have ie: "inRange e (vert2tree t1)" using a v3 by simp
    have "rd ((vert2tree t1)[nat e := CNode rootNode]) e = Some (CNode rootNode)"
      using ie inRange_nat [OF ie] by (simp add: rd_def inRange_def)
    then have "getCorrespondingNodeId (t1\<lparr>vert2tree := ?V0\<rparr>) (trunkExtremum sc t1)
        = Some rootNode"
      using g rl e' by (simp add: rootedVert2tree_def getCorrespondingNodeId_def)
    moreover have "rootNode = rootOf sc t1" using g rl by (simp add: rootOf_def)
    ultimately show ?thesis using T4 by simp
  qed
  then have t4': "t4 = t1\<lparr>superArcs := ?S @ [?F0], nodes := attachArcs ?m (new @ [?F0]) ?N0,
                    vert2tree := ?V0\<rparr>"
    and ro: "rootNode = rootOf sc t1"
    and gr: "getCorrespondingNodeId (t1\<lparr>vert2tree := ?V0\<rparr>) (trunkExtremum sc t1) = Some rootNode"
    by simp_all
  have n4: "nodes t4 = attachArcs ?m (new @ [?F0]) ?N0" and s4: "superArcs t4 = ?S @ [?F0]"
    by (subst t4', simp)+
  have rN: "inRange rootNode ?N0" using r4 n4 by (simp add: inRange_def length_attachArcs)
  have l4: "inRange lastArc (superArcs t4)" using la s4 by (simp add: inRange_def)
  note fc = closeSuperArc_result [OF cs l4 r4]
  have S5: "(superArcs t4)[nat lastArc := (superArcs t4 ! nat lastArc)\<lparr>upNodeId := rootNode\<rparr>]
      = ?S @ [?F1]"
    unfolding s4 snoc_update [OF nla, of ?F0 "\<lambda>a. a\<lparr>upNodeId := rootNode\<rparr>"] by simp
  have N5: "(nodes t4)[nat rootNode := (nodes t4 ! nat rootNode)
                \<lparr>downSuperArcs := downSuperArcs (nodes t4 ! nat rootNode) @ [lastArc]\<rparr>]
      = attachArcs ?m (new @ [?F1]) ?N0"
    using attachArcs_close [of rootNode ?N0 ?F0 "nodes t4" ?m new lastArc] rN n4 la
    by (simp add: newSuperArc_def nullNodes_def)
  have base4: "t4\<lparr>superArcs := a, nodes := b\<rparr>
      = t1\<lparr>superArcs := a, nodes := b, vert2tree := ?V0\<rparr>" for a b
    by (subst t4') simp
  have t5: "t5 = t1\<lparr>superArcs := ?S @ [?F1], nodes := attachArcs ?m (new @ [?F1]) ?N0,
                    vert2tree := ?V0\<rparr>"
    using fc unfolding S5 N5 base4 .
  have n5: "nodes t5 = attachArcs ?m (new @ [?F1]) ?N0" and s5: "superArcs t5 = ?S @ [?F1]"
    by (subst t5, simp)+
  have vr: "vertexId rn = vertexId (?N0 ! nat rootNode)"
    unfolding rn' n5 using rN by (intro vertexId_attachArcs inRange_nat)
  have S6: "(superArcs t5)[nat lastArc := setLastVisited (vertexId rn) (superArcs t5 ! nat lastArc)]
      = superArcs t1 @ (new @ [F])"
    unfolding s5 snoc_update [OF nla, of ?F1 "setLastVisited (vertexId rn)"]
    by (simp add: F nd ro vr setLastVisited_def newSuperArc_def)
  have ids: "attachArcs ?m (new @ [?F1]) ?N0 = attachArcs ?m (new @ [F]) ?N0"
    by (rule attachArcs_ids) (simp_all add: F nd ro)
  have "t' = t5\<lparr>superArcs := superArcs t1 @ (new @ [F])\<rparr>"
    using fm(2) unfolding S6 .
  then have fin: "t' = t1\<lparr>superArcs := superArcs t1 @ (new @ [F]),
                  nodes := attachArcs ?m (new @ [F]) ?N0, vert2tree := ?V0\<rparr>"
    by (subst (asm) t5) (simp add: ids)
  have "vert2tree t' = ?V0" by (subst fin) simp
  then have "getCorrespondingNodeId t' (trunkExtremum sc t1) = Some (rootOf sc t1)"
    using gr ro by (simp add: getCorrespondingNodeId_def)
  then show ?thesis using fin d1 nd dr rN ro er by simp
qed

lemma collect_total:
  "\<forall>v\<in>set xs. inRange v ons \<Longrightarrow>
   \<exists>r. forEach xs (\<lambda>v pending. do {
       opened \<leftarrow> rd ons v;
       Some (if opened \<noteq> (0::int) then pending @ [v] else pending)
     }) acc = Some r"
  by (induction xs arbitrary: acc) (simp_all add: rd_def)

lemma chain_loop_total:
  assumes nodes: "\<forall>v\<in>set pv. getCorrespondingNodeId t1 v \<noteq> None
                    \<and> inRange (nodeOf t1 v) (nodes t1)"
    and ns: "\<forall>n\<in>set ns. inRange (n - 1) pv \<and> inRange n pv"
  shows "\<exists>t'. forEach ns (\<lambda>n t. do {
             pd \<leftarrow> rd pv (n - 1);
             pu \<leftarrow> rd pv n;
             d \<leftarrow> getCorrespondingNodeId t pd;
             u \<leftarrow> getCorrespondingNodeId t pu;
             (na, t') \<leftarrow> makeSuperArc d u t;
             modSuperArc na (setLastVisited pu) t'
           }) (t1\<lparr>superArcs := superArcs t1 @ new,
                  nodes := attachArcs (length (superArcs t1)) new (nodes t1)\<rparr>) = Some t'"
  using ns
proof (induction ns arbitrary: new)
  case Nil
  then show ?case by simp
next
  case (Cons n ns)
  let ?body = "\<lambda>n t. do {
             pd \<leftarrow> rd pv (n - 1);
             pu \<leftarrow> rd pv n;
             d \<leftarrow> getCorrespondingNodeId t pd;
             u \<leftarrow> getCorrespondingNodeId t pu;
             (na, t') \<leftarrow> makeSuperArc d u t;
             modSuperArc na (setLastVisited pu) t'
           }"
  let ?t = "t1\<lparr>superArcs := superArcs t1 @ new,
                  nodes := attachArcs (length (superArcs t1)) new (nodes t1)\<rparr>"
  have r: "inRange (n - 1) pv" "inRange n pv" using Cons.prems by simp_all
  have m: "pv ! nat (n - 1) \<in> set pv" "pv ! nat n \<in> set pv"
    using r by (simp_all add: inRange_nat)
  obtain d u where d: "getCorrespondingNodeId t1 (pv ! nat (n - 1)) = Some d"
    and u: "getCorrespondingNodeId t1 (pv ! nat n) = Some u"
    using nodes m by fastforce
  have dr: "inRange d (nodes ?t)" and ur: "inRange u (nodes ?t)"
    using nodes m d u by (auto simp: nodeOf_def inRange_def length_attachArcs)
  have g: "\<And>x. getCorrespondingNodeId ?t x = getCorrespondingNodeId t1 x"
    by (rule getCorrespondingNodeId_cong) simp
  from makeSuperArc_total [OF dr ur] obtain t2 where
    mk: "makeSuperArc d u ?t = Some (int (length (superArcs ?t)), t2)"
    by blast
  have "superArcs t2 = superArcs ?t @ [newSuperArc\<lparr>downNodeId := d, upNodeId := u\<rparr>]"
    by (subst makeSuperArc_result(4) [OF mk]) simp
  then have "inRange (int (length (superArcs ?t))) (superArcs t2)" by (simp add: inRange_def)
  from modSuperArc_total [OF this] obtain t3 where
    md: "modSuperArc (int (length (superArcs ?t))) (setLastVisited (pv ! nat n)) t2 = Some t3"
    by blast
  have s: "?body n ?t = Some t3"
    using r d u mk md unfolding g by (simp add: rd_def)
  from chain_step_form [OF refl s refl] have
    t3: "t3 = t1\<lparr>superArcs := superArcs t1 @ (new @ [\<lparr>downNodeId = nodeOf t1 (pv ! nat (n - 1)),
                      upNodeId = nodeOf t1 (pv ! nat n),
                      lastVisited = pv ! nat n, verticesSeen = 1, region = []\<rparr>]),
                  nodes := attachArcs (length (superArcs t1))
                    (new @ [\<lparr>downNodeId = nodeOf t1 (pv ! nat (n - 1)),
                      upNodeId = nodeOf t1 (pv ! nat n),
                      lastVisited = pv ! nat n, verticesSeen = 1, region = []\<rparr>]) (nodes t1)\<rparr>"
    by blast
  have ns': "\<forall>n\<in>set ns. inRange (n - 1) pv \<and> inRange n pv" using Cons.prems by simp
  from Cons.IH [OF ns', of "new @ [\<lparr>downNodeId = nodeOf t1 (pv ! nat (n - 1)),
                      upNodeId = nodeOf t1 (pv ! nat n),
                      lastVisited = pv ! nat n, verticesSeen = 1, region = []\<rparr>]"]
  obtain t' where "forEach ns ?body t3 = Some t'" unfolding t3 by blast
  then show ?case using s by auto
qed

lemma final_total:
  assumes inv: "trunkInv sc t1"
    and st: "t2 = t1\<lparr>superArcs := superArcs t1 @ new,
                      nodes := attachArcs (length (superArcs t1)) new (nodes t1)\<rparr>"
    and pl: "getCorrespondingNodeId t1 pl \<noteq> None" "inRange (nodeOf t1 pl) (nodes t1)"
    and er: "inRange (if isJT t1 then sizeS sc - 1 else 0) (sortedVertices sc)"
    and ev: "0 \<le> trunkExtremum sc t1" "trunkExtremum sc t1 < sizeS sc"
  shows "\<exists>t'. do {
       d \<leftarrow> getCorrespondingNodeId t2 pl;
       (lastArc, t3) \<leftarrow> openSuperArc d t2;
       extremum \<leftarrow> rd (sortedVertices sc) (if isJT t3 then sizeS sc - 1 else 0);
       (rootNode, t4) \<leftarrow> makeNode sc extremum nullVertex t3;
       t5 \<leftarrow> closeSuperArc lastArc rootNode t4;
       rn \<leftarrow> rd (nodes t5) rootNode;
       t6 \<leftarrow> modSuperArc lastArc (setLastVisited (vertexId rn)) t5;
       Some (pv, t6)
     } = Some (pv, t')"
proof -
  have v2: "vert2tree t2 = vert2tree t1" and u2: "ufs t2 = ufs t1" and h2: "ufHeap t2 = ufHeap t1"
    and n2: "length (nodes t2) = length (nodes t1)" and tt2: "treeType t2 = treeType t1"
    by (subst st, simp add: length_attachArcs)+
  obtain d where d1: "getCorrespondingNodeId t1 pl = Some d" using pl(1) by auto
  have d: "getCorrespondingNodeId t2 pl = Some d"
    using d1 getCorrespondingNodeId_cong [OF v2] by simp
  have dr: "inRange d (nodes t2)" using pl(2) d1 n2 by (simp add: nodeOf_def inRange_def)
  from openSuperArc_total [OF dr] obtain t3 where
    op: "openSuperArc d t2 = Some (int (length (superArcs t2)), t3)"
    by blast
  have "int (length (superArcs t2)) \<noteq> -2" by simp
  note fo = openSuperArc_result [OF op this]
  have v3: "vert2tree t3 = vert2tree t1" and u3: "ufs t3 = ufs t1" and h3: "ufHeap t3 = ufHeap t1"
    and n3: "length (nodes t3) = length (nodes t1)" and tt3: "treeType t3 = treeType t1"
    and s3: "length (superArcs t3) = Suc (length (superArcs t2))"
    using v2 u2 h2 n2 tt2 by (subst fo(3), simp)+
  have inv3: "trunkInv sc t3" using inv v3 u3 h3 n3 by (rule trunkInv_cong)
  have jt: "isJT t3 = isJT t1" using tt3 by (simp add: isJT_def)
  have e: "rd (sortedVertices sc) (if isJT t3 then sizeS sc - 1 else 0)
      = Some (trunkExtremum sc t1)"
    using er unfolding jt by (simp add: rd_def trunkExtremum_def)
  from makeNode_total [OF inv3 ev, of nullVertex] obtain root t4 where
    mk: "makeNode sc (trunkExtremum sc t1) nullVertex t3 = Some (root, t4)"
    and s4: "superArcs t4 = superArcs t3" and r4: "inRange root (nodes t4)"
    by blast
  from closeSuperArc_total [of "int (length (superArcs t2))" root t4] obtain t5 where
    cs: "closeSuperArc (int (length (superArcs t2))) root t4 = Some t5"
    and n5: "length (nodes t5) = length (nodes t4)"
    and s5: "length (superArcs t5) = length (superArcs t4)"
    by blast
  have r5: "rd (nodes t5) root = Some (nodes t5 ! nat root)"
    using r4 n5 by (simp add: rd_def inRange_def)
  have "inRange (int (length (superArcs t2))) (superArcs t5)"
    using s5 s4 s3 by (simp add: inRange_def)
  from modSuperArc_total [OF this] obtain t6 where
    md: "modSuperArc (int (length (superArcs t2)))
           (setLastVisited (vertexId (nodes t5 ! nat root))) t5 = Some t6"
    by blast
  show ?thesis using d op e mk cs r5 md by (intro exI [of _ t6]) simp
qed

subsection \<open>The first part of the trunk\<close>

lemma trunkArcs_form:
  assumes run: "trunkArcs sc msh t = Some (pv, t')"
  shows "\<exists>t1. forEach pv (closeOnBackBone sc msh) t = Some t1
        \<and> trunkExtremum sc t1 = trunkExtremum sc t
        \<and> (pv = [] \<longrightarrow> t' = t1)
        \<and> (pv \<noteq> [] \<longrightarrow>
             (\<forall>v\<in>set pv. getCorrespondingNodeId t1 v = Some (nodeOf t1 v)
                \<and> inRange (nodeOf t1 v) (nodes t1))
           \<and> inRange (rootOf sc t1) (rootedNodes sc t1)
           \<and> getCorrespondingNodeId t' (trunkExtremum sc t) = Some (rootOf sc t1)
           \<and> t' = t1\<lparr>superArcs := superArcs t1 @ backboneArcs sc t1 pv,
                      nodes := attachArcs (length (superArcs t1)) (backboneArcs sc t1 pv)
                                 (rootedNodes sc t1),
                      vert2tree := rootedVert2tree sc t1\<rparr>)"
proof -
  let ?body = "\<lambda>n t. do {
             pd \<leftarrow> rd pv (n - 1);
             pu \<leftarrow> rd pv n;
             d \<leftarrow> getCorrespondingNodeId t pd;
             u \<leftarrow> getCorrespondingNodeId t pu;
             (na, t') \<leftarrow> makeSuperArc d u t;
             modSuperArc na (setLastVisited pu) t'
           }"
  let ?A = "\<lambda>n. \<lparr>downNodeId = nodeOf t1 (pv ! nat (n - 1)), upNodeId = nodeOf t1 (pv ! nat n),
                  lastVisited = pv ! nat n, verticesSeen = 1, region = []\<rparr>"
  from trunkArcs_split [OF run] obtain t1 t2 where
    cl: "forEach pv (closeOnBackBone sc msh) t = Some t1"
    and loop: "forEach [1 .. int (length pv) - 1] ?body t1 = Some t2"
    and emp: "pv = [] \<longrightarrow> t' = t2"
    and fin: "pv \<noteq> [] \<longrightarrow> (\<exists>d lastArc t3 e rootNode t4 t5 rn.
                  (\<exists>pl. rd pv (int (length pv) - 1) = Some pl
                     \<and> getCorrespondingNodeId t2 pl = Some d)
                \<and> openSuperArc d t2 = Some (lastArc, t3)
                \<and> rd (sortedVertices sc) (if isJT t3 then sizeS sc - 1 else 0) = Some e
                \<and> makeNode sc e nullVertex t3 = Some (rootNode, t4)
                \<and> closeSuperArc lastArc rootNode t4 = Some t5
                \<and> rd (nodes t5) rootNode = Some rn
                \<and> modSuperArc lastArc (setLastVisited (vertexId rn)) t5 = Some t')"
    by blast
  have u1: "untouched t1 = untouched t"
    using cl by (rule forEach_preserves) (rule closeOnBackBone_untouched)
  have ex: "trunkExtremum sc t1 = trunkExtremum sc t"
    using untouched_treeType [OF u1] by (simp add: trunkExtremum_def isJT_def)
  have loop': "forEach [1 .. int (length pv) - 1] ?body
      (t1\<lparr>superArcs := superArcs t1 @ [],
          nodes := attachArcs (length (superArcs t1)) [] (nodes t1)\<rparr>) = Some t2"
    using loop by (simp add: attachArcs_Nil)
  note cf = chain_loop_form [OF loop']
  have t2: "t2 = t1\<lparr>superArcs := superArcs t1 @ chainArcs t1 pv,
                  nodes := attachArcs (length (superArcs t1)) (chainArcs t1 pv) (nodes t1)\<rparr>"
    using cf [THEN conjunct1] unfolding chainArcs_upto by simp
  have cn: "\<forall>n\<in>set [1 .. int (length pv) - 1]. inRange (n - 1) pv \<and> inRange n pv
           \<and> getCorrespondingNodeId t1 (pv ! nat (n - 1)) = Some (nodeOf t1 (pv ! nat (n - 1)))
           \<and> getCorrespondingNodeId t1 (pv ! nat n) = Some (nodeOf t1 (pv ! nat n))
           \<and> inRange (nodeOf t1 (pv ! nat (n - 1))) (nodes t1)
           \<and> inRange (nodeOf t1 (pv ! nat n)) (nodes t1)"
    using cf [THEN conjunct2] .
  have e2: "t' = t1" if "pv = []"
  proof -
    have "t2 = t1" using loop that by simp
    then show ?thesis using emp that by simp
  qed
  have main: "(\<forall>v\<in>set pv. getCorrespondingNodeId t1 v = Some (nodeOf t1 v)
                \<and> inRange (nodeOf t1 v) (nodes t1))
           \<and> inRange (rootOf sc t1) (rootedNodes sc t1)
           \<and> getCorrespondingNodeId t' (trunkExtremum sc t) = Some (rootOf sc t1)
           \<and> t' = t1\<lparr>superArcs := superArcs t1 @ backboneArcs sc t1 pv,
                      nodes := attachArcs (length (superArcs t1)) (backboneArcs sc t1 pv)
                                 (rootedNodes sc t1),
                      vert2tree := rootedVert2tree sc t1\<rparr>"
    if ne: "pv \<noteq> []"
  proof -
    from fin ne obtain d lastArc t3 e rootNode t4 t5 rn pl where
      pl: "rd pv (int (length pv) - 1) = Some pl"
      and d: "getCorrespondingNodeId t2 pl = Some d"
      and op: "openSuperArc d t2 = Some (lastArc, t3)"
      and e: "rd (sortedVertices sc) (if isJT t3 then sizeS sc - 1 else 0) = Some e"
      and mk: "makeNode sc e nullVertex t3 = Some (rootNode, t4)"
      and cs: "closeSuperArc lastArc rootNode t4 = Some t5"
      and rn: "rd (nodes t5) rootNode = Some rn"
      and md: "modSuperArc lastArc (setLastVisited (vertexId rn)) t5 = Some t'"
      by blast
    have "nat (int (length pv) - 1) = length pv - 1" by simp
    then have pl': "pl = last pv"
      using pl ne by (simp add: rd_def last_conv_nth split: if_splits)
    have newr: "\<forall>a\<in>set (chainArcs t1 pv). inRange (downNodeId a) (nodes t1)
        \<and> inRange (upNodeId a) (nodes t1)"
      unfolding chainArcs_upto [symmetric] using cn by auto
    note ff = final_form [OF t2 newr d op e mk cs rn md refl]
    have bb: "chainArcs t1 pv @ [\<lparr>downNodeId = nodeOf t1 pl, upNodeId = rootOf sc t1,
                 lastVisited = vertexId (rootedNodes sc t1 ! nat (rootOf sc t1)),
                 verticesSeen = 1, region = []\<rparr>] = backboneArcs sc t1 pv"
      unfolding pl' backboneArcs_def ..
    have all: "getCorrespondingNodeId t1 v = Some (nodeOf t1 v) \<and> inRange (nodeOf t1 v) (nodes t1)"
      if v: "v \<in> set pv" for v
    proof -
      from v obtain i where i: "i < length pv" "v = pv ! i" by (auto simp: in_set_conv_nth)
      show ?thesis
      proof (cases "Suc i = length pv")
        case True
        then have "i = length pv - 1" by simp
        then have "v = last pv" using i(2) ne by (simp add: last_conv_nth)
        then show ?thesis using ff [THEN conjunct2] pl' by simp
      next
        case False
        then have "int (Suc i) \<in> set [1 .. int (length pv) - 1]" using i by auto
        from cn [rule_format, OF this] show ?thesis using i by simp
      qed
    qed
    note f1 = ff [THEN conjunct1, unfolded bb]
    note f4 = ff [THEN conjunct2, THEN conjunct2, THEN conjunct2, THEN conjunct1]
    note f6 = ff [THEN conjunct2, THEN conjunct2, THEN conjunct2, THEN conjunct2, THEN conjunct2,
        unfolded ex]
    show ?thesis
    proof (intro conjI ballI)
      fix v assume "v \<in> set pv"
      from all [OF this]
      show "getCorrespondingNodeId t1 v = Some (nodeOf t1 v)" "inRange (nodeOf t1 v) (nodes t1)"
        by simp_all
    next
      show "inRange (rootOf sc t1) (rootedNodes sc t1)" by (rule f4)
      show "getCorrespondingNodeId t' (trunkExtremum sc t) = Some (rootOf sc t1)" by (rule f6)
      show "t' = t1\<lparr>superArcs := superArcs t1 @ backboneArcs sc t1 pv,
                      nodes := attachArcs (length (superArcs t1)) (backboneArcs sc t1 pv)
                                 (rootedNodes sc t1),
                      vert2tree := rootedVert2tree sc t1\<rparr>" by (rule f1)
    qed
  qed
  show ?thesis
  proof (intro exI [of _ t1] conjI impI)
    show "forEach pv (closeOnBackBone sc msh) t = Some t1" by (rule cl)
    show "trunkExtremum sc t1 = trunkExtremum sc t" by (rule ex)
    show "t' = t1" if "pv = []" using e2 [OF that] .
  qed (use main in blast)+
qed

lemma trunkArcs_unfold:
  assumes "pendingVertsOf sc t = Some pv" "forEach pv (closeOnBackBone sc msh) t = Some t1"
    "forEach [1 .. int (length pv) - 1] (\<lambda>n t. do {
             pd \<leftarrow> rd pv (n - 1);
             pu \<leftarrow> rd pv n;
             d \<leftarrow> getCorrespondingNodeId t pd;
             u \<leftarrow> getCorrespondingNodeId t pu;
             (na, t') \<leftarrow> makeSuperArc d u t;
             modSuperArc na (setLastVisited pu) t'
           }) t1 = Some t2"
    "pv \<noteq> []" "rd pv (int (length pv) - 1) = Some pl"
  shows "trunkArcs sc msh t = do {
       d \<leftarrow> getCorrespondingNodeId t2 pl;
       (lastArc, t3) \<leftarrow> openSuperArc d t2;
       extremum \<leftarrow> rd (sortedVertices sc) (if isJT t3 then sizeS sc - 1 else 0);
       (rootNode, t4) \<leftarrow> makeNode sc extremum nullVertex t3;
       t5 \<leftarrow> closeSuperArc lastArc rootNode t4;
       rn \<leftarrow> rd (nodes t5) rootNode;
       t6 \<leftarrow> modSuperArc lastArc (setLastVisited (vertexId rn)) t5;
       Some (pv, t6)
     }"
  using assms by (simp add: trunkArcs_def Let_def)

lemma trunkArcs_total:
  assumes rdy: "trunkReady sc msh t"
  shows "\<exists>pv t'. trunkArcs sc msh t = Some (pv, t')"
proof -
  have inv: "trunkInv sc t" and lo: "int (length (openedNodes t)) = sizeS sc"
    and ls: "int (length (sortedVertices sc)) = sizeS sc"
    and sv: "\<forall>x\<in>set (sortedVertices sc). 0 \<le> x \<and> x < sizeS sc"
    and op: "\<forall>v\<in>set [0 .. sizeS sc - 1]. openedNodes t ! nat v \<noteq> 0 \<longrightarrow>
           ufs t ! nat v \<noteq> None \<and> (\<forall>n\<in>set (msh v). 0 \<le> n \<and> n < sizeS sc)"
    using rdy unfolding trunkReady_def by blast+
  have "\<forall>v\<in>set [0 .. sizeS sc - 1]. inRange v (openedNodes t)"
    using lo by (simp add: inRange_def)
  from collect_total [OF this, of "[]"] obtain pv where
    pend: "pendingVertsOf sc t = Some pv"
    by (auto simp: pendingVertsOf_def)
  let ?body = "\<lambda>n t. do {
             pd \<leftarrow> rd pv (n - 1);
             pu \<leftarrow> rd pv n;
             d \<leftarrow> getCorrespondingNodeId t pd;
             u \<leftarrow> getCorrespondingNodeId t pu;
             (na, t') \<leftarrow> makeSuperArc d u t;
             modSuperArc na (setLastVisited pu) t'
           }"
  have pv: "pv = sortBy (vertLower sc t)
               (filter (\<lambda>v. openedNodes t ! nat v \<noteq> 0) [0 .. sizeS sc - 1])"
    using pend by (rule pendingVertsOf_sorted)
  have mem: "v \<in> set [0 .. sizeS sc - 1] \<and> openedNodes t ! nat v \<noteq> 0" if "v \<in> set pv" for v
    using that unfolding pv set_sortBy by simp
  have vs: "\<forall>v\<in>set pv. 0 \<le> v \<and> v < sizeS sc \<and> ufs t ! nat v \<noteq> None
               \<and> (\<forall>n\<in>set (msh v). 0 \<le> n \<and> n < sizeS sc)"
  proof
    fix v assume "v \<in> set pv"
    from mem [OF this] have m: "v \<in> set [0 .. sizeS sc - 1]" "openedNodes t ! nat v \<noteq> 0"
      by simp_all
    have r: "0 \<le> v \<and> v < sizeS sc" using m(1) by simp
    from op [rule_format, OF m] r show "0 \<le> v \<and> v < sizeS sc \<and> ufs t ! nat v \<noteq> None
               \<and> (\<forall>n\<in>set (msh v). 0 \<le> n \<and> n < sizeS sc)"
      by blast
  qed
  from backbone_loop_total [OF inv vs] obtain t1 where
    cl: "forEach pv (closeOnBackBone sc msh) t = Some t1" and inv1: "trunkInv sc t1"
    and nd: "\<forall>v\<in>set pv. \<exists>n. vert2tree t1 ! nat v = CNode n"
    by blast
  have l1: "int (length (vert2tree t1)) = sizeS sc" using inv1 by (simp add: trunkInv_iff)
  have nodes: "\<forall>v\<in>set pv. getCorrespondingNodeId t1 v \<noteq> None
                    \<and> inRange (nodeOf t1 v) (nodes t1)"
  proof
    fix v assume v: "v \<in> set pv"
    then obtain n where n: "vert2tree t1 ! nat v = CNode n" using nd by blast
    have r: "0 \<le> v" "v < sizeS sc" using vs v by simp_all
    then have nv: "nat v < length (vert2tree t1)" using l1 by simp
    have g: "getCorrespondingNodeId t1 v = Some n"
      using n r l1 by (simp add: getCorrespondingNodeId_def rd_def inRange_def)
    have "inRange n (nodes t1)" using inv1 n nv by (simp add: trunkInv_iff)
    then show "getCorrespondingNodeId t1 v \<noteq> None \<and> inRange (nodeOf t1 v) (nodes t1)"
      using g by (simp add: nodeOf_def)
  qed
  have ns: "\<forall>n\<in>set [1 .. int (length pv) - 1]. inRange (n - 1) pv \<and> inRange n pv"
    by (simp add: inRange_def)
  from chain_loop_total [OF nodes ns, of "[]"] obtain t2 where
    loop': "forEach [1 .. int (length pv) - 1] ?body
      (t1\<lparr>superArcs := superArcs t1 @ [],
          nodes := attachArcs (length (superArcs t1)) [] (nodes t1)\<rparr>) = Some t2"
    by blast
  then have loop: "forEach [1 .. int (length pv) - 1] ?body t1 = Some t2"
    by (simp add: attachArcs_Nil)
  have t2: "t2 = t1\<lparr>superArcs := superArcs t1 @ chainArcs t1 pv,
                  nodes := attachArcs (length (superArcs t1)) (chainArcs t1 pv) (nodes t1)\<rparr>"
    using chain_loop_form [OF loop', THEN conjunct1] unfolding chainArcs_upto by simp
  show ?thesis
  proof (cases "pv = []")
    case True
    then show ?thesis using pend cl loop by (simp add: trunkArcs_def)
  next
    case False
    then have lp: "last pv \<in> set pv" by simp
    have "0 \<le> last pv \<and> last pv < sizeS sc" using vs [rule_format, OF lp] by blast
    then have sz: "0 < sizeS sc" by simp
    have er: "inRange (if isJT t1 then sizeS sc - 1 else 0) (sortedVertices sc)"
      using ls sz by (simp add: inRange_def)
    then have "trunkExtremum sc t1 \<in> set (sortedVertices sc)"
      unfolding trunkExtremum_def by (intro nth_mem inRange_nat)
    then have ev: "0 \<le> trunkExtremum sc t1" "trunkExtremum sc t1 < sizeS sc"
      using sv by simp_all
    have pl: "getCorrespondingNodeId t1 (last pv) \<noteq> None"
      "inRange (nodeOf t1 (last pv)) (nodes t1)"
      using nodes lp by simp_all
    from final_total [OF inv1 t2 pl er ev, of pv] obtain t' where
      f: "do {
       d \<leftarrow> getCorrespondingNodeId t2 (last pv);
       (lastArc, t3) \<leftarrow> openSuperArc d t2;
       extremum \<leftarrow> rd (sortedVertices sc) (if isJT t3 then sizeS sc - 1 else 0);
       (rootNode, t4) \<leftarrow> makeNode sc extremum nullVertex t3;
       t5 \<leftarrow> closeSuperArc lastArc rootNode t4;
       rn \<leftarrow> rd (nodes t5) rootNode;
       t6 \<leftarrow> modSuperArc lastArc (setLastVisited (vertexId rn)) t5;
       Some (pv, t6)
     } = Some (pv, t')"
      by blast
    have "nat (int (length pv) - 1) = length pv - 1" by simp
    then have rl: "rd pv (int (length pv) - 1) = Some (last pv)"
      using False by (simp add: rd_def inRange_def last_conv_nth)
    have "trunkArcs sc msh t = Some (pv, t')"
      unfolding trunkArcs_unfold [OF pend cl loop False rl] by (rule f)
    then show ?thesis by blast
  qed
qed

text \<open>
  C5. The first part of \<^verbatim>\<open>trunk\<close>, on every state on which it returns. The
  pending vertices are the vertices whose entry of \<^verbatim>\<open>openedNodes\<close> is set, each
  once, sorted with \<^verbatim>\<open>vertLower\<close>, the order of the sweep.
  \<^verbatim>\<open>closeOnBackBone\<close> runs on them in this sequence and gives the tree \<open>t1\<close>.
  With no pending vertex nothing else happens. Otherwise every pending vertex has
  a node in \<open>t1\<close>, and the result is \<open>t1\<close> with the arcs of
  \<open>backboneArcs\<close> appended: one arc from the node of each pending vertex to the
  node of the next one, then one arc from the node of the last pending vertex to
  the node of the vertex \<^verbatim>\<open>sortedVertices[size - 1]\<close> for a join tree and
  \<^verbatim>\<open>sortedVertices[0]\<close> otherwise, which \<^verbatim>\<open>vert2tree\<close> records for that
  vertex in the result; each of these arcs is listed in \<^verbatim>\<open>upSuperArcs\<close> of its
  down node and in \<^verbatim>\<open>downSuperArcs\<close> of its up node; nothing else changes.
  On the states of \<open>trunkReady\<close> the first part of \<^verbatim>\<open>trunk\<close> returns.
\<close>

theorem trunkArcs_backbone:
  "(trunkArcs sc msh t = Some (pv, t') \<longrightarrow>
      pv = sortBy (vertLower sc t)
             (filter (\<lambda>v. openedNodes t ! nat v \<noteq> 0) [0 .. sizeS sc - 1])
    \<and> distinct pv
    \<and> ((\<forall>x y z. \<not> vertLower sc t y x \<and> \<not> vertLower sc t z y \<longrightarrow> \<not> vertLower sc t z x)
         \<and> (\<forall>x y. vertLower sc t x y \<longrightarrow> \<not> vertLower sc t y x)
       \<longrightarrow> sweepSorted sc t pv)
    \<and> (\<exists>t1. forEach pv (closeOnBackBone sc msh) t = Some t1
        \<and> trunkExtremum sc t1 = trunkExtremum sc t
        \<and> (pv = [] \<longrightarrow> t' = t1)
        \<and> (pv \<noteq> [] \<longrightarrow>
             (\<forall>v\<in>set pv. getCorrespondingNodeId t1 v = Some (nodeOf t1 v)
                \<and> inRange (nodeOf t1 v) (nodes t1))
           \<and> inRange (rootOf sc t1) (rootedNodes sc t1)
           \<and> getCorrespondingNodeId t' (trunkExtremum sc t) = Some (rootOf sc t1)
           \<and> t' = t1\<lparr>superArcs := superArcs t1 @ backboneArcs sc t1 pv,
                      nodes := attachArcs (length (superArcs t1)) (backboneArcs sc t1 pv)
                                 (rootedNodes sc t1),
                      vert2tree := rootedVert2tree sc t1\<rparr>)))
   \<and> (trunkReady sc msh t \<longrightarrow> (\<exists>pv t'. trunkArcs sc msh t = Some (pv, t')))"
proof (intro conjI impI)
  assume run: "trunkArcs sc msh t = Some (pv, t')"
  have pend: "pendingVertsOf sc t = Some pv" using trunkArcs_split [OF run] by blast
  show pv: "pv = sortBy (vertLower sc t)
               (filter (\<lambda>v. openedNodes t ! nat v \<noteq> 0) [0 .. sizeS sc - 1])"
    using pend by (rule pendingVertsOf_sorted)
  show "distinct pv"
    unfolding pv by (rule distinct_sortBy) simp
  show "\<exists>t1. forEach pv (closeOnBackBone sc msh) t = Some t1
        \<and> trunkExtremum sc t1 = trunkExtremum sc t
        \<and> (pv = [] \<longrightarrow> t' = t1)
        \<and> (pv \<noteq> [] \<longrightarrow>
             (\<forall>v\<in>set pv. getCorrespondingNodeId t1 v = Some (nodeOf t1 v)
                \<and> inRange (nodeOf t1 v) (nodes t1))
           \<and> inRange (rootOf sc t1) (rootedNodes sc t1)
           \<and> getCorrespondingNodeId t' (trunkExtremum sc t) = Some (rootOf sc t1)
           \<and> t' = t1\<lparr>superArcs := superArcs t1 @ backboneArcs sc t1 pv,
                      nodes := attachArcs (length (superArcs t1)) (backboneArcs sc t1 pv)
                                 (rootedNodes sc t1),
                      vert2tree := rootedVert2tree sc t1\<rparr>)"
    using run by (rule trunkArcs_form)
  assume o: "(\<forall>x y z. \<not> vertLower sc t y x \<and> \<not> vertLower sc t z y \<longrightarrow> \<not> vertLower sc t z x)
         \<and> (\<forall>x y. vertLower sc t x y \<longrightarrow> \<not> vertLower sc t y x)"
  have "sorted_wrt (\<lambda>x y. \<not> vertLower sc t y x) (sortBy (vertLower sc t)
               (filter (\<lambda>v. openedNodes t ! nat v \<noteq> 0) [0 .. sizeS sc - 1]))"
    by (rule sorted_sortBy) (use o in blast)+
  then show "sweepSorted sc t pv" unfolding sweepSorted_def using pv by simp
next
  assume "trunkReady sc msh t"
  then show "\<exists>pv t'. trunkArcs sc msh t = Some (pv, t')" by (rule trunkArcs_total)
qed

lemma exTrunk_reached:
  "do { (alreadyDone, t1) \<leftarrow> precompute unitChunks exScalars6 forkMesh (initTree Join exScalars6);
        launchLeaves 50 exScalars6 forkMesh t1 } = Some exTrunk"
  by code_simp

lemma exTrunk_ready: "trunkReady exScalars6 forkMesh exTrunk"
  by code_simp

lemma exTrunk_pending:
  "sortBy (vertLower exScalars6 exTrunk)
     (filter (\<lambda>v. openedNodes exTrunk ! nat v \<noteq> 0) [0 .. sizeS exScalars6 - 1]) = [3, 4]"
  by code_simp

lemma exTrunk_closed:
  "forEach [3, 4] (closeOnBackBone exScalars6 forkMesh) exTrunk = Some exTrunkClosed"
  by code_simp

lemma exTrunk_arcs:
  "exTrunkClosed\<lparr>superArcs := superArcs exTrunkClosed @ backboneArcs exScalars6 exTrunkClosed [3, 4],
       nodes := attachArcs (length (superArcs exTrunkClosed))
                  (backboneArcs exScalars6 exTrunkClosed [3, 4])
                  (rootedNodes exScalars6 exTrunkClosed),
       vert2tree := rootedVert2tree exScalars6 exTrunkClosed\<rparr>
   = exTrunkClosed
       \<lparr>superArcs := superArcs exTrunkClosed
          @ [\<lparr>downNodeId = 3, upNodeId = 4, lastVisited = 4, verticesSeen = 1, region = []\<rparr>,
             \<lparr>downNodeId = 4, upNodeId = 5, lastVisited = 5, verticesSeen = 1, region = []\<rparr>],
        nodes := [\<lparr>vertexId = 0, terminaison = -1, upSuperArcs = [1], downSuperArcs = []\<rparr>,
                  \<lparr>vertexId = 1, terminaison = -1, upSuperArcs = [2], downSuperArcs = []\<rparr>,
                  \<lparr>vertexId = 2, terminaison = -1, upSuperArcs = [0], downSuperArcs = []\<rparr>,
                  \<lparr>vertexId = 3, terminaison = -1, upSuperArcs = [3], downSuperArcs = [2, 1]\<rparr>,
                  \<lparr>vertexId = 4, terminaison = -1, upSuperArcs = [4], downSuperArcs = [0, 3]\<rparr>,
                  \<lparr>vertexId = 5, terminaison = -1, upSuperArcs = [], downSuperArcs = [4]\<rparr>],
        vert2tree := [CNode 0, CNode 1, CNode 2, CNode 3, CNode 4, CNode 5]\<rparr>"
  by code_simp

theorem trunkArcs_backbone_witness:
  "trunkReady exScalars6 forkMesh exTrunk
   \<and> forEach [3, 4] (closeOnBackBone exScalars6 forkMesh) exTrunk = Some exTrunkClosed
   \<and> sweepSorted exScalars6 exTrunk [3, 4]
   \<and> trunkArcs exScalars6 forkMesh exTrunk = Some ([3, 4], exTrunkClosed
       \<lparr>superArcs := superArcs exTrunkClosed
          @ [\<lparr>downNodeId = 3, upNodeId = 4, lastVisited = 4, verticesSeen = 1, region = []\<rparr>,
             \<lparr>downNodeId = 4, upNodeId = 5, lastVisited = 5, verticesSeen = 1, region = []\<rparr>],
        nodes := [\<lparr>vertexId = 0, terminaison = -1, upSuperArcs = [1], downSuperArcs = []\<rparr>,
                  \<lparr>vertexId = 1, terminaison = -1, upSuperArcs = [2], downSuperArcs = []\<rparr>,
                  \<lparr>vertexId = 2, terminaison = -1, upSuperArcs = [0], downSuperArcs = []\<rparr>,
                  \<lparr>vertexId = 3, terminaison = -1, upSuperArcs = [3], downSuperArcs = [2, 1]\<rparr>,
                  \<lparr>vertexId = 4, terminaison = -1, upSuperArcs = [4], downSuperArcs = [0, 3]\<rparr>,
                  \<lparr>vertexId = 5, terminaison = -1, upSuperArcs = [], downSuperArcs = [4]\<rparr>],
        vert2tree := [CNode 0, CNode 1, CNode 2, CNode 3, CNode 4, CNode 5]\<rparr>)"
proof -
  have vl: "vertLower exScalars6 exTrunk = isLower (mkScalars [2, 0, 1, 3, 4, 5])"
    by (rule ext, rule ext) (simp add: vertLower_def exTrunk_def exScalars6_def)
  have ord: "(\<forall>x y z. \<not> vertLower exScalars6 exTrunk y x \<and> \<not> vertLower exScalars6 exTrunk z y
                \<longrightarrow> \<not> vertLower exScalars6 exTrunk z x)
         \<and> (\<forall>x y. vertLower exScalars6 exTrunk x y \<longrightarrow> \<not> vertLower exScalars6 exTrunk y x)"
    unfolding vl by (rule mkScalars_order)
  from trunkArcs_backbone [of exScalars6 forkMesh exTrunk, THEN conjunct2, THEN mp,
      OF exTrunk_ready]
  obtain pv t' where run: "trunkArcs exScalars6 forkMesh exTrunk = Some (pv, t')" by blast
  note th = trunkArcs_backbone [of exScalars6 forkMesh exTrunk pv t', THEN conjunct1, THEN mp,
      OF run]
  have pv: "pv = [3, 4]" using th [THEN conjunct1] unfolding exTrunk_pending .
  have s: "sweepSorted exScalars6 exTrunk [3, 4]"
    using th [THEN conjunct2, THEN conjunct2, THEN conjunct1] ord unfolding pv by (rule mp)
  from th [THEN conjunct2, THEN conjunct2, THEN conjunct2, unfolded pv] show ?thesis
  proof (elim exE conjE, goal_cases)
    case (1 t1)
    have t1: "t1 = exTrunkClosed" using 1(1) exTrunk_closed by simp
    have ne: "[3, 4 :: int] \<noteq> []" by simp
    note big = 1(4) [THEN mp, OF ne, unfolded t1]
    have "t' = exTrunkClosed
       \<lparr>superArcs := superArcs exTrunkClosed
          @ [\<lparr>downNodeId = 3, upNodeId = 4, lastVisited = 4, verticesSeen = 1, region = []\<rparr>,
             \<lparr>downNodeId = 4, upNodeId = 5, lastVisited = 5, verticesSeen = 1, region = []\<rparr>],
        nodes := [\<lparr>vertexId = 0, terminaison = -1, upSuperArcs = [1], downSuperArcs = []\<rparr>,
                  \<lparr>vertexId = 1, terminaison = -1, upSuperArcs = [2], downSuperArcs = []\<rparr>,
                  \<lparr>vertexId = 2, terminaison = -1, upSuperArcs = [0], downSuperArcs = []\<rparr>,
                  \<lparr>vertexId = 3, terminaison = -1, upSuperArcs = [3], downSuperArcs = [2, 1]\<rparr>,
                  \<lparr>vertexId = 4, terminaison = -1, upSuperArcs = [4], downSuperArcs = [0, 3]\<rparr>,
                  \<lparr>vertexId = 5, terminaison = -1, upSuperArcs = [], downSuperArcs = [4]\<rparr>],
        vert2tree := [CNode 0, CNode 1, CNode 2, CNode 3, CNode 4, CNode 5]\<rparr>"
      using big [THEN conjunct2, THEN conjunct2, THEN conjunct2] unfolding exTrunk_arcs .
    then show ?case
      using exTrunk_ready exTrunk_closed s run unfolding pv by blast
  qed
qed

end
